(* ===== verification/Aegis_Prelude.thy ===== *)
theory Aegis_Prelude
  imports Main "HOL-Library.Word"
begin

text \<open>
  Shared vocabulary of the development: the names of the machine types, the exceptions the
  program can throw, checked element access of \<^verbatim>\<open>std::vector::at\<close> and \<^verbatim>\<open>std::deque::at\<close>,
  decimal printing (\<^verbatim>\<open>std::to_string\<close>) with its inverse, and the generic lemmas on lists,
  sums and words the component theories share.
\<close>

unbundle bit_operations_syntax

named_theorems result_simps \<open>rewriting of computations in the result type\<close>

section \<open>Machine types\<close>

type_synonym u64 = "64 word"
type_synonym u16 = "16 word"
type_synonym nanos = int \<comment> \<open>a \<^verbatim>\<open>steady_clock\<close> time point or duration, in nanoseconds\<close>

section \<open>Exceptions and results\<close>

text \<open>
  The exceptions of the standard library and of Asio the program can meet: a checked access
  out of bounds, a failed number conversion, and a \<^verbatim>\<open>std::system_error\<close> with its message.
  \<open>exn_what\<close> is its \<^verbatim>\<open>what()\<close>; the texts of the first two are up to the C++ library, so their names
  stand for them, and no statement depends on them.
\<close>

datatype exn = Out_Of_Range | Invalid_Argument | System_Error string

fun exn_what :: "exn \<Rightarrow> string" where
  "exn_what Out_Of_Range = ''out_of_range''"
| "exn_what Invalid_Argument = ''invalid_argument''"
| "exn_what (System_Error m) = m"

type_synonym 'a result = "exn + 'a"

definition bind_result :: "'a result \<Rightarrow> ('a \<Rightarrow> 'b result) \<Rightarrow> 'b result" where
  "bind_result r f = (case r of Inl e \<Rightarrow> Inl e | Inr x \<Rightarrow> f x)"

text \<open>\<^verbatim>\<open>xs.at(i)\<close>, and the assignment of a new value to the element \<^verbatim>\<open>xs.at(i)\<close> refers to.\<close>

definition vec_at :: "'a list \<Rightarrow> nat \<Rightarrow> 'a result" where
  "vec_at xs i = (if i < length xs then Inr (xs ! i) else Inl Out_Of_Range)"

definition vec_modify :: "'a list \<Rightarrow> nat \<Rightarrow> ('a \<Rightarrow> 'a) \<Rightarrow> 'a list result" where
  "vec_modify xs i f = (if i < length xs then Inr (xs[i := f (xs ! i)]) else Inl Out_Of_Range)"

section \<open>Output\<close>

text \<open>A line written to one of the standard streams.\<close>

datatype log_line = Cout string | Cerr string

section \<open>Decimal numbers\<close>

definition digit_char :: "nat \<Rightarrow> char" where
  "digit_char d = char_of (48 + d)"

definition char_digit :: "char \<Rightarrow> nat" where
  "char_digit c = of_char c - 48"

definition is_digit :: "char \<Rightarrow> bool" where
  "is_digit c \<longleftrightarrow> 48 \<le> (of_char c :: nat) \<and> (of_char c :: nat) \<le> 57"

text \<open>\<^verbatim>\<open>std::to_string\<close> of an unsigned number.\<close>

fun to_string :: "nat \<Rightarrow> string" where
  "to_string n = (if n < 10 then [digit_char n] else to_string (n div 10) @ [digit_char (n mod 10)])"

text \<open>\<^verbatim>\<open>std::to_string\<close> (or \<^verbatim>\<open>operator<<\<close>) of a signed number.\<close>

definition int_to_string :: "int \<Rightarrow> string" where
  "int_to_string z = (if z < 0 then CHR ''-'' # to_string (nat (- z)) else to_string (nat z))"

text \<open>The number a digit string denotes.\<close>

definition of_digits :: "string \<Rightarrow> nat" where
  "of_digits s = foldl (\<lambda>a c. a * 10 + char_digit c) 0 s"

declare to_string.simps [simp del]

section \<open>Lemmas on results and checked access\<close>

lemma bind_result_Inl [simp, result_simps]: "bind_result (Inl e) f = Inl e"
  by (simp add: bind_result_def)

lemma bind_result_Inr [simp, result_simps]: "bind_result (Inr x) f = f x"
  by (simp add: bind_result_def)

lemma bind_result_eq_Inr:
  "bind_result r f = Inr y \<longleftrightarrow> (\<exists>x. r = Inr x \<and> f x = Inr y)"
  by (cases r) auto

lemma bind_result_eq_Inl:
  "bind_result r f = Inl e \<longleftrightarrow> r = Inl e \<or> (\<exists>x. r = Inr x \<and> f x = Inl e)"
  by (cases r) auto

lemma vec_at_Inr [simp]: "i < length xs \<Longrightarrow> vec_at xs i = Inr (xs ! i)"
  by (simp add: vec_at_def)

lemma vec_at_eq_Inr: "vec_at xs i = Inr x \<longleftrightarrow> i < length xs \<and> xs ! i = x"
  by (auto simp: vec_at_def)

lemma vec_at_out [simp]: "length xs \<le> i \<Longrightarrow> vec_at xs i = Inl Out_Of_Range"
  by (simp add: vec_at_def)

lemma vec_modify_Inr [simp]: "i < length xs \<Longrightarrow> vec_modify xs i f = Inr (xs[i := f (xs ! i)])"
  by (simp add: vec_modify_def)

lemma vec_modify_out [simp]: "length xs \<le> i \<Longrightarrow> vec_modify xs i f = Inl Out_Of_Range"
  by (simp add: vec_modify_def)

lemma vec_modify_eq_Inr:
  "vec_modify xs i f = Inr ys \<longleftrightarrow> i < length xs \<and> ys = xs[i := f (xs ! i)]"
  by (auto simp: vec_modify_def)

lemma vec_modify_length: "vec_modify xs i f = Inr ys \<Longrightarrow> length ys = length xs"
  by (auto simp: vec_modify_eq_Inr)

lemma map_eqI: "(\<And>k v. m k = Some v \<longleftrightarrow> m' k = Some v) \<Longrightarrow> m = m'"
  by (rule ext) (metis not_None_eq)

section \<open>Lemmas on decimal numbers\<close>

lemma of_char_digit_char [simp]: "d < 10 \<Longrightarrow> (of_char (digit_char d) :: nat) = 48 + d"
  by (simp add: digit_char_def)

lemma char_digit_digit_char [simp]: "d < 10 \<Longrightarrow> char_digit (digit_char d) = d"
  by (simp add: char_digit_def)

lemma is_digit_digit_char [simp]: "d < 10 \<Longrightarrow> is_digit (digit_char d)"
  by (simp add: is_digit_def)

lemma digit_char_eval:
  "digit_char 0 = CHR ''0''" "digit_char 1 = CHR ''1''" "digit_char (Suc 0) = CHR ''1''"
  "digit_char 2 = CHR ''2''" "digit_char 3 = CHR ''3''" "digit_char 4 = CHR ''4''"
  "digit_char 5 = CHR ''5''" "digit_char 6 = CHR ''6''" "digit_char 7 = CHR ''7''"
  "digit_char 8 = CHR ''8''" "digit_char 9 = CHR ''9''"
  by code_simp+

lemma to_string_small [simp]: "n < 10 \<Longrightarrow> to_string n = [digit_char n]"
  by (simp add: to_string.simps)

lemma to_string_big: "10 \<le> n \<Longrightarrow> to_string n = to_string (n div 10) @ [digit_char (n mod 10)]"
  by (subst to_string.simps) simp

lemma to_string_not_Nil [simp]: "to_string n \<noteq> []"
  by (subst to_string.simps) simp

lemma to_string_digits: "c \<in> set (to_string n) \<Longrightarrow> is_digit c"
proof (induction n rule: to_string.induct)
  case (1 n)
  then show ?case
    by (cases "n < 10") (auto simp: to_string_big)
qed

lemma of_digits_snoc [simp]: "of_digits (s @ [c]) = of_digits s * 10 + char_digit c"
  by (simp add: of_digits_def)

lemma of_digits_single [simp]: "of_digits [c] = char_digit c"
  by (simp add: of_digits_def)

lemma of_digits_to_string [simp]: "of_digits (to_string n) = n"
proof (induction n rule: to_string.induct)
  case (1 n)
  then show ?case
    by (cases "n < 10") (auto simp: to_string_big)
qed

lemma to_string_inject [simp]: "to_string m = to_string n \<longleftrightarrow> m = n"
  by (metis of_digits_to_string)

lemma digits_split:
  assumes "xs @ c # ys = xs' @ c # ys'"
    and "c \<notin> set xs" and "c \<notin> set xs'"
  shows "xs = xs' \<and> ys = ys'"
  using assms
proof (induction xs arbitrary: xs')
  case Nil
  then show ?case by (cases xs') auto
next
  case (Cons x xs)
  then show ?case by (cases xs') auto
qed

lemma not_digit_notin_to_string: "\<not> is_digit c \<Longrightarrow> c \<notin> set (to_string n)"
  using to_string_digits by blast

section \<open>Cutting strings\<close>

text \<open>Cut a string at its first occurrence of a character.\<close>

definition cut :: "char \<Rightarrow> string \<Rightarrow> string \<times> string" where
  "cut c s = (takeWhile (\<lambda>x. x \<noteq> c) s, drop 1 (dropWhile (\<lambda>x. x \<noteq> c) s))"

lemma cut_append: "c \<notin> set a \<Longrightarrow> cut c (a @ c # b) = (a, b)"
  by (induction a) (auto simp: cut_def)

lemma cut_none: "c \<notin> set a \<Longrightarrow> cut c a = (a, [])"
  by (induction a) (auto simp: cut_def)

lemma cut_shorter: "s \<noteq> [] \<Longrightarrow> length (snd (cut c s)) < length s"
  using length_dropWhile_le [of "\<lambda>x. x \<noteq> c" s]
  by (cases s) (auto simp: cut_def split: if_splits)

text \<open>The pieces between the occurrences of a separator.\<close>

function split_on :: "char \<Rightarrow> string \<Rightarrow> string list" where
  "split_on c s = (if s = [] then [] else fst (cut c s) # split_on c (snd (cut c s)))"
  by auto
termination by (relation "measure (length \<circ> snd)") (simp_all add: cut_shorter)

declare split_on.simps [simp del]

lemma split_on_terminated:
  "\<forall>w \<in> set ws. c \<notin> set w \<Longrightarrow> split_on c (concat (map (\<lambda>w. w @ [c]) ws)) = ws"
proof (induction ws)
  case Nil
  then show ?case by (simp add: split_on.simps)
next
  case (Cons w ws)
  then show ?case by (subst split_on.simps) (simp add: cut_append)
qed

text \<open>The value of a signed decimal number.\<close>

definition parse_int :: "string \<Rightarrow> int" where
  "parse_int s = (if take 1 s = ''-'' then - int (of_digits (drop 1 s)) else int (of_digits s))"

lemma take_1_to_string: "take 1 (to_string n) \<noteq> ''-''"
proof
  assume "take 1 (to_string n) = ''-''"
  then have "CHR ''-'' \<in> set (to_string n)" by (metis in_set_takeD list.set_intros(1))
  then show False using not_digit_notin_to_string [of "CHR ''-''" n] by (simp add: is_digit_def)
qed

lemma parse_int_to_string [simp]: "parse_int (to_string n) = int n"
  using take_1_to_string by (simp add: parse_int_def)

lemma parse_int_int_to_string [simp]: "parse_int (int_to_string z) = z"
  using take_1_to_string by (simp add: parse_int_def int_to_string_def)

lemma notin_int_to_string: "\<not> is_digit c \<Longrightarrow> c \<noteq> CHR ''-'' \<Longrightarrow> c \<notin> set (int_to_string z)"
  by (auto simp: int_to_string_def not_digit_notin_to_string)

end
