(* ===== verification/Fnv_Hash.thy ===== *)
theory Fnv_Hash
  imports Aegis_Prelude
begin

text \<open>
  The 64-bit string hash of \<^verbatim>\<open>src/hash_ring.cpp\<close> (and, duplicated, of
  \<^verbatim>\<open>src/rate_limiter.cpp\<close>): FNV-1a over the bytes of the key, followed by an avalanche
  finalizer of three xor-shifts and two multiplications. The arithmetic is that of 64-bit
  words, so every multiplication wraps. The finalizer and, for a fixed byte, the FNV step are
  bijections; hence two keys collide exactly when their FNV-1a states do, and keys of equal
  length that differ in one byte never collide.
\<close>

section \<open>Definitions\<close>

definition fnv_offset_basis :: u64 where
  "fnv_offset_basis = 14695981039346656037"

definition fnv_prime :: u64 where
  "fnv_prime = 1099511628211"

definition fnv_step :: "u64 \<Rightarrow> char \<Rightarrow> u64" where
  "fnv_step h c = (h XOR of_char c) * fnv_prime"

definition fnv1a :: "string \<Rightarrow> u64" where
  "fnv1a key = foldl fnv_step fnv_offset_basis key"

definition xorshift33 :: "u64 \<Rightarrow> u64" where
  "xorshift33 h = h XOR drop_bit 33 h"

definition avalanche :: "u64 \<Rightarrow> u64" where
  "avalanche h =
     (let h = xorshift33 h;
          h = h * 0xff51afd7ed558ccd;
          h = xorshift33 h;
          h = h * 0xc4ceb9fe1a85ec53;
          h = xorshift33 h
      in h)"

definition hash_key :: "string \<Rightarrow> u64" where
  "hash_key key = avalanche (fnv1a key)"

text \<open>The inverses of the two steps, used in the proofs of injectivity only.\<close>

definition fnv_prime_inverse :: u64 where
  "fnv_prime_inverse = 14886173955864302971"

definition unavalanche :: "u64 \<Rightarrow> u64" where
  "unavalanche h =
     xorshift33 (xorshift33 (xorshift33 h * 11291846944257947611) * 5725274745694666757)"

section \<open>Bijectivity\<close>

lemma xorshift33_involutive [simp]: "xorshift33 (xorshift33 h) = h"
proof (rule bit_word_eqI)
  fix n
  assume "n < LENGTH(64)"
  then show "bit (xorshift33 (xorshift33 h)) n = bit h n"
    by (auto simp: xorshift33_def bit_simps dest: bit_imp_le_length)
qed

lemma multiplier1_inverse: "(0xff51afd7ed558ccd :: u64) * 5725274745694666757 = 1"
  by simp

lemma multiplier2_inverse: "(0xc4ceb9fe1a85ec53 :: u64) * 11291846944257947611 = 1"
  by simp

lemma fnv_prime_inverse: "fnv_prime * fnv_prime_inverse = 1"
  by (simp add: fnv_prime_def fnv_prime_inverse_def)

lemma mult_mult_inverse: "(a :: u64) * b = 1 \<Longrightarrow> h * a * b = h"
  by (simp add: mult.assoc)

lemma mult_cancel_unit: "(a :: u64) * b = 1 \<Longrightarrow> x * a = y * a \<longleftrightarrow> x = y"
  by (metis mult_mult_inverse)

lemma unavalanche_avalanche [simp]: "unavalanche (avalanche h) = h"
  unfolding unavalanche_def avalanche_def Let_def
  by (simp only: xorshift33_involutive mult_mult_inverse [OF multiplier1_inverse]
      mult_mult_inverse [OF multiplier2_inverse])

lemma avalanche_unavalanche [simp]: "avalanche (unavalanche h) = h"
proof -
  have i1: "h * 5725274745694666757 * (0xff51afd7ed558ccd :: u64) = h" for h
    by (rule mult_mult_inverse) (simp only: mult.commute multiplier1_inverse [symmetric])
  have i2: "h * 11291846944257947611 * (0xc4ceb9fe1a85ec53 :: u64) = h" for h
    by (rule mult_mult_inverse) (simp only: mult.commute multiplier2_inverse [symmetric])
  show ?thesis
    unfolding unavalanche_def avalanche_def Let_def by (simp only: i1 i2 xorshift33_involutive)
qed

lemma avalanche_inject [simp]: "avalanche h = avalanche h' \<longleftrightarrow> h = h'"
  by (metis unavalanche_avalanche)

lemma bij_avalanche: "bij avalanche"
  by (rule o_bij [of unavalanche]) (simp_all add: fun_eq_iff)

lemma xor_left_cancel [simp]: "(h :: u64) XOR a = h XOR b \<longleftrightarrow> a = b"
proof
  assume "h XOR a = h XOR b"
  then have "h XOR (h XOR a) = h XOR (h XOR b)" by simp
  then show "a = b" by (simp add: xor.assoc [symmetric])
qed simp

lemma xor_right_cancel [simp]: "(a :: u64) XOR h = b XOR h \<longleftrightarrow> a = b"
  using xor_left_cancel [of h a b] by (simp add: xor.commute)

lemma of_char_nat_less: "(of_char c :: nat) < 256"
  by (metis of_char_mod_256 mod_less_divisor zero_less_numeral)

lemma uint_of_char_u64: "uint (of_char c :: u64) = of_char c"
proof -
  have "uint (of_nat (of_char c) :: u64) = int (of_char c mod 2 ^ 64)"
    by (simp add: uint_nat unat_of_nat)
  also have "of_char c mod 2 ^ 64 = (of_char c :: nat)"
    by (rule mod_less, rule less_trans [OF of_char_nat_less]) simp
  finally show ?thesis by (simp add: of_nat_of_char)
qed

lemma of_char_u64_inject [simp]: "(of_char c :: u64) = of_char d \<longleftrightarrow> c = d"
  by (metis of_char_eq_iff uint_of_char_u64)

lemma fnv_step_inject_state [simp]: "fnv_step h c = fnv_step h' c \<longleftrightarrow> h = h'"
  by (simp add: fnv_step_def mult_cancel_unit [OF fnv_prime_inverse])

lemma fnv_step_inject_char [simp]: "fnv_step h c = fnv_step h d \<longleftrightarrow> c = d"
  by (simp add: fnv_step_def mult_cancel_unit [OF fnv_prime_inverse])

lemma foldl_fnv_step_inject [simp]:
  "foldl fnv_step h s = foldl fnv_step h' s \<longleftrightarrow> h = h'"
  by (induction s arbitrary: h h') simp_all

lemma hash_key_collision_iff: "hash_key s = hash_key t \<longleftrightarrow> fnv1a s = fnv1a t"
  by (simp add: hash_key_def)

lemma hash_key_one_byte:
  "hash_key (xs @ a # ys) = hash_key (xs @ b # ys) \<longleftrightarrow> a = b"
  by (simp add: hash_key_collision_iff fnv1a_def)

lemma hash_key_common_suffix:
  "hash_key (xs @ s) = hash_key (ys @ s) \<longleftrightarrow> hash_key xs = hash_key ys"
  by (simp add: hash_key_collision_iff fnv1a_def)

section \<open>Evaluation on integers\<close>

text \<open>
  Arithmetic on numerals of type \<^typ>\<open>u64\<close> is slow in the kernel; the following equations
  compute a hash on integers, reduced modulo \<open>2 ^ 64\<close> after every multiplication.
\<close>

definition mult64 :: "int \<Rightarrow> int \<Rightarrow> int" where
  "mult64 a b = take_bit 64 (a * b)"

definition fnv_step_int :: "int \<Rightarrow> char \<Rightarrow> int" where
  "fnv_step_int h c = mult64 (h XOR of_char c) 1099511628211"

definition xorshift33_int :: "int \<Rightarrow> int" where
  "xorshift33_int h = h XOR drop_bit 33 h"

definition avalanche_int :: "int \<Rightarrow> int" where
  "avalanche_int h =
     xorshift33_int (mult64 (xorshift33_int (mult64 (xorshift33_int h) 0xff51afd7ed558ccd))
       0xc4ceb9fe1a85ec53)"

lemma uint_mult64: "uint (a * b :: u64) = mult64 (uint a) (uint b)"
  by (simp add: mult64_def uint_word_ariths take_bit_eq_mod)

lemma uint_fnv_step: "uint (fnv_step h c) = fnv_step_int (uint h) c"
  by (simp add: fnv_step_def fnv_step_int_def uint_mult64 uint_xor uint_of_char_u64 fnv_prime_def)

lemma uint_drop33: "uint (drop_bit 33 h :: u64) = drop_bit 33 (uint h)"
  by (simp only: uint_nat unat_drop_bit_eq of_nat_drop_bit)

lemma uint_xorshift33: "uint (xorshift33 h) = xorshift33_int (uint h)"
  by (simp add: xorshift33_def xorshift33_int_def uint_xor uint_drop33)

lemma uint_avalanche: "uint (avalanche h) = avalanche_int (uint h)"
  by (simp add: avalanche_def avalanche_int_def uint_mult64 uint_xorshift33)

lemma uint_foldl_fnv_step: "uint (foldl fnv_step h s) = foldl fnv_step_int (uint h) s"
  by (induction s arbitrary: h) (simp_all add: uint_fnv_step)

lemma uint_hash_key:
  "uint (hash_key key) = avalanche_int (foldl fnv_step_int 14695981039346656037 key)"
  by (simp add: hash_key_def uint_avalanche fnv1a_def uint_foldl_fnv_step fnv_offset_basis_def)

text \<open>Rewriting with these rules evaluates \<^term>\<open>uint (hash_key key)\<close> on a literal key.\<close>

lemmas hash_key_eval =
  uint_hash_key avalanche_int_def xorshift33_int_def fnv_step_int_def mult64_def

lemma hash_key_eqI: "uint (hash_key key) = uint w \<Longrightarrow> hash_key key = w"
  by (rule word_uint_eqI)

lemma hash_key_sample: "hash_key ''0#1'' = 17903480081520034326"
  by (rule hash_key_eqI) (simp add: hash_key_eval)

end
