(* ===== verification/Ordered_Map.thy ===== *)
theory Ordered_Map
  imports Aegis_Prelude
begin

text \<open>
  \<^verbatim>\<open>std::map\<close> as the hash ring uses it: \<^verbatim>\<open>operator[]\<close> assignment, \<^verbatim>\<open>erase\<close> by key,
  \<^verbatim>\<open>lower_bound\<close>, and iteration in key order. The map is the list of its entries in
  strictly increasing key order; an iterator is a position in that list, and \<^verbatim>\<open>end()\<close> is the
  length. The locale \<open>ordered_map\<close> states what the ring relies on, and its lemmas about
  bulk insertion and erasure are proved there once.
\<close>

section \<open>Operations\<close>

type_synonym ('k, 'v) omap = "('k \<times> 'v) list"

abbreviation om_sorted :: "('k::linorder, 'v) omap \<Rightarrow> bool" where
  "om_sorted m \<equiv> sorted_wrt (<) (map fst m)"

fun om_assign :: "'k::linorder \<Rightarrow> 'v \<Rightarrow> ('k, 'v) omap \<Rightarrow> ('k, 'v) omap" where
  "om_assign k v [] = [(k, v)]"
| "om_assign k v (e # m) =
     (if k < fst e then (k, v) # e # m
      else if k = fst e then (k, v) # m
      else e # om_assign k v m)"

definition om_erase :: "'k::linorder \<Rightarrow> ('k, 'v) omap \<Rightarrow> ('k, 'v) omap" where
  "om_erase k m = filter (\<lambda>e. fst e \<noteq> k) m"

definition om_lower_bound :: "'k::linorder \<Rightarrow> ('k, 'v) omap \<Rightarrow> nat" where
  "om_lower_bound k m = length (takeWhile (\<lambda>e. fst e < k) m)"

section \<open>The interface\<close>

locale ordered_map =
  fixes empty :: 'm
    and assign :: "'k::linorder \<Rightarrow> 'v \<Rightarrow> 'm \<Rightarrow> 'm"
    and erase :: "'k \<Rightarrow> 'm \<Rightarrow> 'm"
    and entries :: "'m \<Rightarrow> ('k \<times> 'v) list"
    and wf :: "'m \<Rightarrow> bool"
  assumes entries_empty: "entries empty = []"
    and wf_empty: "wf empty"
    and wf_assign: "wf m \<Longrightarrow> wf (assign k v m)"
    and wf_erase: "wf m \<Longrightarrow> wf (erase k m)"
    and entries_sorted: "wf m \<Longrightarrow> om_sorted (entries m)"
    and lookup_assign: "wf m \<Longrightarrow> map_of (entries (assign k v m)) = (map_of (entries m))(k \<mapsto> v)"
    and lookup_erase: "wf m \<Longrightarrow> map_of (entries (erase k m)) = (map_of (entries m))(k := None)"
begin

lemma wf_assign_all: "wf m \<Longrightarrow> wf (fold (\<lambda>x. assign (f x) v) xs m)"
  by (induction xs arbitrary: m) (simp_all add: wf_assign)

lemma wf_erase_all: "wf m \<Longrightarrow> wf (fold (\<lambda>x. erase (f x)) xs m)"
  by (induction xs arbitrary: m) (simp_all add: wf_erase)

lemma lookup_assign_all:
  "wf m \<Longrightarrow> map_of (entries (fold (\<lambda>x. assign (f x) v) xs m)) k =
     (if k \<in> f ` set xs then Some v else map_of (entries m) k)"
  by (induction xs arbitrary: m) (auto simp: wf_assign lookup_assign)

lemma lookup_erase_all:
  "wf m \<Longrightarrow> map_of (entries (fold (\<lambda>x. erase (f x)) xs m)) k =
     (if k \<in> f ` set xs then None else map_of (entries m) k)"
  by (induction xs arbitrary: m) (auto simp: wf_erase lookup_erase)

lemma distinct_keys: "wf m \<Longrightarrow> distinct (map fst (entries m))"
  using entries_sorted strict_sorted_iff by blast

lemma entry_lookup: "wf m \<Longrightarrow> (k, v) \<in> set (entries m) \<longleftrightarrow> map_of (entries m) k = Some v"
  by (simp add: distinct_keys)

lemma size_is_card_dom: "wf m \<Longrightarrow> length (entries m) = card (dom (map_of (entries m)))"
  by (metis distinct_card distinct_keys dom_map_of_conv_image_fst length_map set_map)

lemma entries_ext:
  assumes "wf m" and "wf m'" and eq: "map_of (entries m) = map_of (entries m')"
  shows "entries m = entries m'"
proof -
  have "set (map fst (entries m)) = set (map fst (entries m'))"
    using eq by (metis dom_map_of_conv_image_fst set_map)
  then have keys: "map fst (entries m) = map fst (entries m')"
    using assms entries_sorted strict_sorted_equal by blast
  then have len: "length (entries m) = length (entries m')"
    by (metis length_map)
  show ?thesis
  proof (rule nth_equalityI [OF len])
    fix i
    assume i: "i < length (entries m)"
    have k: "fst (entries m ! i) = fst (entries m' ! i)"
      using keys i len by (metis nth_map)
    have "map_of (entries m) (fst (entries m ! i)) = Some (snd (entries m ! i))"
      using i assms(1) by (simp add: distinct_keys)
    moreover have "map_of (entries m') (fst (entries m' ! i)) = Some (snd (entries m' ! i))"
      using i len assms(2) by (simp add: distinct_keys)
    ultimately show "entries m ! i = entries m' ! i"
      using k eq by (simp add: prod_eq_iff)
  qed
qed

end

section \<open>The sorted list is such a map\<close>

lemma set_om_assign_keys: "fst ` set (om_assign k v m) = insert k (fst ` set m)"
  by (induction m) auto

lemma om_sorted_assign: "om_sorted m \<Longrightarrow> om_sorted (om_assign k v m)"
proof (induction m)
  case (Cons e m)
  have "x \<in> fst ` set (om_assign k v m) \<Longrightarrow> x = k \<or> x \<in> fst ` set m" for x
    by (simp add: set_om_assign_keys)
  with Cons show ?case by (force simp: set_om_assign_keys)
qed simp

lemma om_sorted_filter: "om_sorted m \<Longrightarrow> om_sorted (filter P m)"
  by (induction m) auto

lemma map_of_om_assign: "om_sorted m \<Longrightarrow> map_of (om_assign k v m) = (map_of m)(k \<mapsto> v)"
proof (induction m)
  case (Cons e m)
  then show ?case by (cases e) (auto simp: fun_eq_iff)
qed simp

lemma map_of_om_erase: "map_of (om_erase k m) = (map_of m)(k := None)"
  by (induction m) (auto simp: om_erase_def fun_eq_iff)

interpretation om: ordered_map "[]" om_assign om_erase "\<lambda>m. m" om_sorted
  by unfold_locales
    (auto simp: om_sorted_assign om_erase_def om_sorted_filter map_of_om_assign
      map_of_om_erase [unfolded om_erase_def])

section \<open>Iteration from a lower bound\<close>

lemma om_lower_bound_le: "om_lower_bound k m \<le> length m"
  by (simp add: om_lower_bound_def length_takeWhile_le)

lemma om_before_lower_bound: "e \<in> set (take (om_lower_bound k m) m) \<Longrightarrow> fst e < k"
  by (metis (no_types, lifting) om_lower_bound_def set_takeWhileD takeWhile_eq_take)

lemma om_from_lower_bound:
  assumes "om_sorted m" and "e \<in> set (drop (om_lower_bound k m) m)"
  shows "k \<le> fst e"
proof -
  have "e \<in> set (dropWhile (\<lambda>e. fst e < k) m)"
    using assms(2) by (simp add: om_lower_bound_def dropWhile_eq_drop)
  with assms(1) show ?thesis
    by (induction m) (auto split: if_splits)
qed

end
