(* ===== verification/Hash_Ring.thy ===== *)
theory Hash_Ring
  imports Fnv_Hash Ordered_Map "HOL-Library.Multiset"
begin

text \<open>
  The consistent-hash ring of \<^verbatim>\<open>src/hash_ring.{hpp,cpp}\<close>: the virtual nodes of every
  registered backend are entries of an ordered map from 64-bit hashes to backend indices; a
  key belongs to the first virtual node at or after its own hash, wrapping around at the end.

  The reference definition \<open>clockwise h m\<close> lists the entries by their wrap-around distance
  from \<open>h\<close>; the two lookups of the code are its first entry and its first entry that is not
  excluded. The main results: the shape invariant of the ring, that a ring without collisions
  is determined by the set of its backends, and the bounded effect of adding or removing a
  backend on the assignment of keys.
\<close>

section \<open>State and operations\<close>

record hash_ring =
  num_vnodes_per_backend :: nat
  ring :: "(u64, nat) omap"
  active_backends :: "nat set"

definition new_ring :: "nat \<Rightarrow> hash_ring" where
  "new_ring n = \<lparr>num_vnodes_per_backend = n, ring = [], active_backends = {}\<rparr>"

definition vnode_key :: "nat \<Rightarrow> nat \<Rightarrow> string" where
  "vnode_key backend_index vnode_index = to_string backend_index @ ''#'' @ to_string vnode_index"

definition add_backend :: "nat \<Rightarrow> hash_ring \<Rightarrow> hash_ring" where
  "add_backend b r =
     (if b \<in> active_backends r then r
      else r\<lparr>ring := fold (\<lambda>v. om_assign (hash_key (vnode_key b v)) b)
                       [0..<num_vnodes_per_backend r] (ring r),
             active_backends := insert b (active_backends r)\<rparr>)"

definition remove_backend :: "nat \<Rightarrow> hash_ring \<Rightarrow> hash_ring" where
  "remove_backend b r =
     (if b \<notin> active_backends r then r
      else r\<lparr>ring := fold (\<lambda>v. om_erase (hash_key (vnode_key b v)))
                       [0..<num_vnodes_per_backend r] (ring r),
             active_backends := active_backends r - {b}\<rparr>)"

text \<open>\<^verbatim>\<open>lower_bound(h)\<close>, wrapped to \<^verbatim>\<open>begin()\<close> when it is \<^verbatim>\<open>end()\<close>.\<close>

definition ring_start :: "u64 \<Rightarrow> (u64, nat) omap \<Rightarrow> nat" where
  "ring_start h m = (let it = om_lower_bound h m in if it = length m then 0 else it)"

definition get_backend :: "hash_ring \<Rightarrow> string \<Rightarrow> nat option" where
  "get_backend r key =
     (if ring r = [] then None
      else Some (snd (ring r ! ring_start (hash_key key) (ring r))))"

text \<open>The do-while loop of \<^verbatim>\<open>get_backend_excluding\<close>, with \<open>it\<close> and \<open>start\<close> as positions.\<close>

function ring_walk :: "(u64, nat) omap \<Rightarrow> nat set \<Rightarrow> nat \<Rightarrow> nat \<Rightarrow> nat option" where
  "ring_walk m excluded start it =
     (if it < length m \<and> start < length m then
        if snd (m ! it) \<notin> excluded then Some (snd (m ! it))
        else let it' = (if Suc it = length m then 0 else Suc it)
             in if it' = start then None else ring_walk m excluded start it'
      else None)"
  by pat_completeness auto
termination
  by (relation "measure (\<lambda>(m, excluded, start, it).
       if start \<le> it then length m - it + start else start - it)") (auto split: if_splits)

declare ring_walk.simps [simp del]

definition get_backend_excluding :: "hash_ring \<Rightarrow> string \<Rightarrow> nat set \<Rightarrow> nat option" where
  "get_backend_excluding r key excluded =
     (if ring r = [] then None
      else let start = ring_start (hash_key key) (ring r)
           in ring_walk (ring r) excluded start start)"

definition backend_count :: "hash_ring \<Rightarrow> nat" where
  "backend_count r = card (active_backends r)"

definition vnode_count :: "hash_ring \<Rightarrow> nat" where
  "vnode_count r = length (ring r)"

section \<open>Specification\<close>

abbreviation vnode_hash :: "nat \<Rightarrow> nat \<Rightarrow> u64" where
  "vnode_hash b v \<equiv> hash_key (vnode_key b v)"

text \<open>The entries in the order a clockwise walk from position \<open>h\<close> meets them.\<close>

definition clockwise :: "u64 \<Rightarrow> (u64, nat) omap \<Rightarrow> (u64, nat) omap" where
  "clockwise h m = sort_key (\<lambda>e. fst e - h) m"

text \<open>The shape of every ring the operations build.\<close>

definition ring_inv :: "hash_ring \<Rightarrow> bool" where
  "ring_inv r \<longleftrightarrow>
     om_sorted (ring r) \<and> finite (active_backends r) \<and>
     (\<forall>(k, b) \<in> set (ring r). b \<in> active_backends r \<and>
        (\<exists>v < num_vnodes_per_backend r. k = vnode_hash b v))"

text \<open>Virtual nodes of different backends of \<open>B\<close> have different positions.\<close>

definition collision_free :: "nat \<Rightarrow> nat set \<Rightarrow> bool" where
  "collision_free n B \<longleftrightarrow>
     (\<forall>b \<in> B. \<forall>b' \<in> B. \<forall>v < n. \<forall>v' < n. vnode_hash b v = vnode_hash b' v' \<longrightarrow> b = b')"

text \<open>Every virtual node of every registered backend is on the ring and belongs to it.\<close>

definition ring_full :: "hash_ring \<Rightarrow> bool" where
  "ring_full r \<longleftrightarrow>
     (\<forall>b \<in> active_backends r. \<forall>v < num_vnodes_per_backend r. map_of (ring r) (vnode_hash b v) = Some b)"

datatype ring_op = Add nat | Remove nat

fun ring_apply :: "ring_op \<Rightarrow> hash_ring \<Rightarrow> hash_ring" where
  "ring_apply (Add b) r = add_backend b r"
| "ring_apply (Remove b) r = remove_backend b r"

fun op_backend :: "ring_op \<Rightarrow> nat" where
  "op_backend (Add b) = b"
| "op_backend (Remove b) = b"

section \<open>Clockwise order\<close>

lemma unat_u64_less: "unat (w :: u64) < 2 ^ 64"
  using unsigned_less [of w, where ?'a = nat] by simp

lemma cw_dist_ge: "h \<le> k \<Longrightarrow> unat (k - h) = unat k - unat (h :: u64)"
  by (simp add: unat_sub)

lemma cw_dist_lt: "k < h \<Longrightarrow> unat (k - h) = unat k + 2 ^ 64 - unat (h :: u64)"
  by (simp add: unat_sub_if' word_less_nat_alt)

lemma cw_mono_ge: "h \<le> j \<Longrightarrow> j < k \<Longrightarrow> j - h < k - (h :: u64)"
  by (auto simp: word_less_nat_alt cw_dist_ge word_le_nat_alt)

lemma cw_mono_lt: "k < h \<Longrightarrow> j < k \<Longrightarrow> j - h < k - (h :: u64)"
  using unat_u64_less [of h] by (auto simp: word_less_nat_alt cw_dist_lt)

lemma cw_wrap: "h \<le> j \<Longrightarrow> k < h \<Longrightarrow> j - h < k - (h :: u64)"
  using unat_u64_less [of j] unat_u64_less [of h]
  by (auto simp: word_less_nat_alt cw_dist_ge cw_dist_lt word_le_nat_alt)

lemma ring_start_less: "m \<noteq> [] \<Longrightarrow> ring_start h m < length m"
  using om_lower_bound_le [of h m] by (auto simp: ring_start_def Let_def)

lemma ring_start_rotate:
  assumes "om_sorted m"
  shows "rotate (ring_start h m) m = drop (om_lower_bound h m) m @ take (om_lower_bound h m) m"
proof (cases "om_lower_bound h m = length m")
  case False
  then have "om_lower_bound h m < length m"
    using om_lower_bound_le [of h m] by simp
  with False show ?thesis by (simp add: ring_start_def Let_def rotate_drop_take)
qed (simp add: ring_start_def Let_def)

lemma sorted_wrt_cw_drop:
  assumes "om_sorted m" and "\<forall>e \<in> set m. h \<le> fst e"
  shows "sorted_wrt (\<lambda>a b. fst a - h < fst b - (h :: u64)) m"
  using assms by (induction m) (auto intro: cw_mono_ge)

lemma sorted_wrt_cw_take:
  assumes "om_sorted m" and "\<forall>e \<in> set m. fst e < h"
  shows "sorted_wrt (\<lambda>a b. fst a - h < fst b - (h :: u64)) m"
  using assms by (induction m) (auto intro: cw_mono_lt)

lemma om_sorted_take_drop:
  assumes "om_sorted m"
  shows "om_sorted (take n m)" and "om_sorted (drop n m)"
  using assms by (metis sorted_wrt_take take_map, metis sorted_wrt_drop drop_map)

lemma rotate_sorted_cw:
  assumes "om_sorted m"
  shows "sorted_wrt (\<lambda>a b. fst a - h < fst b - h) (rotate (ring_start h m) m)"
proof -
  have "sorted_wrt (\<lambda>a b. fst a - h < fst b - h) (drop (om_lower_bound h m) m)"
    using om_from_lower_bound [OF assms] om_sorted_take_drop [OF assms]
    by (intro sorted_wrt_cw_drop) auto
  moreover have "sorted_wrt (\<lambda>a b. fst a - h < fst b - h) (take (om_lower_bound h m) m)"
    using om_before_lower_bound om_sorted_take_drop [OF assms]
    by (intro sorted_wrt_cw_take) auto
  ultimately show ?thesis
    unfolding ring_start_rotate [OF assms] sorted_wrt_append
    using cw_wrap om_from_lower_bound [OF assms] om_before_lower_bound by blast
qed

text \<open>The code's walk order is the clockwise order of the specification.\<close>

lemma rotate_is_clockwise:
  assumes "om_sorted m"
  shows "rotate (ring_start h m) m = clockwise h m"
proof -
  let ?r = "rotate (ring_start h m) m"
  have "sorted_wrt (<) (map (\<lambda>e. fst e - h) ?r)"
    using rotate_sorted_cw [OF assms] by (simp add: sorted_wrt_map)
  then have sorted: "sorted (map (\<lambda>e. fst e - h) ?r)" and inj: "distinct (map (\<lambda>e. fst e - h) ?r)"
    by (simp_all add: strict_sorted_iff)
  have mset: "mset m = mset ?r"
    unfolding rotate_drop_take by (metis append_take_drop_id mset_append union_commute)
  have "inj_on (\<lambda>e. fst e - h) (set m)"
    using inj by (simp add: distinct_map)
  from sort_key_inj_key_eq [OF mset this sorted] show ?thesis
    by (simp add: clockwise_def)
qed

section \<open>The lookups implement the specification\<close>

lemma clockwise_eq_Nil [simp]: "clockwise h m = [] \<longleftrightarrow> m = []"
  by (metis clockwise_def length_0_conv length_sort)

lemma set_clockwise [simp]: "set (clockwise h m) = set m"
  by (simp add: clockwise_def)

lemma clockwise_filter: "clockwise h (filter P m) = filter P (clockwise h m)"
  by (simp add: clockwise_def filter_sort)

lemma get_backend_hd:
  assumes "om_sorted (ring r)" and "ring r \<noteq> []"
  shows "get_backend r key = Some (snd (hd (clockwise (hash_key key) (ring r))))"
  using assms
  by (simp add: get_backend_def rotate_is_clockwise [symmetric] hd_rotate_conv_nth
      ring_start_less)

text \<open>From position \<open>it\<close> the walk still has the positions up to the one before \<open>start\<close> to visit.\<close>

definition walk_rest :: "(u64, nat) omap \<Rightarrow> nat \<Rightarrow> nat \<Rightarrow> (u64, nat) omap" where
  "walk_rest m start it =
     (if start \<le> it then drop it m @ take start m else drop it (take start m))"

lemma walk_rest_step:
  assumes "it < length m" and "start < length m"
  defines "it' \<equiv> (if Suc it = length m then 0 else Suc it)"
  shows "walk_rest m start it = m ! it # (if it' = start then [] else walk_rest m start it')"
proof (cases "start \<le> it")
  case True
  have "drop it m = m ! it # drop (Suc it) m"
    using assms(1) by (simp add: Cons_nth_drop_Suc)
  with True show ?thesis
    using assms(1,2) unfolding it'_def walk_rest_def by auto
next
  case False
  then have "it < length (take start m)" using assms(1,2) by simp
  from Cons_nth_drop_Suc [OF this] show ?thesis
    using False assms(1,2) unfolding it'_def walk_rest_def by auto
qed

lemma ring_walk_find:
  assumes "it < length m" and "start < length m"
  shows "ring_walk m excluded start it =
           map_option snd (find (\<lambda>e. snd e \<notin> excluded) (walk_rest m start it))"
  using assms
proof (induction m excluded start it rule: ring_walk.induct)
  case (1 m excluded start it)
  define it' where "it' = (if Suc it = length m then 0 else Suc it)"
  have it': "it' < length m" using 1 by (auto simp: it'_def)
  show ?case
  proof (cases "snd (m ! it) \<in> excluded \<and> it' \<noteq> start")
    case True
    then show ?thesis
      using 1 it' by (subst ring_walk.simps)
        (simp add: walk_rest_step [of it m start] Let_def flip: it'_def)
  next
    case False
    then show ?thesis
      using 1(2,3) by (subst ring_walk.simps)
        (auto simp: walk_rest_step [of it m start] Let_def simp flip: it'_def)
  qed
qed

lemma get_backend_excluding_find:
  assumes "om_sorted (ring r)"
  shows "get_backend_excluding r key excluded =
           map_option snd (find (\<lambda>e. snd e \<notin> excluded) (clockwise (hash_key key) (ring r)))"
proof (cases "ring r = []")
  case False
  let ?start = "ring_start (hash_key key) (ring r)"
  have s: "?start < length (ring r)" using False by (rule ring_start_less)
  have "walk_rest (ring r) ?start ?start = clockwise (hash_key key) (ring r)"
    using s by (simp add: walk_rest_def rotate_is_clockwise [OF assms, symmetric] rotate_drop_take)
  with False s show ?thesis
    by (simp add: get_backend_excluding_def ring_walk_find)
qed (simp add: get_backend_excluding_def clockwise_def)

section \<open>Lookups as nearest positions\<close>

lemma om_sorted_key_eq:
  assumes "om_sorted m" and "e \<in> set m" and "e' \<in> set m" and "fst e = fst e'"
  shows "e = e'"
  using assms om.distinct_keys [of m] by (metis distinct_map inj_onD)

lemma find_split:
  "find P xs = Some x \<Longrightarrow> \<exists>us vs. xs = us @ x # vs \<and> P x \<and> (\<forall>u \<in> set us. \<not> P u)"
proof (induction xs)
  case (Cons y xs)
  show ?case
  proof (cases "P y")
    case True
    with Cons.prems have "y # xs = [] @ x # xs \<and> P x" by simp
    then show ?thesis by (metis empty_iff set_empty)
  next
    case False
    with Cons obtain us vs where "xs = us @ x # vs \<and> P x \<and> (\<forall>u \<in> set us. \<not> P u)" by auto
    with False have "y # xs = (y # us) @ x # vs \<and> P x \<and> (\<forall>u \<in> set (y # us). \<not> P u)" by simp
    then show ?thesis by blast
  qed
qed simp

lemma find_sorted_wrt:
  assumes "sorted_wrt R xs" and "find P xs = Some x"
  shows "\<exists>us vs. xs = us @ x # vs \<and> P x \<and> (\<forall>u \<in> set us. \<not> P u) \<and> (\<forall>v \<in> set vs. R x v)"
proof -
  obtain us vs where "xs = us @ x # vs" and "P x" and "\<forall>u \<in> set us. \<not> P u"
    using find_split [OF assms(2)] by blast
  moreover from this have "\<forall>v \<in> set vs. R x v"
    using assms(1) by (simp add: sorted_wrt_append)
  ultimately show ?thesis by blast
qed

lemma clockwise_find_iff:
  assumes "om_sorted m"
  shows "find P (clockwise h m) = Some e \<longleftrightarrow>
    e \<in> set m \<and> P e \<and> (\<forall>e' \<in> set m. P e' \<longrightarrow> fst e - h \<le> fst e' - h)"
proof
  have sorted: "sorted_wrt (\<lambda>a b. fst a - h < fst b - h) (clockwise h m)"
    using rotate_sorted_cw [OF assms] rotate_is_clockwise [OF assms] by metis
  assume "find P (clockwise h m) = Some e"
  then obtain us vs where split: "clockwise h m = us @ e # vs" and "P e"
    and before: "\<forall>u \<in> set us. \<not> P u" and after: "\<forall>v \<in> set vs. fst e - h < fst v - h"
    using find_sorted_wrt [OF sorted] by metis
  have "e' \<in> set us \<or> e' = e \<or> e' \<in> set vs" if "e' \<in> set m" for e'
    using that split set_clockwise [of h m] by auto
  then show "e \<in> set m \<and> P e \<and> (\<forall>e' \<in> set m. P e' \<longrightarrow> fst e - h \<le> fst e' - h)"
    using before after \<open>P e\<close> split set_clockwise [of h m]
    by (metis in_set_conv_decomp order.refl order.strict_implies_order)
next
  assume e: "e \<in> set m \<and> P e \<and> (\<forall>e' \<in> set m. P e' \<longrightarrow> fst e - h \<le> fst e' - h)"
  then obtain e' where found: "find P (clockwise h m) = Some e'"
    by (metis find_None_iff not_Some_eq set_clockwise)
  have sorted: "sorted_wrt (\<lambda>a b. fst a - h < fst b - h) (clockwise h m)"
    using rotate_sorted_cw [OF assms] rotate_is_clockwise [OF assms] by metis
  obtain us vs where split: "clockwise h m = us @ e' # vs" and "P e'"
    and before: "\<forall>u \<in> set us. \<not> P u" and after: "\<forall>v \<in> set vs. fst e' - h < fst v - h"
    using find_sorted_wrt [OF sorted found] by metis
  have "e' \<in> set m" and "e \<in> set us \<or> e = e' \<or> e \<in> set vs"
    using e split set_clockwise [of h m] by (metis in_set_conv_decomp, auto)
  with e before after \<open>P e'\<close> have "e = e'"
    by (metis leD)
  with found show "find P (clockwise h m) = Some e" by simp
qed

lemma get_backend_excluding_iff:
  assumes "om_sorted (ring r)"
  shows "get_backend_excluding r key X = Some b \<longleftrightarrow>
    (\<exists>k. (k, b) \<in> set (ring r) \<and> b \<notin> X \<and>
       (\<forall>(k', b') \<in> set (ring r). b' \<notin> X \<longrightarrow> k - hash_key key \<le> k' - hash_key key))"
  unfolding get_backend_excluding_find [OF assms] map_option_eq_Some clockwise_find_iff [OF assms]
  by (simp add: split_def)

lemma get_backend_excluding_None:
  assumes "om_sorted (ring r)"
  shows "get_backend_excluding r key X = None \<longleftrightarrow> snd ` set (ring r) \<subseteq> X"
  unfolding get_backend_excluding_find [OF assms]
  by (auto simp: find_None_iff)

lemma get_backend_is_excluding_none:
  assumes "om_sorted (ring r)"
  shows "get_backend r key = get_backend_excluding r key {}"
proof (cases "ring r = []")
  case False
  then obtain e es where "clockwise (hash_key key) (ring r) = e # es"
    by (meson clockwise_eq_Nil neq_Nil_conv)
  with False assms show ?thesis
    by (simp add: get_backend_hd get_backend_excluding_find)
qed (simp add: get_backend_def get_backend_excluding_def)

lemma get_backend_iff:
  assumes "om_sorted (ring r)"
  shows "get_backend r key = Some b \<longleftrightarrow>
    (\<exists>k. (k, b) \<in> set (ring r) \<and>
       (\<forall>(k', b') \<in> set (ring r). k - hash_key key \<le> k' - hash_key key))"
  unfolding get_backend_is_excluding_none [OF assms] get_backend_excluding_iff [OF assms] by simp

lemma get_backend_excluding_filter:
  assumes "om_sorted (ring r)"
  shows "get_backend_excluding r key (X \<union> Y) =
    get_backend_excluding (r\<lparr>ring := filter (\<lambda>e. snd e \<notin> X) (ring r)\<rparr>) key Y"
proof -
  have "find (\<lambda>e. snd e \<notin> X \<union> Y) xs = find (\<lambda>e. snd e \<notin> Y) (filter (\<lambda>e. snd e \<notin> X) xs)"
    for xs :: "(u64, nat) omap"
    by (induction xs) auto
  then show ?thesis
    using assms by (simp add: get_backend_excluding_find om_sorted_filter clockwise_filter)
qed

section \<open>Invariants of the operations\<close>

lemmas ring_simps = new_ring_def add_backend_def remove_backend_def

lemma ring_op_frame [simp]:
  "num_vnodes_per_backend (add_backend b r) = num_vnodes_per_backend r"
  "num_vnodes_per_backend (remove_backend b r) = num_vnodes_per_backend r"
  "active_backends (add_backend b r) = insert b (active_backends r)"
  "active_backends (remove_backend b r) = active_backends r - {b}"
  by (auto simp: ring_simps)

lemma new_ring_sel [simp]:
  "num_vnodes_per_backend (new_ring n) = n"
  "ring (new_ring n) = []"
  "active_backends (new_ring n) = {}"
  by (simp_all add: new_ring_def)

lemma fold_add_backend_frame:
  "num_vnodes_per_backend (fold add_backend bs r) = num_vnodes_per_backend r"
  "active_backends (fold add_backend bs r) = active_backends r \<union> set bs"
  by (induction bs arbitrary: r) simp_all

lemma lookup_add_backend:
  assumes "om_sorted (ring r)"
  shows "map_of (ring (add_backend b r)) k =
    (if b \<notin> active_backends r \<and> k \<in> vnode_hash b ` {..<num_vnodes_per_backend r}
     then Some b else map_of (ring r) k)"
  using om.lookup_assign_all [OF assms, of "vnode_hash b" b "[0..<num_vnodes_per_backend r]" k]
  by (simp add: add_backend_def atLeast0LessThan)

lemma lookup_remove_backend:
  assumes "om_sorted (ring r)"
  shows "map_of (ring (remove_backend b r)) k =
    (if b \<in> active_backends r \<and> k \<in> vnode_hash b ` {..<num_vnodes_per_backend r}
     then None else map_of (ring r) k)"
  using om.lookup_erase_all [OF assms, of "vnode_hash b" "[0..<num_vnodes_per_backend r]" k]
  by (simp add: remove_backend_def atLeast0LessThan)

lemma om_sorted_ops:
  assumes "om_sorted (ring r)"
  shows "om_sorted (ring (add_backend b r))" and "om_sorted (ring (remove_backend b r))"
  using assms om.wf_assign_all [OF assms, of "vnode_hash b" b "[0..<num_vnodes_per_backend r]"]
    om.wf_erase_all [OF assms, of "vnode_hash b" "[0..<num_vnodes_per_backend r]"]
  by (simp_all add: ring_simps)

lemma ring_inv_lookup:
  "ring_inv r \<longleftrightarrow> om_sorted (ring r) \<and> finite (active_backends r) \<and>
     (\<forall>k b. map_of (ring r) k = Some b \<longrightarrow> b \<in> active_backends r \<and>
        k \<in> vnode_hash b ` {..<num_vnodes_per_backend r})"
  unfolding ring_inv_def by (cases "om_sorted (ring r)") (auto simp flip: om.entry_lookup)

lemma ring_inv_new [simp]: "ring_inv (new_ring n)"
  by (simp add: ring_inv_def new_ring_def)

lemma ring_inv_sorted: "ring_inv r \<Longrightarrow> om_sorted (ring r)"
  by (simp add: ring_inv_def)

lemma ring_full_new [simp]: "ring_full (new_ring n)"
  by (simp add: ring_full_def new_ring_def)

text \<open>
  Without collisions a removed backend leaves exactly the entries of the others, because the
  positions it erases are its own.
\<close>

lemma ring_full_collision_free:
  assumes "ring_full r"
  shows "collision_free (num_vnodes_per_backend r) (active_backends r)"
  unfolding collision_free_def using assms by (metis option.inject ring_full_def)

text \<open>A full ring is determined by its backends.\<close>

lemma ring_full_lookup:
  assumes "ring_inv r" and "ring_full r"
  shows "map_of (ring r) k = Some b \<longleftrightarrow>
    b \<in> active_backends r \<and> k \<in> vnode_hash b ` {..<num_vnodes_per_backend r}"
  using assms unfolding ring_inv_lookup ring_full_def by auto

lemma ring_full_unique:
  assumes "ring_inv r" "ring_full r" "ring_inv r'" "ring_full r'"
    and "num_vnodes_per_backend r = num_vnodes_per_backend r'"
    and "active_backends r = active_backends r'"
  shows "ring r = ring r'"
proof (rule om.entries_ext)
  have "map_of (ring r) k = Some b \<longleftrightarrow> map_of (ring r') k = Some b" for k b
    using assms by (simp add: ring_full_lookup)
  then show "map_of (ring r) = map_of (ring r')"
    by (rule map_eqI)
qed (use assms ring_inv_sorted in auto)

lemma ring_inv_add: "ring_inv r \<Longrightarrow> ring_inv (add_backend b r)"
  by (fastforce simp: ring_inv_lookup lookup_add_backend om_sorted_ops split: if_splits)

lemma ring_full_add:
  assumes "ring_inv r" and "ring_full r"
    and "collision_free (num_vnodes_per_backend r) (insert b (active_backends r))"
  shows "ring_full (add_backend b r)"
  using assms unfolding ring_full_def collision_free_def
  by (auto simp: lookup_add_backend ring_inv_sorted)

lemma ring_inv_remove:
  assumes "ring_inv r" and "ring_full r"
  shows "ring_inv (remove_backend b r)"
  using assms
  by (fastforce simp: ring_inv_lookup lookup_remove_backend om_sorted_ops ring_full_def
      split: if_splits)

lemma ring_full_remove:
  assumes "ring_inv r" and "ring_full r"
  shows "ring_full (remove_backend b r)"
  using assms ring_full_collision_free [OF assms(2)] unfolding ring_full_def collision_free_def
  by (auto simp: lookup_remove_backend ring_inv_sorted)

lemma remove_backend_filter:
  assumes "ring_inv r" and "ring_full r"
  shows "ring (remove_backend b r) = filter (\<lambda>e. snd e \<notin> {b}) (ring r)"
proof (rule om.entries_ext)
  have s: "om_sorted (ring r)" using assms(1) by (rule ring_inv_sorted)
  then show "om_sorted (ring (remove_backend b r))" by (rule om_sorted_ops)
  show s': "om_sorted (filter (\<lambda>e. snd e \<notin> {b}) (ring r))" using s by (rule om_sorted_filter)
  have "map_of (ring (remove_backend b r)) k = Some c \<longleftrightarrow>
        map_of (filter (\<lambda>e. snd e \<notin> {b}) (ring r)) k = Some c" for k c
  proof -
    have "map_of (filter (\<lambda>e. snd e \<notin> {b}) (ring r)) k = Some c \<longleftrightarrow>
          map_of (ring r) k = Some c \<and> c \<noteq> b"
      unfolding om.entry_lookup [OF s', symmetric] om.entry_lookup [OF s, symmetric] by simp
    moreover have "map_of (ring (remove_backend b r)) k =
          (if map_of (ring r) k = Some b then None else map_of (ring r) k)"
      by (simp only: lookup_remove_backend [OF s] ring_full_lookup [OF assms])
    ultimately show ?thesis by (cases "c = b") simp_all
  qed
  then show "map_of (ring (remove_backend b r)) = map_of (filter (\<lambda>e. snd e \<notin> {b}) (ring r))"
    by (rule map_eqI)
qed

text \<open>Looking a key up without a backend, which is what removing it amounts to.\<close>

lemma remove_is_excluding:
  assumes "ring_inv r" and "ring_full r"
  shows "get_backend (remove_backend b r) key = get_backend_excluding r key {b}"
proof -
  have s: "om_sorted (ring r)" and s': "om_sorted (ring (remove_backend b r))"
    using assms ring_inv_remove ring_inv_sorted by blast+
  have "get_backend (remove_backend b r) key =
      get_backend_excluding (r\<lparr>ring := filter (\<lambda>e. snd e \<notin> {b}) (ring r)\<rparr>) key {}"
    using remove_backend_filter [OF assms, of b]
    by (simp add: get_backend_is_excluding_none [OF s'])
      (simp add: get_backend_excluding_def)
  then show ?thesis using get_backend_excluding_filter [OF s, of key "{b}" "{}"] by simp
qed

lemma excluding_other_owner:
  assumes "om_sorted (ring r)" and "get_backend r key \<noteq> Some b"
  shows "get_backend_excluding r key {b} = get_backend r key"
proof (cases "get_backend r key")
  case None
  then show ?thesis by (auto simp: get_backend_def get_backend_excluding_def split: if_splits)
next
  case (Some c)
  then have "get_backend_excluding r key {b} = Some c"
    using assms(2) unfolding get_backend_iff [OF assms(1)] get_backend_excluding_iff [OF assms(1)] by fastforce
  then show ?thesis using Some by simp
qed

text \<open>The ring after a sequence of registrations and removals.\<close>

lemma ring_ops_inv:
  assumes "ring_inv r" and "ring_full r"
    and "collision_free (num_vnodes_per_backend r) B"
    and "active_backends r \<subseteq> B" and "op_backend ` set ops \<subseteq> B"
  shows "ring_inv (fold ring_apply ops r) \<and> ring_full (fold ring_apply ops r) \<and>
    num_vnodes_per_backend (fold ring_apply ops r) = num_vnodes_per_backend r"
  using assms
proof (induction ops arbitrary: r)
  case (Cons p ops)
  have mono: "collision_free n A" if "collision_free n B" "A \<subseteq> B" for n A
    using that by (auto simp: collision_free_def)
  show ?case
  proof (cases p)
    case (Add b)
    then have "insert b (active_backends r) \<subseteq> B" using Cons.prems by auto
    then show ?thesis
      using Cons.prems Add mono Cons.IH [of "add_backend b r"]
      by (simp add: ring_inv_add ring_full_add)
  next
    case (Remove b)
    then show ?thesis
      using Cons.prems Cons.IH [of "remove_backend b r"]
      by (auto simp: ring_inv_remove ring_full_remove)
  qed
qed simp

section \<open>A sample ring\<close>

text \<open>Two backends with two virtual nodes each, evaluated completely; the client address
  \<^verbatim>\<open>10.0.0.19\<close> hashes beyond the last virtual node, so its lookup wraps around.\<close>

definition sample_ring :: hash_ring where
  "sample_ring = add_backend 1 (add_backend 0 (new_ring 2))"

lemma sample_hashes:
  "hash_key ''0#0'' = 8288470533525201889"
  "hash_key ''0#1'' = 17903480081520034326"
  "hash_key ''1#0'' = 10935833530774304412"
  "hash_key ''1#1'' = 14580233403305081965"
  "hash_key ''10.0.0.19'' = 18108106018303629569"
  by (rule hash_key_eqI, simp add: hash_key_eval)+

lemmas sample_eval = vnode_key_def digit_char_eval sample_hashes upt_rec

lemma sample_ring_eval:
  "ring sample_ring = [(8288470533525201889, 0), (10935833530774304412, 1),
     (14580233403305081965, 1), (17903480081520034326, 0)]"
  "active_backends sample_ring = {0, 1}"
  by (auto simp: sample_ring_def add_backend_def new_ring_def sample_eval)

lemma sample_ring_inv: "ring_inv sample_ring"
  by (simp add: sample_ring_def ring_inv_add)

lemma sample_ring_full: "ring_full sample_ring"
proof -
  have "map_of (ring sample_ring) (vnode_hash b v) = Some b" if "b \<in> {0, 1}" and "v < 2" for b v
    using that less_2_cases [of v] unfolding sample_ring_eval by (auto simp: sample_eval)
  then show ?thesis
    by (simp add: ring_full_def sample_ring_eval sample_ring_def [THEN arg_cong, of num_vnodes_per_backend])
qed

section \<open>Properties\<close>

text \<open>C20: \<^verbatim>\<open>get_backend_excluding\<close> returns the backend of the nearest clockwise virtual node whose
  backend is not excluded, with distances taken modulo \<open>2 ^ 64\<close> (so the wrap at the end of the
  map is the wrap of the hash space), and gives up exactly when every backend with a virtual
  node on the ring is excluded: the wrap-around walk visits all of them and ends.\<close>

theorem get_backend_excluding_nearest:
  assumes "ring_inv r"
  shows "(get_backend_excluding r key X = Some b \<longleftrightarrow>
    (\<exists>k. (k, b) \<in> set (ring r) \<and> b \<notin> X \<and>
       (\<forall>(k', b') \<in> set (ring r). b' \<notin> X \<longrightarrow> k - hash_key key \<le> k' - hash_key key))) \<and>
    (get_backend_excluding r key X = None \<longleftrightarrow> snd ` set (ring r) \<subseteq> X)"
  using assms get_backend_excluding_iff get_backend_excluding_None ring_inv_sorted by metis

theorem get_backend_excluding_nearest_witness:
  "ring_inv sample_ring \<and>
   get_backend_excluding sample_ring ''10.0.0.19'' {} = Some 0 \<and>
   get_backend_excluding sample_ring ''10.0.0.19'' {0} = Some 1 \<and>
   get_backend_excluding sample_ring ''10.0.0.19'' {0, 1} = None"
  using get_backend_excluding_nearest [OF sample_ring_inv, of "''10.0.0.19''" "{}" 0]
    get_backend_excluding_nearest [OF sample_ring_inv, of "''10.0.0.19''" "{0}" 1]
    get_backend_excluding_nearest [OF sample_ring_inv, of "''10.0.0.19''" "{0, 1}" 0]
  unfolding sample_ring_eval sample_hashes
  by (simp add: sample_ring_inv conj_disj_distribR ex_disj_distrib)

text \<open>C22: Registering a backend moves keys only to the new backend: every other key keeps the
  backend it had.\<close>

theorem add_backend_moves_only_to_new:
  assumes "ring_inv r"
  shows "get_backend (add_backend b r) key \<in> {get_backend r key, Some b}"
proof (cases "get_backend (add_backend b r) key")
  case None
  have "ring r = []"
  proof (rule ccontr)
    assume "ring r \<noteq> []"
    then obtain k c where "map_of (ring r) k = Some c"
      by (metis list.set_intros(1) neq_Nil_conv om.entry_lookup [OF ring_inv_sorted [OF assms]]
          surj_pair)
    then have "map_of (ring (add_backend b r)) k \<noteq> None"
      using assms by (simp add: lookup_add_backend ring_inv_sorted)
    then show False using None by (auto simp: get_backend_def split: if_splits)
  qed
  with None show ?thesis by (simp add: get_backend_def)
next
  case (Some c)
  have s: "om_sorted (ring r)" and s': "om_sorted (ring (add_backend b r))"
    using assms ring_inv_add ring_inv_sorted by blast+
  obtain k where kc: "map_of (ring (add_backend b r)) k = Some c"
    and least: "\<forall>(k', b') \<in> set (ring (add_backend b r)). k - hash_key key \<le> k' - hash_key key"
    using Some unfolding get_backend_iff [OF s'] om.entry_lookup [OF s'] by blast
  show ?thesis
  proof (cases "c = b")
    case False
    with kc have "map_of (ring r) k = Some c"
      by (auto simp: lookup_add_backend [OF s] split: if_splits)
    moreover have "k - hash_key key \<le> k' - hash_key key" if "(k', b') \<in> set (ring r)" for k' b'
    proof -
      have "map_of (ring (add_backend b r)) k' \<noteq> None"
        using that by (simp add: lookup_add_backend [OF s] om.entry_lookup [OF s])
      then show ?thesis using least om.entry_lookup [OF s'] by fastforce
    qed
    ultimately have "get_backend r key = Some c"
      unfolding get_backend_iff [OF s] om.entry_lookup [OF s, symmetric] by blast
    with Some show ?thesis by simp
  qed (simp add: Some)
qed

theorem add_backend_moves_only_to_new_witness:
  "ring_inv sample_ring \<and>
   get_backend (add_backend 2 sample_ring) ''10.0.0.19'' \<in> {get_backend sample_ring ''10.0.0.19'', Some 2}"
  using add_backend_moves_only_to_new [OF sample_ring_inv, of 2 "''10.0.0.19''"] sample_ring_inv
  by blast

text \<open>C21: On a ring without overwritten virtual nodes, removing a backend reassigns only the
  keys it owned, and sends each to the backend \<^verbatim>\<open>get_backend_excluding\<close> would have
  chosen with that backend excluded.\<close>

theorem remove_backend_minimal_disruption:
  assumes "ring_inv r" and "ring_full r"
  shows "get_backend (remove_backend b r) key = get_backend_excluding r key {b} \<and>
    (get_backend r key \<noteq> Some b \<longrightarrow> get_backend (remove_backend b r) key = get_backend r key)"
  using remove_is_excluding [OF assms] excluding_other_owner [OF ring_inv_sorted [OF assms(1)]] by simp

theorem remove_backend_minimal_disruption_witness:
  "ring_inv sample_ring \<and> ring_full sample_ring \<and>
   get_backend (remove_backend 1 sample_ring) ''10.0.0.19'' = Some 0"
proof -
  have "get_backend sample_ring ''10.0.0.19'' = Some 0"
    by (simp add: get_backend_def ring_start_def om_lower_bound_def sample_ring_eval sample_hashes)
  then show ?thesis
    using remove_backend_minimal_disruption [OF sample_ring_inv sample_ring_full, of 1 "''10.0.0.19''",
        THEN conjunct2, THEN mp]
    by (simp add: sample_ring_inv sample_ring_full)
qed

text \<open>C23: Without collisions among the backends ever registered, the ring is a function of the
  set of registered backends: two histories of registrations and removals that end with
  the same backends end with the same ring.\<close>

theorem ring_history_independent:
  assumes "collision_free n B"
    and "op_backend ` set ops \<subseteq> B" and "op_backend ` set ops' \<subseteq> B"
    and "active_backends (fold ring_apply ops (new_ring n)) =
         active_backends (fold ring_apply ops' (new_ring n))"
  shows "fold ring_apply ops (new_ring n) = fold ring_apply ops' (new_ring n)"
proof -
  have nn: "num_vnodes_per_backend (new_ring n) = n" "active_backends (new_ring n) \<subseteq> B"
    by (simp_all add: new_ring_def)
  note inv = ring_ops_inv [OF ring_inv_new ring_full_new, of n, unfolded nn(1), OF assms(1) nn(2)]
  have "ring (fold ring_apply ops (new_ring n)) = ring (fold ring_apply ops' (new_ring n))"
    using inv [OF assms(2)] inv [OF assms(3)] assms(4) by (intro ring_full_unique) simp_all
  then show ?thesis
    using inv [OF assms(2)] inv [OF assms(3)] assms(4) by (intro hash_ring.equality) simp_all
qed


theorem ring_history_independent_witness:
  "fold ring_apply [Add 0, Add 1, Remove 0, Add 0] (new_ring 2) =
   fold ring_apply [Add 1, Add 0] (new_ring 2)"
proof (rule ring_history_independent [of 2 "{0, 1}"])
  show "collision_free 2 {0, 1}"
    using ring_full_collision_free [OF sample_ring_full] by (simp add: sample_ring_def insert_commute)
qed auto

end
