(* ===== verification/Circuit_Breaker.thy ===== *)
theory Circuit_Breaker
  imports Aegis_Prelude "HOL-Library.Multiset"
begin

text \<open>
  The three-state circuit breaker of \<^verbatim>\<open>src/circuit_breaker.{hpp,cpp}\<close>. Every public method
  holds the breaker's mutex for its whole body, so each is one atomic state transformer; the
  reading of \<^verbatim>\<open>steady_clock\<close> a method takes is its argument \<open>now\<close>, in nanoseconds. The
  counters are C++ \<^verbatim>\<open>int\<close>s modelled as integers; the invariant bounds them by the
  thresholds, so they never overflow.

  The second half models a breaker shared by concurrent requests: a step relation over the
  breaker and the multiset of granted requests that have not yet reported.
\<close>

section \<open>State and operations\<close>

datatype BreakerState = CLOSED | OPEN | HALF_OPEN

record circuit_breaker =
  cb_state :: BreakerState
  failure_threshold :: int
  success_threshold :: int
  cooldown_period :: int \<comment> \<open>milliseconds\<close>
  consecutive_failures :: int
  consecutive_successes :: int
  opened_at :: nanos
  half_open_trial_in_flight :: bool

definition new_breaker :: "int \<Rightarrow> int \<Rightarrow> int \<Rightarrow> circuit_breaker" where
  "new_breaker ft st cooldown_ms =
     \<lparr>cb_state = CLOSED, failure_threshold = ft, success_threshold = st,
      cooldown_period = cooldown_ms, consecutive_failures = 0, consecutive_successes = 0,
      opened_at = 0, half_open_trial_in_flight = False\<rparr>"

definition cooldown_nanos :: "circuit_breaker \<Rightarrow> nanos" where
  "cooldown_nanos cb = cooldown_period cb * 1000000"

definition allow_request :: "nanos \<Rightarrow> circuit_breaker \<Rightarrow> bool \<times> circuit_breaker" where
  "allow_request now cb =
     (if cb_state cb = CLOSED then (True, cb)
      else if cb_state cb = OPEN then
        if now - opened_at cb < cooldown_nanos cb then (False, cb)
        else (True, cb\<lparr>cb_state := HALF_OPEN, consecutive_successes := 0,
                       half_open_trial_in_flight := True\<rparr>)
      else if half_open_trial_in_flight cb then (False, cb)
      else (True, cb\<lparr>half_open_trial_in_flight := True\<rparr>))"

definition record_success :: "circuit_breaker \<Rightarrow> circuit_breaker" where
  "record_success cb =
     (if cb_state cb = HALF_OPEN then
        let cb = cb\<lparr>half_open_trial_in_flight := False,
                    consecutive_successes := consecutive_successes cb + 1\<rparr>
        in if consecutive_successes cb \<ge> success_threshold cb
           then cb\<lparr>cb_state := CLOSED, consecutive_failures := 0, consecutive_successes := 0\<rparr>
           else cb
      else cb\<lparr>consecutive_failures := 0\<rparr>)"

definition record_failure :: "nanos \<Rightarrow> circuit_breaker \<Rightarrow> circuit_breaker" where
  "record_failure now cb =
     (if cb_state cb = HALF_OPEN then
        cb\<lparr>half_open_trial_in_flight := False, cb_state := OPEN, opened_at := now,
           consecutive_successes := 0\<rparr>
      else if cb_state cb = CLOSED then
        let cb = cb\<lparr>consecutive_failures := consecutive_failures cb + 1\<rparr>
        in if consecutive_failures cb \<ge> failure_threshold cb
           then cb\<lparr>cb_state := OPEN, opened_at := now\<rparr>
           else cb
      else cb)"

definition state :: "circuit_breaker \<Rightarrow> BreakerState" where
  "state cb = cb_state cb"

text \<open>\<^verbatim>\<open>static_cast<int>(breaker.state())\<close>, as the metrics gauge shows it.\<close>

fun breaker_code :: "BreakerState \<Rightarrow> int" where
  "breaker_code CLOSED = 0"
| "breaker_code OPEN = 1"
| "breaker_code HALF_OPEN = 2"

section \<open>Sequences of calls\<close>

datatype breaker_op = Allow nanos | Success | Failure nanos

fun breaker_apply :: "breaker_op \<Rightarrow> circuit_breaker \<Rightarrow> circuit_breaker" where
  "breaker_apply (Allow now) cb = snd (allow_request now cb)"
| "breaker_apply Success cb = record_success cb"
| "breaker_apply (Failure now) cb = record_failure now cb"

text \<open>The answers of the \<^verbatim>\<open>allow_request\<close> calls of a sequence, in order.\<close>

fun breaker_answers :: "breaker_op list \<Rightarrow> circuit_breaker \<Rightarrow> bool list" where
  "breaker_answers [] cb = []"
| "breaker_answers (Allow now # ops) cb =
     fst (allow_request now cb) # breaker_answers ops (snd (allow_request now cb))"
| "breaker_answers (p # ops) cb = breaker_answers ops (breaker_apply p cb)"

fun op_time_before :: "nanos \<Rightarrow> breaker_op \<Rightarrow> bool" where
  "op_time_before t (Allow now) = (now < t)"
| "op_time_before t _ = True"

section \<open>Invariant\<close>

definition breaker_inv :: "circuit_breaker \<Rightarrow> bool" where
  "breaker_inv cb \<longleftrightarrow>
     0 \<le> consecutive_failures cb \<and>
     (cb_state cb = CLOSED \<longrightarrow> consecutive_failures cb < max 1 (failure_threshold cb)) \<and>
     consecutive_failures cb \<le> max 1 (failure_threshold cb) \<and>
     (cb_state cb = HALF_OPEN \<longrightarrow>
        0 \<le> consecutive_successes cb \<and> consecutive_successes cb < max 1 (success_threshold cb)) \<and>
     (cb_state cb \<noteq> HALF_OPEN \<longrightarrow> consecutive_successes cb = 0 \<and> \<not> half_open_trial_in_flight cb)"

lemmas breaker_defs = allow_request_def record_success_def record_failure_def

lemma breaker_inv_new [simp]: "breaker_inv (new_breaker ft st cd)"
  by (auto simp: breaker_inv_def new_breaker_def max_def)

lemma breaker_inv_allow: "breaker_inv cb \<Longrightarrow> breaker_inv (snd (allow_request now cb))"
  by (cases "cb_state cb") (auto simp: breaker_inv_def allow_request_def)

lemma breaker_inv_success: "breaker_inv cb \<Longrightarrow> breaker_inv (record_success cb)"
  by (cases "cb_state cb") (auto simp: breaker_inv_def record_success_def Let_def)

lemma breaker_inv_failure: "breaker_inv cb \<Longrightarrow> breaker_inv (record_failure now cb)"
  by (cases "cb_state cb") (auto simp: breaker_inv_def record_failure_def Let_def)

lemma breaker_inv_apply: "breaker_inv cb \<Longrightarrow> breaker_inv (breaker_apply p cb)"
  by (cases p) (simp_all add: breaker_inv_allow breaker_inv_success breaker_inv_failure)

lemma breaker_config_apply [simp]:
  "failure_threshold (breaker_apply p cb) = failure_threshold cb"
  "success_threshold (breaker_apply p cb) = success_threshold cb"
  "cooldown_period (breaker_apply p cb) = cooldown_period cb"
  by (cases p; simp add: breaker_defs Let_def)+

lemma breaker_inv_run: "breaker_inv cb \<Longrightarrow> breaker_inv (fold breaker_apply ops cb)"
  by (induction ops arbitrary: cb) (simp_all add: breaker_inv_apply)

lemma breaker_config_run [simp]:
  "failure_threshold (fold breaker_apply ops cb) = failure_threshold cb"
  "success_threshold (fold breaker_apply ops cb) = success_threshold cb"
  "cooldown_period (fold breaker_apply ops cb) = cooldown_period cb"
  by (induction ops arbitrary: cb) simp_all

section \<open>Behaviour per state\<close>

lemma record_failure_closed:
  assumes "cb_state cb = CLOSED"
  shows "record_failure now cb =
    (if consecutive_failures cb + 1 < failure_threshold cb
     then cb\<lparr>consecutive_failures := consecutive_failures cb + 1\<rparr>
     else cb\<lparr>consecutive_failures := consecutive_failures cb + 1, cb_state := OPEN, opened_at := now\<rparr>)"
  using assms by (simp add: record_failure_def Let_def)

text \<open>A streak of failures in the closed state, one clock reading per failure.\<close>

lemma failure_streak_closed:
  assumes "cb_state cb = CLOSED"
    and "consecutive_failures cb + int (length ts) < failure_threshold cb"
  shows "fold record_failure ts cb =
    cb\<lparr>consecutive_failures := consecutive_failures cb + int (length ts)\<rparr>"
  using assms
proof (induction ts arbitrary: cb)
  case (Cons t ts)
  let ?cb = "cb\<lparr>consecutive_failures := consecutive_failures cb + 1\<rparr>"
  have "record_failure t cb = ?cb"
    using Cons.prems by (simp add: record_failure_closed)
  then show ?case using Cons.prems Cons.IH [of ?cb] by (simp add: algebra_simps)
qed simp

lemma failure_streak_open: "cb_state cb = OPEN \<Longrightarrow> fold record_failure ts cb = cb"
  by (induction ts) (simp_all add: record_failure_def)

text \<open>While the breaker is open and the cooldown has not elapsed, no call changes its state or
  its time of opening.\<close>

lemma open_apply:
  assumes "cb_state cb = OPEN" and "op_time_before (opened_at cb + cooldown_nanos cb) p"
  shows "cb_state (breaker_apply p cb) = OPEN \<and> opened_at (breaker_apply p cb) = opened_at cb"
  using assms by (cases p) (auto simp: breaker_defs)

lemma cooldown_nanos_apply [simp]: "cooldown_nanos (breaker_apply p cb) = cooldown_nanos cb"
  by (simp add: cooldown_nanos_def)

lemma open_run:
  assumes "cb_state cb = OPEN"
    and "\<forall>p \<in> set ops. op_time_before (opened_at cb + cooldown_nanos cb) p"
  shows "cb_state (fold breaker_apply ops cb) = OPEN \<and>
    opened_at (fold breaker_apply ops cb) = opened_at cb \<and> True \<notin> set (breaker_answers ops cb)"
  using assms
proof (induction ops arbitrary: cb)
  case (Cons p ops)
  from Cons.prems open_apply [of cb p]
  have next_state: "cb_state (breaker_apply p cb) = OPEN" "opened_at (breaker_apply p cb) = opened_at cb"
    by auto
  then have rest: "cb_state (fold breaker_apply ops (breaker_apply p cb)) = OPEN"
    "opened_at (fold breaker_apply ops (breaker_apply p cb)) = opened_at cb"
    "True \<notin> set (breaker_answers ops (breaker_apply p cb))"
    using Cons.IH [of "breaker_apply p cb"] Cons.prems by simp_all
  moreover have "\<not> fst (allow_request now cb)" if "p = Allow now" for now
    using that Cons.prems by (auto simp: allow_request_def)
  ultimately have "True \<notin> set (breaker_answers (p # ops) cb)"
    by (cases p) auto
  with rest show ?case by simp
qed simp

text \<open>One request after the other, at the given times: each is put to the breaker, and succeeds if it is granted. The
  answers are kept.\<close>

fun trial_run :: "nanos list \<Rightarrow> circuit_breaker \<Rightarrow> bool list \<times> circuit_breaker" where
  "trial_run [] cb = ([], cb)"
| "trial_run (t # ts) cb =
     (let (ok, cb) = allow_request t cb;
          (oks, cb) = trial_run ts (if ok then record_success cb else cb)
      in (ok # oks, cb))"

lemma trial_run_Cons:
  assumes "allow_request t cb = (True, cb')"
  shows "trial_run (t # ts) cb = (True # fst (trial_run ts (record_success cb')), snd (trial_run ts (record_success cb')))"
  using assms by (simp add: split_def Let_def)

lemma trial_run_half_open:
  assumes "cb_state cb = HALF_OPEN" and "\<not> half_open_trial_in_flight cb"
    and "consecutive_successes cb < success_threshold cb"
    and "consecutive_successes cb + int (length ts) \<le> success_threshold cb"
  shows "fst (trial_run ts cb) = replicate (length ts) True \<and>
    snd (trial_run ts cb) =
      (if consecutive_successes cb + int (length ts) < success_threshold cb
       then cb\<lparr>consecutive_successes := consecutive_successes cb + int (length ts)\<rparr>
       else cb\<lparr>cb_state := CLOSED, consecutive_failures := 0, consecutive_successes := 0\<rparr>)"
  using assms
proof (induction ts arbitrary: cb)
  case (Cons t ts)
  let ?cb = "cb\<lparr>half_open_trial_in_flight := True\<rparr>" and ?next = "cb\<lparr>consecutive_successes := consecutive_successes cb + 1\<rparr>"
  have allow: "allow_request t cb = (True, ?cb)" using Cons.prems by (simp add: allow_request_def)
  show ?case
  proof (cases "consecutive_successes cb + 1 < success_threshold cb")
    case True
    then have "record_success ?cb = ?next" using Cons.prems by (simp add: record_success_def Let_def)
    then show ?thesis
      unfolding trial_run_Cons [OF allow] using Cons.IH [of ?next] Cons.prems True by (simp add: ac_simps)
  next
    case False
    then have "ts = []" using Cons.prems(4) by (cases ts) simp_all
    then show ?thesis unfolding trial_run_Cons [OF allow] using Cons.prems False by (simp add: record_success_def Let_def)
  qed
qed simp

section \<open>The contract the sessions rely on\<close>

text \<open>
  A session only ever calls the three methods. What it needs of them is an invariant that every
  call keeps; a whole deque of breakers then keeps it under any interleaving of calls.
\<close>

locale request_gate =
  fixes allow :: "nanos \<Rightarrow> 'b \<Rightarrow> bool \<times> 'b"
    and succeed :: "'b \<Rightarrow> 'b"
    and fail :: "nanos \<Rightarrow> 'b \<Rightarrow> 'b"
    and inv :: "'b \<Rightarrow> bool"
  assumes inv_allow: "inv b \<Longrightarrow> inv (snd (allow now b))"
    and inv_succeed: "inv b \<Longrightarrow> inv (succeed b)"
    and inv_fail: "inv b \<Longrightarrow> inv (fail now b)"
begin

lemma all_update:
  assumes "list_all inv bs" and "i < length bs" and "inv (bs ! i) \<Longrightarrow> inv b"
  shows "list_all inv (bs[i := b])"
  using assms by (auto simp: list_all_length nth_list_update)

lemma all_allow:
  assumes "list_all inv bs" and "i < length bs"
  shows "list_all inv (bs[i := snd (allow now (bs ! i))])"
  using assms by (rule all_update) (rule inv_allow)

lemma all_succeed:
  assumes "list_all inv bs" and "i < length bs"
  shows "list_all inv (bs[i := succeed (bs ! i)])"
  using assms by (rule all_update) (rule inv_succeed)

lemma all_fail:
  assumes "list_all inv bs" and "i < length bs"
  shows "list_all inv (bs[i := fail now (bs ! i)])"
  using assms by (rule all_update) (rule inv_fail)

end

interpretation cb: request_gate allow_request record_success record_failure breaker_inv
  by unfold_locales (simp_all add: breaker_inv_allow breaker_inv_success breaker_inv_failure)

section \<open>Concurrent requests through one breaker\<close>

text \<open>
  A granted request is a trial when the breaker was not closed at its grant. The environment
  decides who arrives, who reports and when.
\<close>

datatype grant = Normal | Trial

record gate =
  breaker :: circuit_breaker
  in_flight :: "grant multiset"

datatype gate_event = Admit | Reject | Report grant bool

inductive gate_step :: "gate \<Rightarrow> gate_event \<Rightarrow> gate \<Rightarrow> bool" where
  admit: "allow_request now (breaker g) = (True, cb) \<Longrightarrow>
    gate_step g Admit
      \<lparr>breaker = cb,
       in_flight = add_mset (if cb_state (breaker g) = CLOSED then Normal else Trial) (in_flight g)\<rparr>"
| reject: "allow_request now (breaker g) = (False, cb) \<Longrightarrow>
    gate_step g Reject (g\<lparr>breaker := cb\<rparr>)"
| succeed: "r \<in># in_flight g \<Longrightarrow>
    gate_step g (Report r True)
      \<lparr>breaker = record_success (breaker g), in_flight = in_flight g - {#r#}\<rparr>"
| fail: "r \<in># in_flight g \<Longrightarrow>
    gate_step g (Report r False)
      \<lparr>breaker = record_failure now (breaker g), in_flight = in_flight g - {#r#}\<rparr>"

inductive_cases gate_stepE: "gate_step g e g'"

text \<open>A report is stale when it comes from a request granted before the breaker tripped.\<close>

fun stale :: "gate \<Rightarrow> gate_event \<Rightarrow> bool" where
  "stale g (Report Normal ok) \<longleftrightarrow> cb_state (breaker g) \<noteq> CLOSED"
| "stale g _ \<longleftrightarrow> False"

text \<open>The states reachable from a new breaker, and those reachable without stale reports.\<close>

inductive gate_reachable :: "circuit_breaker \<Rightarrow> gate \<Rightarrow> bool" for cb where
  start: "gate_reachable cb \<lparr>breaker = cb, in_flight = {#}\<rparr>"
| step: "gate_reachable cb g \<Longrightarrow> gate_step g e g' \<Longrightarrow> gate_reachable cb g'"

inductive fresh_reachable :: "circuit_breaker \<Rightarrow> gate \<Rightarrow> bool" for cb where
  start: "fresh_reachable cb \<lparr>breaker = cb, in_flight = {#}\<rparr>"
| step: "fresh_reachable cb g \<Longrightarrow> gate_step g e g' \<Longrightarrow> \<not> stale g e \<Longrightarrow> fresh_reachable cb g'"

text \<open>The steps as a function, to run a script of events with their times.\<close>

fun gate_exec :: "gate_event \<times> nanos \<Rightarrow> gate \<Rightarrow> gate option" where
  "gate_exec (Admit, now) g =
     (if fst (allow_request now (breaker g)) then
        Some \<lparr>breaker = snd (allow_request now (breaker g)),
              in_flight = add_mset (if cb_state (breaker g) = CLOSED then Normal else Trial) (in_flight g)\<rparr>
      else None)"
| "gate_exec (Reject, now) g =
     (if fst (allow_request now (breaker g)) then None
      else Some (g\<lparr>breaker := snd (allow_request now (breaker g))\<rparr>))"
| "gate_exec (Report r ok, now) g =
     (if r \<in># in_flight g then
        Some \<lparr>breaker = (if ok then record_success (breaker g) else record_failure now (breaker g)),
              in_flight = in_flight g - {#r#}\<rparr>
      else None)"

fun gate_run :: "(gate_event \<times> nanos) list \<Rightarrow> gate \<Rightarrow> gate option" where
  "gate_run [] g = Some g"
| "gate_run (e # es) g = (case gate_exec e g of None \<Rightarrow> None | Some g' \<Rightarrow> gate_run es g')"

text \<open>No event of the script is stale when it happens.\<close>

fun fresh_run :: "(gate_event \<times> nanos) list \<Rightarrow> gate \<Rightarrow> bool" where
  "fresh_run [] g = True"
| "fresh_run (e # es) g =
     (\<not> stale g (fst e) \<and> (case gate_exec e g of None \<Rightarrow> False | Some g' \<Rightarrow> fresh_run es g'))"

lemma gate_exec_step: "gate_exec (e, now) g = Some g' \<Longrightarrow> gate_step g e g'"
proof (induction "(e, now)" g arbitrary: e now g' rule: gate_exec.induct)
  case (1 now g)
  then show ?case
    using gate_step.admit [of now g "snd (allow_request now (breaker g))"]
    by (simp add: prod_eq_iff split: if_splits)
next
  case (2 now g)
  then show ?case
    by (auto split: if_splits intro!: gate_step.reject [of now] simp: prod_eq_iff)
next
  case (3 r ok now g)
  then show ?case
    by (cases ok) (auto split: if_splits intro: gate_step.succeed gate_step.fail)
qed

lemma gate_run_reachable:
  "gate_reachable cb g \<Longrightarrow> gate_run es g = Some g' \<Longrightarrow> gate_reachable cb g'"
proof (induction es arbitrary: g)
  case (Cons e es)
  then show ?case
    by (cases e) (auto split: option.splits dest: gate_exec_step intro: gate_reachable.step)
qed simp

lemma fresh_run_reachable:
  "fresh_reachable cb g \<Longrightarrow> fresh_run es g \<Longrightarrow> gate_run es g = Some g' \<Longrightarrow> fresh_reachable cb g'"
proof (induction es arbitrary: g)
  case (Cons e es)
  then show ?case
    by (cases e) (auto split: option.splits dest: gate_exec_step intro: fresh_reachable.step)
qed simp

lemmas gate_eval = breaker_defs new_breaker_def cooldown_nanos_def Let_def

text \<open>The flag says exactly whether a trial is in flight, and trials exist only half-open.\<close>

definition gate_inv :: "gate \<Rightarrow> bool" where
  "gate_inv g \<longleftrightarrow> breaker_inv (breaker g) \<and>
     count (in_flight g) Trial = (if half_open_trial_in_flight (breaker g) then 1 else 0)"

lemma gate_inv_step:
  assumes "gate_inv g" and "gate_step g e g'" and "\<not> stale g e"
  shows "gate_inv g'"
  using assms(2,1,3)
proof (cases rule: gate_step.cases)
  case (admit now cb)
  moreover have "breaker_inv cb"
    using admit assms(1) breaker_inv_allow [of "breaker g" now] by (simp add: gate_inv_def)
  ultimately show ?thesis
    using assms(1) by (auto simp: gate_inv_def allow_request_def breaker_inv_def split: if_splits)
next
  case (reject now cb)
  then have "cb = breaker g" by (auto simp: allow_request_def split: if_splits)
  with reject assms(1) show ?thesis by (simp add: gate_inv_def)
next
  case (succeed r)
  have "breaker_inv (record_success (breaker g))"
    using assms(1) by (simp add: gate_inv_def breaker_inv_success)
  moreover have "0 < count (in_flight g) r" using succeed by simp
  ultimately show ?thesis
    using assms(1,3) succeed
    by (cases r; cases "cb_state (breaker g)")
      (auto simp: gate_inv_def record_success_def breaker_inv_def Let_def split: if_splits)
next
  case (fail r now)
  have "breaker_inv (record_failure now (breaker g))"
    using assms(1) by (simp add: gate_inv_def breaker_inv_failure)
  moreover have "0 < count (in_flight g) r" using fail by simp
  ultimately show ?thesis
    using assms(1,3) fail
    by (cases r; cases "cb_state (breaker g)")
      (auto simp: gate_inv_def record_failure_def breaker_inv_def Let_def split: if_splits)
qed

lemma fresh_reachable_inv: "fresh_reachable (new_breaker ft st cd) g \<Longrightarrow> gate_inv g"
proof (induction rule: fresh_reachable.induct)
  case start
  show ?case using breaker_inv_new by (simp add: gate_inv_def) (simp add: new_breaker_def)
next
  case (step g e g')
  then show ?case by (blast intro: gate_inv_step)
qed

section \<open>Failure streaks\<close>

text \<open>Reports in the closed state: \<open>(ok, t)\<close> is a success or a failure at time \<open>t\<close>.\<close>

fun report :: "bool \<times> nanos \<Rightarrow> circuit_breaker \<Rightarrow> circuit_breaker" where
  "report (ok, t) cb = (if ok then record_success cb else record_failure t cb)"

definition has_streak :: "nat \<Rightarrow> (bool \<times> nanos) list \<Rightarrow> bool" where
  "has_streak n rs \<longleftrightarrow> (\<exists>us vs ws. rs = us @ vs @ ws \<and> length vs = n \<and> (\<forall>v \<in> set vs. \<not> fst v))"

definition trailing_failures :: "(bool \<times> nanos) list \<Rightarrow> nat" where
  "trailing_failures rs = length (takeWhile (\<lambda>r. \<not> fst r) (rev rs))"

lemma trailing_failures_snoc:
  "trailing_failures (rs @ [r]) = (if fst r then 0 else Suc (trailing_failures rs))"
  by (simp add: trailing_failures_def)

lemma suffix_streak:
  "(\<exists>us vs. rs = us @ vs \<and> length vs = n \<and> (\<forall>v \<in> set vs. \<not> fst v)) \<longleftrightarrow> n \<le> trailing_failures rs"
proof (induction rs arbitrary: n rule: rev_induct)
  case Nil
  then show ?case by (auto simp: trailing_failures_def)
next
  case (snoc r rs)
  show ?case
  proof (cases n)
    case 0
    then show ?thesis by auto
  next
    case (Suc k)
    have "(\<exists>us vs. rs @ [r] = us @ vs \<and> length vs = Suc k \<and> (\<forall>v \<in> set vs. \<not> fst v)) \<longleftrightarrow>
      \<not> fst r \<and> (\<exists>us vs. rs = us @ vs \<and> length vs = k \<and> (\<forall>v \<in> set vs. \<not> fst v))" (is "?l \<longleftrightarrow> ?r")
    proof
      assume ?l
      then obtain us vs where vs: "rs @ [r] = us @ vs" "length vs = Suc k" "\<forall>v \<in> set vs. \<not> fst v"
        by blast
      then obtain vs' where "vs = vs' @ [r]" "rs = us @ vs'"
        by (cases vs rule: rev_cases) auto
      with vs show ?r by auto
    next
      assume ?r
      then obtain us vs where "\<not> fst r" "rs = us @ vs" "length vs = k" "\<forall>v \<in> set vs. \<not> fst v" by blast
      then show ?l by (intro exI [of _ us] exI [of _ "vs @ [r]"]) auto
    qed
    with Suc snoc.IH [of k] show ?thesis by (simp add: trailing_failures_snoc)
  qed
qed

lemma has_streak_snoc:
  assumes "0 < n"
  shows "has_streak n (rs @ [r]) \<longleftrightarrow> has_streak n rs \<or> n \<le> trailing_failures (rs @ [r])"
proof
  assume "has_streak n (rs @ [r])"
  then obtain us vs ws where s: "rs @ [r] = us @ vs @ ws" "length vs = n" "\<forall>v \<in> set vs. \<not> fst v"
    unfolding has_streak_def by blast
  show "has_streak n rs \<or> n \<le> trailing_failures (rs @ [r])"
  proof (cases ws rule: rev_cases)
    case Nil
    then have "n \<le> trailing_failures (rs @ [r])"
      unfolding suffix_streak [symmetric] using s by auto
    then show ?thesis ..
  next
    case (snoc ws' w)
    then have "rs = us @ vs @ ws'" using s(1) by simp
    with s show ?thesis unfolding has_streak_def by blast
  qed
next
  assume "has_streak n rs \<or> n \<le> trailing_failures (rs @ [r])"
  then show "has_streak n (rs @ [r])"
    unfolding suffix_streak [symmetric] has_streak_def by (metis append_Nil2 append_assoc)
qed

lemma closed_or_tripped:
  fixes st cd :: int
  assumes "1 \<le> ft"
  defines "cb \<equiv> \<lambda>rs. fold report rs (new_breaker ft st cd)"
  shows "if has_streak (nat ft) rs then cb_state (cb rs) = OPEN
    else cb_state (cb rs) = CLOSED \<and> consecutive_failures (cb rs) = int (trailing_failures rs) \<and>
      failure_threshold (cb rs) = ft"
proof (induction rs rule: rev_induct)
  case Nil
  show ?case
    using assms(1) by (auto simp: cb_def has_streak_def new_breaker_def trailing_failures_def)
next
  case (snoc r rs)
  obtain ok t where r: "r = (ok, t)" by (cases r)
  have step: "cb (rs @ [(ok, t)]) = report (ok, t) (cb rs)" by (simp add: cb_def)
  have n: "0 < nat ft" using assms(1) by simp
  show ?case
    using snoc assms(1) unfolding r step has_streak_snoc [OF n] trailing_failures_snoc
    by (auto simp: record_success_def record_failure_def Let_def split: if_splits)
qed

section \<open>Properties\<close>

text \<open>Whatever sequence of calls a breaker receives, its counters stay between 0 and its
  thresholds (or 1), so with \<^verbatim>\<open>int\<close> thresholds no increment overflows; and outside the
  half-open state no trial is marked in flight.\<close>

lemma breaker_counters_bounded:
  assumes "ft < 2 ^ 31" and "st < 2 ^ 31"
    and "cb = fold breaker_apply ops (new_breaker ft st cd)"
  shows "consecutive_failures cb \<in> {0..<2 ^ 31} \<and> consecutive_successes cb \<in> {0..<2 ^ 31} \<and>
    (cb_state cb \<noteq> HALF_OPEN \<longrightarrow> \<not> half_open_trial_in_flight cb)"
proof -
  have "breaker_inv cb"
    unfolding assms(3) by (intro breaker_inv_run breaker_inv_new)
  moreover have "failure_threshold cb = ft" "success_threshold cb = st"
    by (simp_all add: assms(3)) (simp_all add: new_breaker_def)
  ultimately show ?thesis
    using assms(1,2) by (cases "cb_state cb") (auto simp: breaker_inv_def)
qed

text \<open>C25: A closed breaker opens exactly when the reports contain \<open>failure_threshold\<close> consecutive
  failures; a success anywhere in between restarts the count.\<close>

theorem breaker_opens_iff_streak:
  assumes "1 \<le> ft"
  shows "cb_state (fold report rs (new_breaker ft st cd)) =
    (if has_streak (nat ft) rs then OPEN else CLOSED)"
  using closed_or_tripped [OF assms, of rs st cd] by (auto split: if_splits)

theorem breaker_opens_iff_streak_witness:
  "cb_state (fold report [(False, 1), (False, 2), (True, 3), (False, 4), (False, 5)] (new_breaker 3 2 100)) = CLOSED \<and>
   \<not> has_streak 3 [(False, 1), (False, 2), (True, 3), (False, 4), (False, 5)]"
proof -
  have closed: "cb_state (fold report [(False, 1), (False, 2), (True, 3), (False, 4), (False, 5)]
      (new_breaker 3 2 100)) = CLOSED"
    by (simp add: record_success_def record_failure_def new_breaker_def Let_def)
  then show ?thesis
    using breaker_opens_iff_streak [of 3 "[(False, 1), (False, 2), (True, 3), (False, 4), (False, 5)]" 2 100]
    by (simp split: if_splits)
qed

text \<open>C26: Recovery: once the cooldown has elapsed, each of \<open>success_threshold\<close> requests, one after the other and
  each successful, is granted, and the last of them closes the breaker with a clean failure count;
  while they are fewer the breaker is half-open and waits for the next trial. A threshold below 1 acts like 1.\<close>

theorem breaker_recovers:
  assumes "cb_state cb = OPEN" and "cooldown_nanos cb \<le> t - opened_at cb"
    and "int (length ts) < max 1 (success_threshold cb)"
    and "trial_run (t # ts) cb = (oks, cb')"
  shows "oks = replicate (length ts + 1) True \<and>
    (if int (length ts) + 1 < success_threshold cb
     then cb_state cb' = HALF_OPEN \<and> \<not> half_open_trial_in_flight cb'
     else cb_state cb' = CLOSED \<and> consecutive_failures cb' = 0)"
proof -
  let ?first = "cb\<lparr>cb_state := HALF_OPEN, consecutive_successes := 0, half_open_trial_in_flight := True\<rparr>"
  have allow: "allow_request t cb = (True, ?first)" using assms(1,2) by (simp add: allow_request_def)
  have run: "oks = True # fst (trial_run ts (record_success ?first))" "cb' = snd (trial_run ts (record_success ?first))"
    using trial_run_Cons [OF allow, of ts] assms(4) by simp_all
  show ?thesis
  proof (cases "1 < success_threshold cb")
    case True
    let ?next = "cb\<lparr>cb_state := HALF_OPEN, consecutive_successes := 1, half_open_trial_in_flight := False\<rparr>"
    have "record_success ?first = ?next" using True by (simp add: record_success_def Let_def)
    then show ?thesis
      unfolding run using trial_run_half_open [of ?next ts] True assms(3) by simp
  next
    case False
    then show ?thesis unfolding run using assms(3) by (simp add: record_success_def Let_def)
  qed
qed

theorem breaker_recovers_witness:
  "\<exists>cb'. trial_run [50000000, 50000001, 50000002] (record_failure 0 (new_breaker 1 3 50)) = ([True, True, True], cb') \<and>
     cb_state cb' = CLOSED"
proof -
  obtain oks cb' where run: "trial_run (50000000 # [50000001, 50000002]) (record_failure 0 (new_breaker 1 3 50)) = (oks, cb')"
    by fastforce
  have "cb_state (record_failure 0 (new_breaker 1 3 50)) = OPEN"
    "cooldown_nanos (record_failure 0 (new_breaker 1 3 50)) \<le> 50000000 - opened_at (record_failure 0 (new_breaker 1 3 50))"
    "success_threshold (record_failure 0 (new_breaker 1 3 50)) = 3"
    by (simp_all add: record_failure_def new_breaker_def Let_def cooldown_nanos_def)
  then show ?thesis using breaker_recovers [OF _ _ _ run] run by (simp add: numeral_eq_Suc)
qed

text \<open>As long as no request granted before the breaker tripped reports after it, at most one
  trial is in flight, and the flag \<^verbatim>\<open>half_open_trial_in_flight_\<close> says whether there is one.\<close>

lemma single_trial_in_flight:
  assumes "fresh_reachable (new_breaker ft st cd) g"
  shows "count (in_flight g) Trial \<le> 1 \<and>
    (half_open_trial_in_flight (breaker g) \<longleftrightarrow> count (in_flight g) Trial = 1)"
  using fresh_reachable_inv [OF assms] by (auto simp: gate_inv_def)

text \<open>C27: With a stale report the gate admits a second trial: with the thresholds of the deployed proxy, a half-open
  breaker is reached with one trial in flight, which it marks and on account of which it refuses everybody, and with a
  request granted while it was closed still out; when that request succeeds the mark is gone
  although the trial is not, and the next request is admitted as a second trial.\<close>

theorem stale_success_admits_second_trial:
  "\<exists>g g' g''. gate_reachable (new_breaker 5 2 5000) g \<and> in_flight g = {#Normal, Trial#} \<and>
     cb_state (breaker g) = HALF_OPEN \<and> half_open_trial_in_flight (breaker g) \<and>
     (\<forall>now. \<not> fst (allow_request now (breaker g))) \<and>
     gate_step g (Report Normal True) g' \<and> cb_state (breaker g') = HALF_OPEN \<and>
     \<not> half_open_trial_in_flight (breaker g') \<and> in_flight g' = {#Trial#} \<and>
     gate_step g' Admit g'' \<and> in_flight g'' = {#Trial, Trial#}"
proof -
  let ?start = "\<lparr>breaker = new_breaker 5 2 5000, in_flight = {#}\<rparr>"
  let ?script = "[(Admit, 0), (Admit, 0), (Admit, 0), (Admit, 0), (Admit, 0), (Admit, 0),
    (Report Normal False, 1), (Report Normal False, 1), (Report Normal False, 1),
    (Report Normal False, 1), (Report Normal False, 1), (Admit, 5000000001)]"
  let ?cb = "(new_breaker 5 2 5000)\<lparr>cb_state := HALF_OPEN, consecutive_failures := 5, opened_at := 1, half_open_trial_in_flight := True\<rparr>"
  let ?cb' = "?cb\<lparr>half_open_trial_in_flight := False, consecutive_successes := 1\<rparr>"
  let ?g = "\<lparr>breaker = ?cb, in_flight = {#Normal, Trial#}\<rparr>" and ?g' = "\<lparr>breaker = ?cb', in_flight = {#Trial#}\<rparr>"
  let ?g'' = "\<lparr>breaker = ?cb'\<lparr>half_open_trial_in_flight := True\<rparr>, in_flight = {#Trial, Trial#}\<rparr>"
  have "gate_run ?script ?start = Some ?g" by (simp add: gate_eval add_mset_commute)
  then have "gate_reachable (new_breaker 5 2 5000) ?g" by (rule gate_run_reachable [OF gate_reachable.start])
  moreover have "gate_step ?g (Report Normal True) ?g'"
    by (rule gate_exec_step [of _ 5000000002]) (simp add: gate_eval)
  moreover have "gate_step ?g' Admit ?g''"
    by (rule gate_exec_step [of _ 5000000003]) (simp add: gate_eval)
  moreover have "\<not> fst (allow_request now ?cb)" for now by (simp add: allow_request_def)
  ultimately show ?thesis by (intro exI [of _ ?g] exI [of _ ?g'] exI [of _ ?g'']) simp
qed

end
