(* ===== verification/Connection_Pool.thy ===== *)
theory Connection_Pool
  imports Aegis_Prelude "HOL-Library.Multiset"
begin

text \<open>
  The connection pool of \<^verbatim>\<open>src/connection_pool.{hpp,cpp}\<close>: per backend a deque of idle sockets
  (its back is the end of the list) and a counter of the sockets handed out. Resolving and
  connecting are Asio's: their outcomes are the record \<open>net\<close>, one value per connection attempt,
  chosen by the environment. \<^verbatim>\<open>acquire\<close> is cut at its suspension point: \<open>acquire_begin\<close> is the
  part under the lock, \<open>acquire_end\<close> the part after \<^verbatim>\<open>co_await connect\<close>.

  The second half runs the pool together with the multiset of sockets its clients hold, and
  proves that the counters count them and that no socket is handed out twice.
\<close>

section \<open>State and operations\<close>

record BackendConfig =
  host :: string
  port :: string
  min_pool_size :: nat

record socket =
  sock_id :: nat
  sock_open :: bool

text \<open>What Asio answers during one connection attempt: the resolver on host and port, the connect
  on the resolved endpoints, and setting \<^verbatim>\<open>TCP_NODELAY\<close> on the connected socket.\<close>

record net =
  async_resolve :: "string \<Rightarrow> string \<Rightarrow> string list result"
  async_connect :: "string list \<Rightarrow> socket result"
  set_no_delay :: "socket \<Rightarrow> unit result"

record connection_pool =
  backends :: "BackendConfig list"
  free_sockets :: "socket list list"
  active_counts :: "int list"

definition new_pool :: "BackendConfig list \<Rightarrow> connection_pool" where
  "new_pool bs = \<lparr>backends = bs, free_sockets = replicate (length bs) [],
                  active_counts = replicate (length bs) 0\<rparr>"

definition connect :: "connection_pool \<Rightarrow> nat \<Rightarrow> net \<Rightarrow> socket result" where
  "connect p i env =
     bind_result (vec_at (backends p) i) (\<lambda>cfg.
     bind_result (async_resolve env (host cfg) (port cfg)) (\<lambda>endpoints.
     bind_result (async_connect env endpoints) (\<lambda>s.
     bind_result (set_no_delay env s) (\<lambda>_. Inr s))))"

text \<open>\<open>push_back\<close> on the free list of backend \<open>i\<close>; the inner loop of \<^verbatim>\<open>warm_up\<close> counts the
  successful connects and logs the failed ones.\<close>

definition push_free :: "nat \<Rightarrow> socket \<Rightarrow> connection_pool \<Rightarrow> connection_pool" where
  "push_free i s p = p\<lparr>free_sockets := (free_sockets p)[i := free_sockets p ! i @ [s]]\<rparr>"

fun warm_backend ::
  "nat \<Rightarrow> BackendConfig \<Rightarrow> net list \<Rightarrow> connection_pool \<Rightarrow> nat \<Rightarrow> log_line list \<Rightarrow>
   connection_pool \<times> nat \<times> log_line list" where
  "warm_backend i cfg [] p connected out = (p, connected, out)"
| "warm_backend i cfg (env # envs) p connected out =
     (case connect p i env of
        Inr s \<Rightarrow> warm_backend i cfg envs (push_free i s p) (connected + 1) out
      | Inl e \<Rightarrow> warm_backend i cfg envs p connected
          (out @ [Cerr (''[pool] warm-up connect failed for '' @ host cfg @ '':'' @ port cfg @
                        '' -> '' @ exn_what e)]))"

text \<open>\<open>envs i n\<close> is the environment of the \<open>n\<close>-th attempt for backend \<open>i\<close>.\<close>

definition warm_one :: "(nat \<Rightarrow> nat \<Rightarrow> net) \<Rightarrow> nat \<Rightarrow> connection_pool \<times> log_line list \<Rightarrow>
  connection_pool \<times> log_line list" where
  "warm_one envs i st =
     (let (p, out) = st;
          cfg = backends p ! i;
          (p, connected, out) = warm_backend i cfg (map (envs i) [0..<min_pool_size cfg]) p 0 out
      in (p, out @ [Cout (''[pool] backend '' @ host cfg @ '':'' @ port cfg @ '' warmed with '' @
                          to_string connected @ ''/'' @ to_string (min_pool_size cfg) @ '' sockets'')]))"

definition warm_up :: "(nat \<Rightarrow> nat \<Rightarrow> net) \<Rightarrow> connection_pool \<Rightarrow> connection_pool \<times> log_line list" where
  "warm_up envs p = fold (warm_one envs) [0..<length (backends p)] (p, [])"

definition add_active :: "nat \<Rightarrow> int \<Rightarrow> connection_pool \<Rightarrow> connection_pool result" where
  "add_active i d p =
     bind_result (vec_modify (active_counts p) i (\<lambda>c. c + d)) (\<lambda>cs. Inr (p\<lparr>active_counts := cs\<rparr>))"

definition acquire_begin :: "nat \<Rightarrow> connection_pool \<Rightarrow> (socket option \<times> connection_pool) result" where
  "acquire_begin i p =
     bind_result (vec_at (free_sockets p) i) (\<lambda>free_list.
       if free_list \<noteq> [] then
         bind_result (add_active i 1 (p\<lparr>free_sockets := (free_sockets p)[i := butlast free_list]\<rparr>))
           (\<lambda>p. Inr (Some (last free_list), p))
       else Inr (None, p))"

definition acquire_end :: "nat \<Rightarrow> socket result \<Rightarrow> connection_pool \<Rightarrow> (socket \<times> connection_pool) result" where
  "acquire_end i r p =
     bind_result r (\<lambda>s. bind_result (add_active i 1 p) (\<lambda>p. Inr (s, p)))"

definition acquire :: "nat \<Rightarrow> net \<Rightarrow> connection_pool \<Rightarrow> (socket \<times> connection_pool) result" where
  "acquire i env p =
     bind_result (acquire_begin i p) (\<lambda>(s, p).
       case s of Some s \<Rightarrow> Inr (s, p) | None \<Rightarrow> acquire_end i (connect p i env) p)"

definition release :: "nat \<Rightarrow> socket \<Rightarrow> bool \<Rightarrow> connection_pool \<Rightarrow> connection_pool result" where
  "release i s healthy p =
     bind_result (add_active i (- 1) p) (\<lambda>p.
       if \<not> healthy \<or> \<not> sock_open s then Inr p
       else bind_result (vec_modify (free_sockets p) i (\<lambda>fs. fs @ [s]))
              (\<lambda>fs. Inr (p\<lparr>free_sockets := fs\<rparr>)))"

definition active_count :: "nat \<Rightarrow> connection_pool \<Rightarrow> int result" where
  "active_count i p = vec_at (active_counts p) i"

definition idle_count :: "nat \<Rightarrow> connection_pool \<Rightarrow> int result" where
  "idle_count i p = bind_result (vec_at (free_sockets p) i) (\<lambda>fs. Inr (int (length fs)))"

definition pool_backend_count :: "connection_pool \<Rightarrow> nat" where
  "pool_backend_count p = length (backends p)"

definition backend_config :: "nat \<Rightarrow> connection_pool \<Rightarrow> BackendConfig result" where
  "backend_config i p = vec_at (backends p) i"

section \<open>Shape\<close>

definition pool_ok :: "connection_pool \<Rightarrow> bool" where
  "pool_ok p \<longleftrightarrow> length (free_sockets p) = length (backends p) \<and>
     length (active_counts p) = length (backends p)"

lemmas pool_defs = add_active_def acquire_begin_def acquire_end_def acquire_def release_def push_free_def

lemma pool_ok_new [simp]: "pool_ok (new_pool bs)"
  by (simp add: pool_ok_def new_pool_def)

lemma pool_ok_push_free [simp]: "pool_ok (push_free i s p) = pool_ok p"
  by (simp add: pool_ok_def push_free_def)

lemma acquire_begin_in_range:
  assumes "pool_ok p" and "i < length (backends p)"
  shows "acquire_begin i p =
    (if free_sockets p ! i = [] then Inr (None, p)
     else Inr (Some (last (free_sockets p ! i)),
       p\<lparr>free_sockets := (free_sockets p)[i := butlast (free_sockets p ! i)],
         active_counts := (active_counts p)[i := active_counts p ! i + 1]\<rparr>))"
  using assms by (simp add: pool_ok_def acquire_begin_def add_active_def)

lemma acquire_end_in_range:
  assumes "pool_ok p" and "i < length (backends p)"
  shows "acquire_end i (Inr s) p =
    Inr (s, p\<lparr>active_counts := (active_counts p)[i := active_counts p ! i + 1]\<rparr>)"
  using assms by (simp add: pool_ok_def acquire_end_def add_active_def)

lemma release_in_range:
  assumes "pool_ok p" and "i < length (backends p)"
  shows "release i s healthy p =
    Inr (p\<lparr>active_counts := (active_counts p)[i := active_counts p ! i - 1],
           free_sockets := (if healthy \<and> sock_open s
                            then (free_sockets p)[i := free_sockets p ! i @ [s]]
                            else free_sockets p)\<rparr>)"
  using assms by (auto simp: pool_ok_def release_def add_active_def)

lemma out_of_range:
  assumes "pool_ok p" and "length (backends p) \<le> i"
  shows "acquire_begin i p = Inl Out_Of_Range" and "release i s healthy p = Inl Out_Of_Range"
    and "active_count i p = Inl Out_Of_Range" and "idle_count i p = Inl Out_Of_Range"
  using assms
  by (simp_all add: pool_ok_def acquire_begin_def release_def add_active_def active_count_def
      idle_count_def)

section \<open>Counting what is handed out\<close>

text \<open>
  The metrics and the sessions rely on one law of the pool: the counter of a backend goes up by
  one when a socket of that backend is handed out, down by one when it comes back, and no other
  operation moves it. \<open>balanced p H\<close> says that the counters agree with the list \<open>H\<close> of the
  backends of all sockets in use.
\<close>

locale checkout_counter =
  fixes counter :: "'p \<Rightarrow> nat \<Rightarrow> int"
    and backends_of :: "'p \<Rightarrow> nat"
    and checkout :: "nat \<Rightarrow> 'p \<Rightarrow> 'p \<Rightarrow> bool"
    and checkin :: "nat \<Rightarrow> 'p \<Rightarrow> 'p \<Rightarrow> bool"
  assumes checkout_counter: "checkout i p p' \<Longrightarrow> j < backends_of p \<Longrightarrow>
      counter p' j = counter p j + (if j = i then 1 else 0)"
    and checkin_counter: "checkin i p p' \<Longrightarrow> j < backends_of p \<Longrightarrow>
      counter p' j = counter p j - (if j = i then 1 else 0)"
    and checkout_size: "checkout i p p' \<Longrightarrow> backends_of p' = backends_of p"
    and checkin_size: "checkin i p p' \<Longrightarrow> backends_of p' = backends_of p"
begin

definition balanced :: "'p \<Rightarrow> nat multiset \<Rightarrow> bool" where
  "balanced p H \<longleftrightarrow> (\<forall>i < backends_of p. counter p i = int (count H i))"

lemma balanced_checkout:
  assumes "balanced p H" and "checkout i p p'"
  shows "balanced p' (add_mset i H)"
  using assms checkout_counter [OF assms(2)] checkout_size [OF assms(2)]
  by (auto simp: balanced_def)

lemma balanced_checkin:
  assumes "balanced p H" and "i \<in># H" and "checkin i p p'"
  shows "balanced p' (H - {#i#})"
proof -
  have "0 < count H i" using assms(2) by simp
  then have "int (count (H - {#i#}) j) = int (count H j) - (if j = i then 1 else 0)" for j
    by simp
  then show ?thesis
    using assms(1) checkin_counter [OF assms(3)] checkin_size [OF assms(3)]
    by (auto simp: balanced_def)
qed

end

text \<open>The pool's own hand-outs and returns.\<close>

definition pool_checkout :: "nat \<Rightarrow> connection_pool \<Rightarrow> connection_pool \<Rightarrow> bool" where
  "pool_checkout i p p' \<longleftrightarrow> pool_ok p \<and>
     ((\<exists>s. acquire_begin i p = Inr (Some s, p')) \<or> (\<exists>s. acquire_end i (Inr s) p = Inr (s, p')))"

definition pool_checkin :: "nat \<Rightarrow> connection_pool \<Rightarrow> connection_pool \<Rightarrow> bool" where
  "pool_checkin i p p' \<longleftrightarrow> pool_ok p \<and> (\<exists>s healthy. release i s healthy p = Inr p')"

lemma acquire_begin_cases:
  assumes "pool_ok p" and "acquire_begin i p = Inr (r, p')"
  shows "i < length (backends p) \<and>
    (r = None \<and> free_sockets p ! i = [] \<and> p' = p \<or>
     (\<exists>fs s. free_sockets p ! i = fs @ [s] \<and> r = Some s \<and>
        p' = p\<lparr>free_sockets := (free_sockets p)[i := fs],
               active_counts := (active_counts p)[i := active_counts p ! i + 1]\<rparr>))"
proof -
  have "i < length (backends p)" using assms out_of_range [of p i] by (metis Inl_Inr_False not_le)
  with assms show ?thesis
    by (cases "free_sockets p ! i" rule: rev_cases) (auto simp: acquire_begin_in_range split: if_splits)
qed

lemma release_cases:
  assumes "pool_ok p" and "release i s healthy p = Inr p'"
  shows "i < length (backends p) \<and>
    p' = p\<lparr>active_counts := (active_counts p)[i := active_counts p ! i - 1],
           free_sockets := (if healthy \<and> sock_open s
                            then (free_sockets p)[i := free_sockets p ! i @ [s]]
                            else free_sockets p)\<rparr>"
proof -
  have "i < length (backends p)" using assms out_of_range [of p i] by (metis Inl_Inr_False not_le)
  with assms show ?thesis by (simp add: release_in_range)
qed

lemma acquire_end_cases:
  assumes "pool_ok p" and "acquire_end i (Inr s) p = Inr (s', p')"
  shows "i < length (backends p) \<and> s' = s \<and>
    p' = p\<lparr>active_counts := (active_counts p)[i := active_counts p ! i + 1]\<rparr>"
proof -
  have "i < length (backends p)"
    using assms by (cases "i < length (backends p)") (auto simp: acquire_end_def add_active_def pool_ok_def)
  with assms show ?thesis by (auto simp: acquire_end_in_range)
qed

lemma pool_checkout_counts:
  assumes "pool_checkout i p p'"
  shows "i < length (backends p) \<and> backends p' = backends p \<and> pool_ok p' \<and>
    active_counts p' = (active_counts p)[i := active_counts p ! i + 1]"
proof -
  have ok: "pool_ok p" using assms by (simp add: pool_checkout_def)
  from assms consider s where "acquire_begin i p = Inr (Some s, p')"
    | s where "acquire_end i (Inr s) p = Inr (s, p')"
    by (auto simp: pool_checkout_def)
  then show ?thesis
  proof cases
    case 1
    from acquire_begin_cases [OF ok 1] ok show ?thesis by (auto simp: pool_ok_def)
  next
    case 2
    from acquire_end_cases [OF ok 2] ok show ?thesis by (auto simp: pool_ok_def)
  qed
qed

lemma pool_checkin_counts:
  assumes "pool_checkin i p p'"
  shows "i < length (backends p) \<and> backends p' = backends p \<and> pool_ok p' \<and>
    active_counts p' = (active_counts p)[i := active_counts p ! i - 1]"
proof -
  from assms obtain s healthy where ok: "pool_ok p" and r: "release i s healthy p = Inr p'"
    by (auto simp: pool_checkin_def)
  from release_cases [OF ok r] ok show ?thesis by (auto simp: pool_ok_def)
qed

interpretation pc: checkout_counter "\<lambda>p i. active_counts p ! i" "\<lambda>p. length (backends p)"
  pool_checkout pool_checkin
proof
  fix i j :: nat and p p' :: connection_pool
  assume c: "pool_checkout i p p'"
  note k = pool_checkout_counts [OF c]
  have "length (active_counts p) = length (backends p)"
    using c by (simp add: pool_checkout_def pool_ok_def)
  with k show "j < length (backends p) \<Longrightarrow>
      active_counts p' ! j = active_counts p ! j + (if j = i then 1 else 0)"
    by (auto simp: nth_list_update)
  show "length (backends p') = length (backends p)" using k by simp
next
  fix i j :: nat and p p' :: connection_pool
  assume c: "pool_checkin i p p'"
  note k = pool_checkin_counts [OF c]
  have "length (active_counts p) = length (backends p)"
    using c by (simp add: pool_checkin_def pool_ok_def)
  with k show "j < length (backends p) \<Longrightarrow>
      active_counts p' ! j = active_counts p ! j - (if j = i then 1 else 0)"
    by (auto simp: nth_list_update)
  show "length (backends p') = length (backends p)" using k by simp
qed

section \<open>The pool and its clients\<close>

text \<open>
  A pool together with the sockets its clients hold. A fresh connection is a socket with an
  identity that is in use nowhere (two socket objects are never the same).
\<close>

record pool_sys =
  pool :: connection_pool
  held :: "(nat \<times> socket) multiset"

definition idle_ids :: "connection_pool \<Rightarrow> nat multiset" where
  "idle_ids p = mset (map sock_id (concat (free_sockets p)))"

definition held_ids :: "(nat \<times> socket) multiset \<Rightarrow> nat multiset" where
  "held_ids H = image_mset (\<lambda>(i, s). sock_id s) H"

inductive pool_step :: "pool_sys \<Rightarrow> pool_sys \<Rightarrow> bool" where
  take_pooled: "acquire_begin i (pool y) = Inr (Some s, p) \<Longrightarrow>
    pool_step y \<lparr>pool = p, held = add_mset (i, s) (held y)\<rparr>"
| take_fresh: "acquire_end i (Inr s) (pool y) = Inr (s, p) \<Longrightarrow>
    sock_id s \<notin># idle_ids (pool y) + held_ids (held y) \<Longrightarrow>
    pool_step y \<lparr>pool = p, held = add_mset (i, s) (held y)\<rparr>"
| warm: "connect (pool y) i env = Inr s \<Longrightarrow>
    sock_id s \<notin># idle_ids (pool y) + held_ids (held y) \<Longrightarrow>
    pool_step y (y\<lparr>pool := push_free i s (pool y)\<rparr>)"
| give_back: "(i, s) \<in># held y \<Longrightarrow> release i s healthy (pool y) = Inr p \<Longrightarrow>
    pool_step y \<lparr>pool = p, held = held y - {#(i, s)#}\<rparr>"

inductive pool_reachable :: "BackendConfig list \<Rightarrow> pool_sys \<Rightarrow> bool" for bs where
  start: "pool_reachable bs \<lparr>pool = new_pool bs, held = {#}\<rparr>"
| step: "pool_reachable bs y \<Longrightarrow> pool_step y y' \<Longrightarrow> pool_reachable bs y'"

text \<open>Every identity occurs once, in one free list or with one client, and the counters agree.\<close>

definition pool_inv :: "pool_sys \<Rightarrow> bool" where
  "pool_inv y \<longleftrightarrow> pool_ok (pool y) \<and> pc.balanced (pool y) (image_mset fst (held y)) \<and>
     (\<forall>k. count (idle_ids (pool y) + held_ids (held y)) k \<le> 1)"

lemma mset_concat_update:
  "i < length xss \<Longrightarrow> mset (concat (xss[i := ys])) + mset (xss ! i) = mset (concat xss) + mset ys"
proof (induction xss arbitrary: i)
  case (Cons xs xss)
  then show ?case by (cases i) (auto simp: ac_simps)
qed simp

lemma idle_ids_update:
  assumes "i < length (free_sockets p)" and "free_sockets q = (free_sockets p)[i := fs]"
  shows "idle_ids q + mset (map sock_id (free_sockets p ! i)) = idle_ids p + mset (map sock_id fs)"
  using arg_cong [OF mset_concat_update [OF assms(1), of fs], of "image_mset sock_id"] assms(2)
  by (simp add: idle_ids_def mset_map)

lemma idle_ids_cong: "free_sockets q = free_sockets p \<Longrightarrow> idle_ids q = idle_ids p"
  by (simp add: idle_ids_def)

lemma idle_ids_push:
  assumes "i < length (free_sockets p)"
    and "free_sockets q = (free_sockets p)[i := free_sockets p ! i @ [s]]"
  shows "idle_ids q = add_mset (sock_id s) (idle_ids p)"
  using idle_ids_update [OF assms] by simp

lemma idle_ids_pop:
  assumes "i < length (free_sockets p)" and "free_sockets p ! i = fs @ [s]"
    and "free_sockets q = (free_sockets p)[i := fs]"
  shows "add_mset (sock_id s) (idle_ids q) = idle_ids p"
  using idle_ids_update [OF assms(1,3)] assms(2) by simp

lemma held_ids_add [simp]: "held_ids (add_mset (i, s) H) = add_mset (sock_id s) (held_ids H)"
  by (simp add: held_ids_def)

lemma held_ids_remove:
  "(i, s) \<in># H \<Longrightarrow> add_mset (sock_id s) (held_ids (H - {#(i, s)#})) = held_ids H"
  by (metis held_ids_add insert_DiffM)

lemma pool_inv_start: "pool_inv \<lparr>pool = new_pool bs, held = {#}\<rparr>"
  by (simp add: pool_inv_def pc.balanced_def held_ids_def idle_ids_def)
    (simp add: new_pool_def concat_replicate_trivial)

lemma balanced_push_free [simp]: "pc.balanced (push_free i s p) H = pc.balanced p H"
  by (simp add: pc.balanced_def push_free_def)

lemma pool_inv_take_pooled:
  assumes inv: "pool_inv y" and take: "acquire_begin i (pool y) = Inr (Some s, p)"
  shows "pool_inv \<lparr>pool = p, held = add_mset (i, s) (held y)\<rparr>"
proof -
  have ok: "pool_ok (pool y)" using inv by (simp add: pool_inv_def)
  then have co: "pool_checkout i (pool y) p" using take by (auto simp: pool_checkout_def)
  obtain fs where i: "i < length (backends (pool y))" and fs: "free_sockets (pool y) ! i = fs @ [s]"
    and p: "p = (pool y)\<lparr>free_sockets := (free_sockets (pool y))[i := fs],
             active_counts := (active_counts (pool y))[i := active_counts (pool y) ! i + 1]\<rparr>"
    using acquire_begin_cases [OF ok take] by auto
  have "add_mset (sock_id s) (idle_ids p) = idle_ids (pool y)"
    using idle_ids_pop [OF _ fs, of p] i ok by (simp add: p pool_ok_def)
  then have "idle_ids p + held_ids (add_mset (i, s) (held y)) = idle_ids (pool y) + held_ids (held y)"
    by (metis add_mset_add_single held_ids_add union_mset_add_mset_left union_mset_add_mset_right)
  then have "\<forall>k. count (idle_ids p + held_ids (add_mset (i, s) (held y))) k \<le> 1"
    using inv unfolding pool_inv_def by metis
  then show ?thesis
    using inv pc.balanced_checkout [OF _ co] pool_checkout_counts [OF co] by (simp add: pool_inv_def)
qed

lemma pool_inv_take_fresh:
  assumes inv: "pool_inv y" and take: "acquire_end i (Inr s) (pool y) = Inr (s, p)"
    and new: "sock_id s \<notin># idle_ids (pool y) + held_ids (held y)"
  shows "pool_inv \<lparr>pool = p, held = add_mset (i, s) (held y)\<rparr>"
proof -
  have ok: "pool_ok (pool y)" using inv by (simp add: pool_inv_def)
  then have co: "pool_checkout i (pool y) p" using take by (auto simp: pool_checkout_def)
  have p: "idle_ids p = idle_ids (pool y)"
    using acquire_end_cases [OF ok take] by (auto intro: idle_ids_cong)
  have "count (idle_ids (pool y) + held_ids (held y)) (sock_id s) = 0" using new by (simp only: not_in_iff)
  then show ?thesis
    using inv pc.balanced_checkout [OF _ co] pool_checkout_counts [OF co] by (auto simp: pool_inv_def p)
qed

lemma pool_inv_warm:
  assumes inv: "pool_inv y" and "connect (pool y) i env = Inr s"
    and new: "sock_id s \<notin># idle_ids (pool y) + held_ids (held y)"
  shows "pool_inv (y\<lparr>pool := push_free i s (pool y)\<rparr>)"
proof -
  have i: "i < length (free_sockets (pool y))"
    using assms(1,2) by (auto simp: connect_def bind_result_eq_Inr vec_at_eq_Inr pool_ok_def pool_inv_def)
  have "count (idle_ids (pool y) + held_ids (held y)) (sock_id s) = 0" using new by (simp only: not_in_iff)
  moreover have "idle_ids (push_free i s (pool y)) = add_mset (sock_id s) (idle_ids (pool y))"
    by (rule idle_ids_push [OF i]) (simp add: push_free_def)
  ultimately show ?thesis using inv by (auto simp: pool_inv_def)
qed

lemma release_idle_ids:
  assumes ok: "pool_ok q" and rel: "release i s healthy q = Inr p"
  shows "idle_ids p = (if healthy \<and> sock_open s then add_mset (sock_id s) (idle_ids q) else idle_ids q)"
proof -
  have i: "i < length (free_sockets q)" using release_cases [OF ok rel] ok by (simp add: pool_ok_def)
  show ?thesis
    using release_cases [OF ok rel] idle_ids_push [OF i, of p s] idle_ids_cong [of p q]
    by (cases "healthy \<and> sock_open s") auto
qed

lemma pool_inv_give_back:
  assumes inv: "pool_inv y" and mine: "(i, s) \<in># held y" and rel: "release i s healthy (pool y) = Inr p"
  shows "pool_inv \<lparr>pool = p, held = held y - {#(i, s)#}\<rparr>"
proof -
  have ok: "pool_ok (pool y)" using inv by (simp add: pool_inv_def)
  then have ci: "pool_checkin i (pool y) p" using rel by (auto simp: pool_checkin_def)
  have "count (idle_ids p + held_ids (held y - {#(i, s)#})) k \<le> count (idle_ids (pool y) + held_ids (held y)) k" for k
    using held_ids_remove [OF mine, symmetric] by (simp add: release_idle_ids [OF ok rel])
  then have "count (idle_ids p + held_ids (held y - {#(i, s)#})) k \<le> 1" for k
    using inv le_trans unfolding pool_inv_def by blast
  moreover have "i \<in># image_mset fst (held y)" using mine by force
  moreover have "image_mset fst (held y - {#(i, s)#}) = image_mset fst (held y) - {#i#}"
    using mine by (simp add: image_mset_Diff)
  ultimately show ?thesis
    using inv pc.balanced_checkin [OF _ _ ci] pool_checkin_counts [OF ci] by (simp add: pool_inv_def)
qed

lemma pool_inv_step: "pool_step y y' \<Longrightarrow> pool_inv y \<Longrightarrow> pool_inv y'"
  by (induction rule: pool_step.induct)
    (simp_all add: pool_inv_take_pooled pool_inv_take_fresh pool_inv_warm pool_inv_give_back)

lemma pool_reachable_inv: "pool_reachable bs y \<Longrightarrow> pool_inv y"
proof (induction rule: pool_reachable.induct)
  case start
  show ?case by (rule pool_inv_start)
next
  case (step y y')
  then show ?case by (blast intro: pool_inv_step)
qed

section \<open>Warm-up\<close>

text \<open>The connects that succeed among the attempts for one backend.\<close>

definition warm_successes :: "connection_pool \<Rightarrow> nat \<Rightarrow> net list \<Rightarrow> socket list" where
  "warm_successes p i envs = [s. Inr s \<leftarrow> map (connect p i) envs]"

lemma warm_successes_cong:
  "backends q = backends p \<Longrightarrow> warm_successes q i envs = warm_successes p i envs"
proof -
  assume "backends q = backends p"
  then have "connect q i = connect p i" by (simp add: connect_def fun_eq_iff)
  then show ?thesis by (simp add: warm_successes_def)
qed

lemma push_free_twice:
  "i < length (free_sockets p) \<Longrightarrow>
   (push_free i s p)\<lparr>free_sockets := (free_sockets (push_free i s p))
      [i := free_sockets (push_free i s p) ! i @ ss]\<rparr> =
   p\<lparr>free_sockets := (free_sockets p)[i := free_sockets p ! i @ s # ss]\<rparr>"
  by (simp add: push_free_def)

lemma warm_backend_pool:
  assumes "i < length (free_sockets p)"
  shows "\<exists>out'. warm_backend i cfg envs p c out =
    (p\<lparr>free_sockets := (free_sockets p)[i := free_sockets p ! i @ warm_successes p i envs]\<rparr>,
     c + length (warm_successes p i envs), out')"
  using assms
proof (induction i cfg envs p c out rule: warm_backend.induct)
  case (1 i cfg p c out)
  then show ?case by (simp add: warm_successes_def)
next
  case (2 i cfg env envs p c out)
  show ?case
  proof (cases "connect p i env")
    case (Inl e)
    with 2 show ?thesis by (simp add: warm_successes_def)
  next
    case (Inr s)
    have len: "i < length (free_sockets (push_free i s p))"
      using "2.prems" by (simp add: push_free_def)
    have tail: "warm_successes (push_free i s p) i envs = warm_successes p i envs"
      by (rule warm_successes_cong) (simp add: push_free_def)
    have "warm_successes p i (env # envs) = s # warm_successes p i envs"
      using Inr by (simp add: warm_successes_def)
    then show ?thesis
      using "2.IH"(2) [OF Inr len] Inr by (simp add: push_free_twice [OF "2.prems"] tail)
  qed
qed

lemma warm_one_pool:
  assumes "pool_ok p" and "i < length (backends p)"
  shows "fst (warm_one envs i (p, out)) =
    p\<lparr>free_sockets := (free_sockets p)[i := free_sockets p ! i @
        warm_successes p i (map (envs i) [0..<min_pool_size (backends p ! i)])]\<rparr>"
proof -
  have "i < length (free_sockets p)" using assms by (simp add: pool_ok_def)
  from warm_backend_pool [OF this] show ?thesis
    by (simp add: warm_one_def split_def) (metis fst_conv)
qed

lemma warm_fold_pool:
  assumes "pool_ok p" and "k \<le> length (backends p)"
  shows "pool_ok (fst (fold (warm_one envs) [0..<k] (p, []))) \<and>
    backends (fst (fold (warm_one envs) [0..<k] (p, []))) = backends p \<and>
    active_counts (fst (fold (warm_one envs) [0..<k] (p, []))) = active_counts p \<and>
    (\<forall>i < length (backends p). free_sockets (fst (fold (warm_one envs) [0..<k] (p, []))) ! i =
       free_sockets p ! i @ (if i < k
         then warm_successes p i (map (envs i) [0..<min_pool_size (backends p ! i)]) else []))"
  using assms(2)
proof (induction k)
  case 0
  then show ?case using assms(1) by simp
next
  case (Suc k)
  let ?q = "fold (warm_one envs) [0..<k] (p, [])"
  have IH: "pool_ok (fst ?q)" "backends (fst ?q) = backends p" "active_counts (fst ?q) = active_counts p"
    and free: "\<forall>i < length (backends p). free_sockets (fst ?q) ! i =
       free_sockets p ! i @ (if i < k
         then warm_successes p i (map (envs i) [0..<min_pool_size (backends p ! i)]) else [])"
    using Suc by auto
  have same: "warm_successes (fst ?q) i es = warm_successes p i es" for i es
    using IH(2) by (rule warm_successes_cong)
  have "fst (fold (warm_one envs) [0..<Suc k] (p, [])) = fst (warm_one envs k (fst ?q, snd ?q))"
    by simp
  also have "\<dots> = (fst ?q)\<lparr>free_sockets := (free_sockets (fst ?q))[k := free_sockets (fst ?q) ! k @
      warm_successes p k (map (envs k) [0..<min_pool_size (backends p ! k)])]\<rparr>"
    using warm_one_pool [OF IH(1), of k envs "snd ?q"] IH(2) Suc.prems by (simp add: same)
  finally show ?case
    using IH free Suc.prems by (auto simp: pool_ok_def nth_list_update)
qed

section \<open>Properties\<close>

text \<open>C28: In every reachable state of the pool and its clients, no socket is idle twice, idle and in
  use, or in use by two clients, and \<^verbatim>\<open>active_count\<close> of a backend is the number of its sockets
  clients hold.\<close>

theorem pool_sockets_linear:
  assumes "pool_reachable bs y"
  shows "count (idle_ids (pool y) + held_ids (held y)) k \<le> 1 \<and>
    (i < length (backends (pool y)) \<longrightarrow>
       active_count i (pool y) = Inr (int (size {#h \<in># held y. fst h = i#})))"
proof -
  have inv: "pool_inv y" using assms by (rule pool_reachable_inv)
  have "count (image_mset fst H) i = size {#h \<in># H. fst h = i#}" for H :: "(nat \<times> socket) multiset"
    by (induction H) auto
  with inv show ?thesis
    by (simp add: pool_inv_def pc.balanced_def pool_ok_def active_count_def)
qed

theorem pool_sockets_linear_witness:
  "\<exists>y. pool_reachable [\<lparr>host = ''h'', port = ''1'', min_pool_size = 4\<rparr>] y \<and>
     held y = {#(0, \<lparr>sock_id = 7, sock_open = True\<rparr>)#} \<and> active_count 0 (pool y) = Inr 1"
proof -
  let ?bs = "[\<lparr>host = ''h'', port = ''1'', min_pool_size = 4\<rparr>]"
  let ?s = "\<lparr>sock_id = 7, sock_open = True\<rparr>"
  let ?y = "\<lparr>pool = (new_pool ?bs)\<lparr>active_counts := [1]\<rparr>, held = {#(0, ?s)#}\<rparr>"
  have "pool_step \<lparr>pool = new_pool ?bs, held = {#}\<rparr> ?y"
    using pool_step.take_fresh [of 0 ?s "\<lparr>pool = new_pool ?bs, held = {#}\<rparr>"]
    by (simp add: new_pool_def acquire_end_def add_active_def idle_ids_def held_ids_def)
  then have r: "pool_reachable ?bs ?y" by (rule pool_reachable.step [OF pool_reachable.start])
  have "active_count 0 (pool ?y) = Inr 1"
    using pool_sockets_linear [OF r, of 7 0] by (simp add: new_pool_def)
  with r show ?thesis by (intro exI [of _ ?y]) simp
qed

text \<open>A socket released healthy and still open is the next one acquired for that backend, and
  the hand-out restores the pool: the free list is a stack.\<close>

theorem release_then_acquire:
  assumes "pool_ok p" and "i < length (backends p)" and "sock_open s"
  shows "bind_result (release i s True p) (acquire_begin i) = Inr (Some s, p)"
proof -
  let ?q = "p\<lparr>active_counts := (active_counts p)[i := active_counts p ! i - 1],
             free_sockets := (free_sockets p)[i := free_sockets p ! i @ [s]]\<rparr>"
  have "release i s True p = Inr ?q" using assms by (simp add: release_in_range)
  moreover have "acquire_begin i ?q = Inr (Some s, p)"
    using assms by (subst acquire_begin_in_range) (auto simp: pool_ok_def nth_list_update)
  ultimately show ?thesis by simp
qed

theorem release_then_acquire_witness:
  "bind_result (release 0 \<lparr>sock_id = 7, sock_open = True\<rparr> True
       (new_pool [\<lparr>host = ''h'', port = ''1'', min_pool_size = 4\<rparr>])) (acquire_begin 0) =
     Inr (Some \<lparr>sock_id = 7, sock_open = True\<rparr>, new_pool [\<lparr>host = ''h'', port = ''1'', min_pool_size = 4\<rparr>])"
  by (rule release_then_acquire) (simp_all add: new_pool_def pool_ok_def)

text \<open>Warming up appends to each backend's free list exactly the sockets of the successful
  connects among its \<^verbatim>\<open>min_pool_size\<close> attempts; failed connects are only logged, and no counter
  moves.\<close>

lemma warm_up_fills_pool:
  assumes "i < length bs"
  shows "free_sockets (fst (warm_up envs (new_pool bs))) ! i =
      warm_successes (new_pool bs) i (map (envs i) [0..<min_pool_size (bs ! i)]) \<and>
    active_counts (fst (warm_up envs (new_pool bs))) = active_counts (new_pool bs) \<and>
    pool_ok (fst (warm_up envs (new_pool bs)))"
  using warm_fold_pool [OF pool_ok_new, of "length bs" bs envs] assms
  by (simp add: warm_up_def new_pool_def)

end
