(* ===== verification/Metrics.thy ===== *)
theory Metrics
  imports Aegis_Prelude
begin

text \<open>
  The registry of \<^verbatim>\<open>src/metrics.hpp\<close>: 64-bit counters that wrap, gauges, and the Prometheus
  text of a scrape. Every access to a per-backend cell is checked (\<^verbatim>\<open>std::vector::at\<close>), so an
  operation with a bad index is an exception.

  The results: counters count, modulo \<open>2 ^ 64\<close>, exactly the calls made and gauges hold the last
  value stored; and a scrape can be parsed back to every value of the registry.
\<close>

section \<open>State and operations\<close>

record metrics_registry =
  total_requests :: u64
  rate_limited :: u64
  fallback_503 :: u64
  backend_success :: "u64 list"
  backend_failure :: "u64 list"
  breaker_state :: "int list"
  pool_active :: "int list"
  pool_idle :: "int list"

definition new_metrics :: "nat \<Rightarrow> metrics_registry" where
  "new_metrics n = \<lparr>total_requests = 0, rate_limited = 0, fallback_503 = 0,
     backend_success = replicate n 0, backend_failure = replicate n 0,
     breaker_state = replicate n 0, pool_active = replicate n 0, pool_idle = replicate n 0\<rparr>"

definition record_request_received :: "metrics_registry \<Rightarrow> metrics_registry" where
  "record_request_received m = m\<lparr>total_requests := total_requests m + 1\<rparr>"

definition record_rate_limited :: "metrics_registry \<Rightarrow> metrics_registry" where
  "record_rate_limited m = m\<lparr>rate_limited := rate_limited m + 1\<rparr>"

definition record_fallback_503 :: "metrics_registry \<Rightarrow> metrics_registry" where
  "record_fallback_503 m = m\<lparr>fallback_503 := fallback_503 m + 1\<rparr>"

definition record_backend_success :: "nat \<Rightarrow> metrics_registry \<Rightarrow> metrics_registry result" where
  "record_backend_success i m =
     bind_result (vec_modify (backend_success m) i (\<lambda>c. c + 1)) (\<lambda>cs. Inr (m\<lparr>backend_success := cs\<rparr>))"

definition record_backend_failure :: "nat \<Rightarrow> metrics_registry \<Rightarrow> metrics_registry result" where
  "record_backend_failure i m =
     bind_result (vec_modify (backend_failure m) i (\<lambda>c. c + 1)) (\<lambda>cs. Inr (m\<lparr>backend_failure := cs\<rparr>))"

definition set_breaker_state :: "nat \<Rightarrow> int \<Rightarrow> metrics_registry \<Rightarrow> metrics_registry result" where
  "set_breaker_state i st m =
     bind_result (vec_modify (breaker_state m) i (\<lambda>_. st)) (\<lambda>gs. Inr (m\<lparr>breaker_state := gs\<rparr>))"

definition set_pool_active :: "nat \<Rightarrow> int \<Rightarrow> metrics_registry \<Rightarrow> metrics_registry result" where
  "set_pool_active i n m =
     bind_result (vec_modify (pool_active m) i (\<lambda>_. n)) (\<lambda>gs. Inr (m\<lparr>pool_active := gs\<rparr>))"

definition set_pool_idle :: "nat \<Rightarrow> int \<Rightarrow> metrics_registry \<Rightarrow> metrics_registry result" where
  "set_pool_idle i n m =
     bind_result (vec_modify (pool_idle m) i (\<lambda>_. n)) (\<lambda>gs. Inr (m\<lparr>pool_idle := gs\<rparr>))"

section \<open>The scrape\<close>

definition nl :: string where
  "nl = [CHR 0x0A]"

definition prom_header :: "string \<Rightarrow> string \<Rightarrow> string \<Rightarrow> string" where
  "prom_header name doc kind =
     ''# HELP '' @ name @ '' '' @ doc @ nl @ ''# TYPE '' @ name @ '' '' @ kind @ nl"

text \<open>One line per backend; the label is \<^verbatim>\<open>{backend="i"}\<close>.\<close>

definition backend_label :: "string \<Rightarrow> nat \<Rightarrow> string" where
  "backend_label name i = name @ ''{backend='' @ [CHR 0x22] @ to_string i @ [CHR 0x22] @ ''}''"

definition prom_rows :: "string \<Rightarrow> ('v \<Rightarrow> string) \<Rightarrow> 'v list \<Rightarrow> string" where
  "prom_rows name fmt vs =
     concat (map (\<lambda>i. backend_label name i @ '' '' @ fmt (vs ! i) @ nl) [0..<length vs])"

definition u64_text :: "u64 \<Rightarrow> string" where
  "u64_text v = to_string (unat v)"

definition render_prometheus :: "metrics_registry \<Rightarrow> string" where
  "render_prometheus m =
     prom_header ''aegis_requests_total'' ''Total requests accepted by the listener'' ''counter'' @
     ''aegis_requests_total '' @ u64_text (total_requests m) @ nl @
     prom_header ''aegis_rate_limited_total'' ''Requests rejected with HTTP 429'' ''counter'' @
     ''aegis_rate_limited_total '' @ u64_text (rate_limited m) @ nl @
     prom_header ''aegis_fallback_503_total'' ''Requests exhausted all retry attempts'' ''counter'' @
     ''aegis_fallback_503_total '' @ u64_text (fallback_503 m) @ nl @
     prom_header ''aegis_backend_success_total'' ''Successful relays per backend'' ''counter'' @
     prom_rows ''aegis_backend_success_total'' u64_text (backend_success m) @
     prom_header ''aegis_backend_failure_total'' ''Failed attempts per backend'' ''counter'' @
     prom_rows ''aegis_backend_failure_total'' u64_text (backend_failure m) @
     prom_header ''aegis_breaker_state''
       ''Circuit breaker state per backend (0=CLOSED, 1=OPEN, 2=HALF_OPEN)'' ''gauge'' @
     prom_rows ''aegis_breaker_state'' int_to_string (breaker_state m) @
     prom_header ''aegis_pool_active_connections'' ''Checked-out connections per backend'' ''gauge'' @
     prom_rows ''aegis_pool_active_connections'' int_to_string (pool_active m) @
     prom_header ''aegis_pool_idle_connections'' ''Idle (pooled, warm) connections per backend'' ''gauge'' @
     prom_rows ''aegis_pool_idle_connections'' int_to_string (pool_idle m)"

section \<open>A scraper\<close>

text \<open>What a Prometheus scraper reads: every line that is no comment is a series and its value,
  with one blank between them.\<close>

definition is_comment :: "string \<Rightarrow> bool" where
  "is_comment l \<longleftrightarrow> take 1 l = ''#''"

definition parse_sample :: "string \<Rightarrow> string \<times> int" where
  "parse_sample l = (fst (cut CHR '' '' l), parse_int (snd (cut CHR '' '' l)))"

definition parse_prometheus :: "string \<Rightarrow> (string \<times> int) list" where
  "parse_prometheus s = map parse_sample (filter (\<lambda>l. \<not> is_comment l) (split_on (CHR 0x0A) s))"

definition backend_samples :: "string \<Rightarrow> ('v \<Rightarrow> int) \<Rightarrow> 'v list \<Rightarrow> (string \<times> int) list" where
  "backend_samples name num vs = map (\<lambda>i. (backend_label name i, num (vs ! i))) [0..<length vs]"

definition samples :: "metrics_registry \<Rightarrow> (string \<times> int) list" where
  "samples m =
     [(''aegis_requests_total'', uint (total_requests m)),
      (''aegis_rate_limited_total'', uint (rate_limited m)),
      (''aegis_fallback_503_total'', uint (fallback_503 m))] @
     backend_samples ''aegis_backend_success_total'' uint (backend_success m) @
     backend_samples ''aegis_backend_failure_total'' uint (backend_failure m) @
     backend_samples ''aegis_breaker_state'' (\<lambda>v. v) (breaker_state m) @
     backend_samples ''aegis_pool_active_connections'' (\<lambda>v. v) (pool_active m) @
     backend_samples ''aegis_pool_idle_connections'' (\<lambda>v. v) (pool_idle m)"

text \<open>
  A text of whole lines contributes its samples independently of what follows it:
  \<open>yields s xs\<close> says that \<open>s\<close> is such a text and \<open>xs\<close> are its samples.
\<close>

definition yields :: "string \<Rightarrow> (string \<times> int) list \<Rightarrow> bool" where
  "yields s xs \<longleftrightarrow> (\<exists>ls. (\<forall>l \<in> set ls. CHR 0x0A \<notin> set l) \<and> s = concat (map (\<lambda>l. l @ nl) ls) \<and>
     map parse_sample (filter (\<lambda>l. \<not> is_comment l) ls) = xs)"

lemma yields_parse: "yields s xs \<Longrightarrow> parse_prometheus s = xs"
  by (auto simp: yields_def nl_def parse_prometheus_def split_on_terminated)

lemma yields_Nil: "yields [] []"
  unfolding yields_def by (intro exI [of _ "[]"]) simp

lemma yields_append:
  assumes "yields s xs" and "yields t ys"
  shows "yields (s @ t) (xs @ ys)"
proof -
  from assms obtain ls ks where "\<forall>l \<in> set ls. CHR 0x0A \<notin> set l" "s = concat (map (\<lambda>l. l @ nl) ls)"
    "map parse_sample (filter (\<lambda>l. \<not> is_comment l) ls) = xs"
    "\<forall>l \<in> set ks. CHR 0x0A \<notin> set l" "t = concat (map (\<lambda>l. l @ nl) ks)"
    "map parse_sample (filter (\<lambda>l. \<not> is_comment l) ks) = ys"
    unfolding yields_def by blast
  then show ?thesis unfolding yields_def by (intro exI [of _ "ls @ ks"]) auto
qed

lemma yields_concat:
  "(\<And>x. x \<in> set xs \<Longrightarrow> yields (f x) [g x]) \<Longrightarrow> yields (concat (map f xs)) (map g xs)"
proof (induction xs)
  case (Cons x xs)
  then have "yields (f x @ concat (map f xs)) ([g x] @ map g xs)" by (intro yields_append) simp_all
  then show ?case by simp
qed (simp add: yields_Nil)

lemma yields_header:
  assumes "CHR 0x0A \<notin> set name" and "CHR 0x0A \<notin> set doc" and "CHR 0x0A \<notin> set kind"
  shows "yields (prom_header name doc kind) []"
  unfolding yields_def prom_header_def
  by (rule exI [of _ "[''# HELP '' @ name @ '' '' @ doc, ''# TYPE '' @ name @ '' '' @ kind]"])
    (use assms in \<open>simp add: is_comment_def\<close>)

lemma yields_sample:
  assumes "CHR 0x0A \<notin> set name" and "CHR '' '' \<notin> set name" and "take 1 name \<noteq> ''#''" and "name \<noteq> []"
    and "CHR 0x0A \<notin> set val" and "parse_int val = z"
  shows "yields (name @ '' '' @ val @ nl) [(name, z)]"
proof -
  have "\<not> is_comment (name @ '' '' @ val)"
    using assms(3,4) by (cases name) (simp_all add: is_comment_def)
  then show ?thesis
    unfolding yields_def
    by (intro exI [of _ "[name @ '' '' @ val]"])
      (use assms in \<open>simp add: parse_sample_def cut_append\<close>)
qed

lemma notin_label: "CHR 0x0A \<notin> set (backend_label name i) \<longleftrightarrow> CHR 0x0A \<notin> set name"
  "CHR '' '' \<notin> set (backend_label name i) \<longleftrightarrow> CHR '' '' \<notin> set name"
  using not_digit_notin_to_string [of "CHR 0x0A" i] not_digit_notin_to_string [of "CHR '' ''" i]
  by (simp_all add: backend_label_def is_digit_def)

lemma yields_rows:
  assumes "CHR 0x0A \<notin> set name" and "CHR '' '' \<notin> set name" and "take 1 name \<noteq> ''#''" and "name \<noteq> []"
    and "\<And>v. CHR 0x0A \<notin> set (fmt v)" and "\<And>v. parse_int (fmt v) = num v"
  shows "yields (prom_rows name fmt vs) (backend_samples name num vs)"
  unfolding prom_rows_def backend_samples_def
proof (rule yields_concat)
  fix i
  have "take 1 (backend_label name i) = take 1 name" "backend_label name i \<noteq> []"
    using assms(4) by (cases name; simp add: backend_label_def)+
  then show "yields (backend_label name i @ '' '' @ fmt (vs ! i) @ nl) [(backend_label name i, num (vs ! i))]"
    using assms by (intro yields_sample) (simp_all add: notin_label)
qed

lemma number_text:
  "CHR 0x0A \<notin> set (u64_text v)" "parse_int (u64_text v) = uint v"
  "CHR 0x0A \<notin> set (int_to_string z)"
  using not_digit_notin_to_string [of "CHR 0x0A" "unat v"] notin_int_to_string [of "CHR 0x0A" z]
  by (simp_all add: u64_text_def is_digit_def)

text \<open>The two kinds of blocks of the scrape, for names and texts without control characters.\<close>

definition plain :: "string \<Rightarrow> string \<Rightarrow> string \<Rightarrow> bool" where
  "plain name doc kind \<longleftrightarrow> CHR 0x0A \<notin> set name \<and> CHR '' '' \<notin> set name \<and> take 1 name \<noteq> ''#'' \<and>
     name \<noteq> [] \<and> CHR 0x0A \<notin> set doc \<and> CHR 0x0A \<notin> set kind"

lemma yields_counter:
  assumes "plain name doc kind"
  shows "yields (prom_header name doc kind @ name @ '' '' @ u64_text v @ nl) [(name, uint v)]"
  using yields_append [OF yields_header yields_sample, of name doc kind name "u64_text v" "uint v"]
    assms number_text by (simp add: plain_def)

lemma yields_vector:
  assumes "\<And>v. CHR 0x0A \<notin> set (fmt v)" and "\<And>v. parse_int (fmt v) = num v" and "plain name doc kind"
  shows "yields (prom_header name doc kind @ prom_rows name fmt vs) (backend_samples name num vs)"
  using yields_append [OF yields_header yields_rows, of name doc kind name fmt num vs] assms
  by (simp add: plain_def)

section \<open>Sequences of calls\<close>

datatype metric_op =
  Request_Received | Rate_Limited | Fallback_503
  | Backend_Success nat | Backend_Failure nat
  | Breaker_State nat int | Pool_Active nat int | Pool_Idle nat int

fun metric_apply :: "metric_op \<Rightarrow> metrics_registry \<Rightarrow> metrics_registry result" where
  "metric_apply Request_Received m = Inr (record_request_received m)"
| "metric_apply Rate_Limited m = Inr (record_rate_limited m)"
| "metric_apply Fallback_503 m = Inr (record_fallback_503 m)"
| "metric_apply (Backend_Success i) m = record_backend_success i m"
| "metric_apply (Backend_Failure i) m = record_backend_failure i m"
| "metric_apply (Breaker_State i s) m = set_breaker_state i s m"
| "metric_apply (Pool_Active i n) m = set_pool_active i n m"
| "metric_apply (Pool_Idle i n) m = set_pool_idle i n m"

fun metric_run :: "metric_op list \<Rightarrow> metrics_registry \<Rightarrow> metrics_registry result" where
  "metric_run [] m = Inr m"
| "metric_run (x # xs) m = bind_result (metric_apply x m) (metric_run xs)"

fun metric_index :: "metric_op \<Rightarrow> nat option" where
  "metric_index (Backend_Success i) = Some i"
| "metric_index (Backend_Failure i) = Some i"
| "metric_index (Breaker_State i _) = Some i"
| "metric_index (Pool_Active i _) = Some i"
| "metric_index (Pool_Idle i _) = Some i"
| "metric_index _ = None"

definition in_range :: "nat \<Rightarrow> metric_op \<Rightarrow> bool" where
  "in_range n x \<longleftrightarrow> (case metric_index x of None \<Rightarrow> True | Some i \<Rightarrow> i < n)"

text \<open>All vectors have one cell per backend.\<close>

definition metrics_ok :: "nat \<Rightarrow> metrics_registry \<Rightarrow> bool" where
  "metrics_ok n m \<longleftrightarrow> length (backend_success m) = n \<and> length (backend_failure m) = n \<and>
     length (breaker_state m) = n \<and> length (pool_active m) = n \<and> length (pool_idle m) = n"

lemmas metrics_defs = record_request_received_def record_rate_limited_def record_fallback_503_def
  record_backend_success_def record_backend_failure_def set_breaker_state_def set_pool_active_def
  set_pool_idle_def

lemma metrics_ok_new [simp]: "metrics_ok n (new_metrics n)"
  by (simp add: metrics_ok_def new_metrics_def)

lemma metric_apply_ok:
  "metrics_ok n m \<Longrightarrow> in_range n x \<Longrightarrow> \<exists>m'. metric_apply x m = Inr m' \<and> metrics_ok n m'"
  by (cases x) (auto simp: metrics_ok_def metrics_defs in_range_def)

lemma metric_apply_out:
  "metrics_ok n m \<Longrightarrow> \<not> in_range n x \<Longrightarrow> metric_apply x m = Inl Out_Of_Range"
  by (cases x) (auto simp: metrics_ok_def metrics_defs in_range_def)

text \<open>The last value a gauge was given.\<close>

fun last_set :: "(metric_op \<Rightarrow> int option) \<Rightarrow> metric_op list \<Rightarrow> int \<Rightarrow> int" where
  "last_set g [] z = z"
| "last_set g (x # xs) z = last_set g xs (case g x of None \<Rightarrow> z | Some v \<Rightarrow> v)"

definition breaker_gauge :: "nat \<Rightarrow> metric_op \<Rightarrow> int option" where
  "breaker_gauge i x = (case x of Breaker_State j s \<Rightarrow> if j = i then Some s else None | _ \<Rightarrow> None)"

definition active_gauge :: "nat \<Rightarrow> metric_op \<Rightarrow> int option" where
  "active_gauge i x = (case x of Pool_Active j s \<Rightarrow> if j = i then Some s else None | _ \<Rightarrow> None)"

definition idle_gauge :: "nat \<Rightarrow> metric_op \<Rightarrow> int option" where
  "idle_gauge i x = (case x of Pool_Idle j s \<Rightarrow> if j = i then Some s else None | _ \<Rightarrow> None)"

lemma metric_apply_effect:
  assumes "metrics_ok n m" and "metric_apply x m = Inr m'"
  shows "metrics_ok n m' \<and> total_requests m' = total_requests m + of_bool (x = Request_Received) \<and>
    rate_limited m' = rate_limited m + of_bool (x = Rate_Limited) \<and>
    fallback_503 m' = fallback_503 m + of_bool (x = Fallback_503) \<and>
    (\<forall>i < n. backend_success m' ! i = backend_success m ! i + of_bool (x = Backend_Success i) \<and>
       backend_failure m' ! i = backend_failure m ! i + of_bool (x = Backend_Failure i) \<and>
       breaker_state m' ! i = (case breaker_gauge i x of None \<Rightarrow> breaker_state m ! i | Some v \<Rightarrow> v) \<and>
       pool_active m' ! i = (case active_gauge i x of None \<Rightarrow> pool_active m ! i | Some v \<Rightarrow> v) \<and>
       pool_idle m' ! i = (case idle_gauge i x of None \<Rightarrow> pool_idle m ! i | Some v \<Rightarrow> v))"
  using assms
  by (cases x) (auto simp: metrics_ok_def metrics_defs bind_result_eq_Inr vec_modify_eq_Inr
      nth_list_update breaker_gauge_def active_gauge_def idle_gauge_def)

lemma metric_run_effect:
  assumes "metrics_ok n m" and "metric_run xs m = Inr m'"
  shows "metrics_ok n m' \<and> total_requests m' = total_requests m + of_nat (count_list xs Request_Received) \<and>
    rate_limited m' = rate_limited m + of_nat (count_list xs Rate_Limited) \<and>
    fallback_503 m' = fallback_503 m + of_nat (count_list xs Fallback_503) \<and>
    (\<forall>i < n. backend_success m' ! i = backend_success m ! i + of_nat (count_list xs (Backend_Success i)) \<and>
       backend_failure m' ! i = backend_failure m ! i + of_nat (count_list xs (Backend_Failure i)) \<and>
       breaker_state m' ! i = last_set (breaker_gauge i) xs (breaker_state m ! i) \<and>
       pool_active m' ! i = last_set (active_gauge i) xs (pool_active m ! i) \<and>
       pool_idle m' ! i = last_set (idle_gauge i) xs (pool_idle m ! i))"
  using assms
proof (induction xs arbitrary: m)
  case (Cons x xs)
  then obtain m1 where m1: "metric_apply x m = Inr m1" "metric_run xs m1 = Inr m'"
    by (auto simp: bind_result_eq_Inr)
  note e = metric_apply_effect [OF Cons.prems(1) m1(1)]
  from e Cons.IH [OF _ m1(2)] show ?case by (auto simp: algebra_simps)
qed simp

lemma metric_run_total:
  assumes "metrics_ok n m"
  shows "(\<exists>m'. metric_run xs m = Inr m') \<longleftrightarrow> (\<forall>x \<in> set xs. in_range n x)"
  using assms
proof (induction xs arbitrary: m)
  case (Cons x xs)
  show ?case
  proof (cases "in_range n x")
    case True
    then obtain m' where "metric_apply x m = Inr m'" "metrics_ok n m'"
      using metric_apply_ok [OF Cons.prems] by blast
    then show ?thesis using Cons.IH [of m'] True by simp
  qed (use metric_apply_out [OF Cons.prems] in simp)
qed simp

section \<open>Properties\<close>

text \<open>C40: A scrape loses nothing: parsing the text of \<^verbatim>\<open>render_prometheus\<close> gives back every counter
  and gauge of the registry, under its series name, in order.\<close>

theorem prometheus_roundtrip: "parse_prometheus (render_prometheus m) = samples m"
proof (rule yields_parse)
  have "yields (
     (prom_header ''aegis_requests_total'' ''Total requests accepted by the listener'' ''counter'' @
      ''aegis_requests_total'' @ '' '' @ u64_text (total_requests m) @ nl) @
     (prom_header ''aegis_rate_limited_total'' ''Requests rejected with HTTP 429'' ''counter'' @
      ''aegis_rate_limited_total'' @ '' '' @ u64_text (rate_limited m) @ nl) @
     (prom_header ''aegis_fallback_503_total'' ''Requests exhausted all retry attempts'' ''counter'' @
      ''aegis_fallback_503_total'' @ '' '' @ u64_text (fallback_503 m) @ nl) @
     (prom_header ''aegis_backend_success_total'' ''Successful relays per backend'' ''counter'' @
      prom_rows ''aegis_backend_success_total'' u64_text (backend_success m)) @
     (prom_header ''aegis_backend_failure_total'' ''Failed attempts per backend'' ''counter'' @
      prom_rows ''aegis_backend_failure_total'' u64_text (backend_failure m)) @
     (prom_header ''aegis_breaker_state''
       ''Circuit breaker state per backend (0=CLOSED, 1=OPEN, 2=HALF_OPEN)'' ''gauge'' @
      prom_rows ''aegis_breaker_state'' int_to_string (breaker_state m)) @
     (prom_header ''aegis_pool_active_connections'' ''Checked-out connections per backend'' ''gauge'' @
      prom_rows ''aegis_pool_active_connections'' int_to_string (pool_active m)) @
     (prom_header ''aegis_pool_idle_connections'' ''Idle (pooled, warm) connections per backend'' ''gauge'' @
      prom_rows ''aegis_pool_idle_connections'' int_to_string (pool_idle m)))
    ([(''aegis_requests_total'', uint (total_requests m))] @
     [(''aegis_rate_limited_total'', uint (rate_limited m))] @
     [(''aegis_fallback_503_total'', uint (fallback_503 m))] @
     backend_samples ''aegis_backend_success_total'' uint (backend_success m) @
     backend_samples ''aegis_backend_failure_total'' uint (backend_failure m) @
     backend_samples ''aegis_breaker_state'' (\<lambda>v. v) (breaker_state m) @
     backend_samples ''aegis_pool_active_connections'' (\<lambda>v. v) (pool_active m) @
     backend_samples ''aegis_pool_idle_connections'' (\<lambda>v. v) (pool_idle m))"
    by (intro yields_append yields_counter yields_vector number_text parse_int_int_to_string) (simp_all add: plain_def)
  then show "yields (render_prometheus m) (samples m)"
    by (simp add: render_prometheus_def samples_def)
qed

text \<open>The registry counts: after any sequence of calls on in-range backends every counter is the
  number of its calls modulo \<open>2 ^ 64\<close> and every gauge the last value stored (zero before), and
  the sequence raises \<^verbatim>\<open>std::out_of_range\<close> exactly when some call names a backend that does not
  exist.\<close>

lemma metrics_count:
  "((\<exists>m. metric_run xs (new_metrics n) = Inr m) \<longleftrightarrow> (\<forall>x \<in> set xs. in_range n x)) \<and>
   (\<forall>m. metric_run xs (new_metrics n) = Inr m \<longrightarrow>
     unat (total_requests m) = count_list xs Request_Received mod 2 ^ 64 \<and>
     unat (rate_limited m) = count_list xs Rate_Limited mod 2 ^ 64 \<and>
     unat (fallback_503 m) = count_list xs Fallback_503 mod 2 ^ 64 \<and>
     (\<forall>i < n. unat (backend_success m ! i) = count_list xs (Backend_Success i) mod 2 ^ 64 \<and>
        unat (backend_failure m ! i) = count_list xs (Backend_Failure i) mod 2 ^ 64 \<and>
        breaker_state m ! i = last_set (breaker_gauge i) xs 0 \<and>
        pool_active m ! i = last_set (active_gauge i) xs 0 \<and>
        pool_idle m ! i = last_set (idle_gauge i) xs 0))"
proof (intro conjI allI impI)
  show "(\<exists>m. metric_run xs (new_metrics n) = Inr m) \<longleftrightarrow> (\<forall>x \<in> set xs. in_range n x)"
    by (rule metric_run_total) simp
next
  fix m assume "metric_run xs (new_metrics n) = Inr m"
  note e = metric_run_effect [OF metrics_ok_new this]
  show "unat (total_requests m) = count_list xs Request_Received mod 2 ^ 64"
    "unat (rate_limited m) = count_list xs Rate_Limited mod 2 ^ 64"
    "unat (fallback_503 m) = count_list xs Fallback_503 mod 2 ^ 64"
    using e by (simp_all add: new_metrics_def unat_of_nat)
  fix i assume "i < n"
  then show "unat (backend_success m ! i) = count_list xs (Backend_Success i) mod 2 ^ 64"
    "unat (backend_failure m ! i) = count_list xs (Backend_Failure i) mod 2 ^ 64"
    "breaker_state m ! i = last_set (breaker_gauge i) xs 0"
    "pool_active m ! i = last_set (active_gauge i) xs 0"
    "pool_idle m ! i = last_set (idle_gauge i) xs 0"
    using e by (simp_all add: new_metrics_def unat_of_nat)
qed

end
