(* ===== verification/Tracer.thy ===== *)
theory Tracer
  imports Aegis_Prelude "HOL-Library.List_Lexorder" "HOL-Library.Char_ord"
begin

text \<open>
  Correlation ids and structured log lines of \<^verbatim>\<open>src/tracer.hpp\<close>. The atomic counter is a
  64-bit word; the reading of \<^verbatim>\<open>system_clock\<close>, in milliseconds, is an argument. A log line is
  the text written to \<^verbatim>\<open>std::cerr\<close>.

  The results: ids are unique until the counter wraps, whatever the clock does; a line whose
  keys and values keep to the format can be parsed back; and the two limits of the format, ids
  that do not sort as strings and values with blanks.
\<close>

section \<open>Operations\<close>

definition generate :: "int \<Rightarrow> u64 \<Rightarrow> string \<times> u64" where
  "generate now_ms counter =
     (''req-'' @ int_to_string now_ms @ ''-'' @ to_string (unat counter), counter + 1)"

type_synonym log_fields = "(string \<times> string) list"

definition event_text :: "string \<Rightarrow> string \<Rightarrow> log_fields \<Rightarrow> string" where
  "event_text correlation_id event_name fields =
     ''cid='' @ correlation_id @ '' event='' @ event_name @
     concat (map (\<lambda>(key, val). '' '' @ key @ ''='' @ val) fields)"

definition trace_event :: "string \<Rightarrow> string \<Rightarrow> log_fields \<Rightarrow> log_line" where
  "trace_event correlation_id event_name fields = Cerr (event_text correlation_id event_name fields)"

section \<open>Uniqueness of the ids\<close>

text \<open>Successive calls, one clock reading each.\<close>

fun generate_all :: "int list \<Rightarrow> u64 \<Rightarrow> string list" where
  "generate_all [] counter = []"
| "generate_all (t # ts) counter =
     (let (cid, counter) = generate t counter in cid # generate_all ts counter)"

text \<open>The sequence number can be read off the end of an id, so ids with different numbers differ.\<close>

lemma generate_inject:
  assumes "fst (generate t c) = fst (generate u d)"
  shows "c = d"
proof -
  have minus: "CHR ''-'' \<notin> set (rev (to_string n))" for n
    using not_digit_notin_to_string [of "CHR ''-''" n] by (simp add: is_digit_def)
  from assms have "rev (fst (generate t c)) = rev (fst (generate u d))" by simp
  then have "rev (to_string (unat c)) @ CHR ''-'' # rev (''req-'' @ int_to_string t) =
      rev (to_string (unat d)) @ CHR ''-'' # rev (''req-'' @ int_to_string u)"
    by (simp add: generate_def)
  from digits_split [OF this minus minus] have "unat c = unat d" by simp
  then show ?thesis by (simp add: word_unat_eq_iff)
qed

lemma generate_all_nth:
  "i < length ts \<Longrightarrow> generate_all ts c ! i = fst (generate (ts ! i) (c + of_nat i))"
proof (induction ts arbitrary: c i)
  case (Cons t ts)
  then show ?case
    by (cases i) (simp_all add: generate_def split_def Let_def add.assoc)
qed simp

lemma generate_all_length [simp]: "length (generate_all ts c) = length ts"
  by (induction ts arbitrary: c) (simp_all add: split_def Let_def)

lemma generate_all_distinct:
  assumes "length ts \<le> 2 ^ 64"
  shows "distinct (generate_all ts counter)"
proof -
  have "generate_all ts counter ! i \<noteq> generate_all ts counter ! j"
    if "i < length ts" "j < length ts" "i \<noteq> j" for i j
  proof
    assume "generate_all ts counter ! i = generate_all ts counter ! j"
    then have "(of_nat i :: u64) = of_nat j"
      using that generate_inject by (fastforce simp: generate_all_nth)
    moreover have "i < 2 ^ 64" "j < 2 ^ 64" using that assms by auto
    ultimately show False using that(3) by (simp add: word_unat_eq_iff unat_of_nat)
  qed
  then show ?thesis by (simp add: distinct_conv_nth)
qed

lemma generate_all_snoc:
  "generate_all (ts @ [t]) c = generate_all ts c @ [fst (generate t (c + of_nat (length ts)))]"
  by (induction ts arbitrary: c) (simp_all add: generate_def Let_def split_def add.assoc)

section \<open>Parsing a line back\<close>

definition parse_line :: "string \<Rightarrow> log_fields" where
  "parse_line s = map (cut CHR ''='') (split_on CHR '' '' s)"

text \<open>The fields a log line keeps apart: keys without \<open>=\<close> and blank, values without blank.\<close>

definition loggable :: "string \<times> string \<Rightarrow> bool" where
  "loggable f \<longleftrightarrow> CHR ''='' \<notin> set (fst f) \<and> CHR '' '' \<notin> set (fst f) \<and> CHR '' '' \<notin> set (snd f)"

definition pair_text :: "string \<times> string \<Rightarrow> string" where
  "pair_text f = fst f @ ''='' @ snd f"

lemma split_pairs:
  assumes "\<forall>f \<in> set (f # fs). loggable f"
  shows "split_on CHR '' '' (pair_text f @ concat (map (\<lambda>f. '' '' @ pair_text f) fs)) = map pair_text (f # fs)"
  using assms
proof (induction fs arbitrary: f)
  case Nil
  then have "CHR '' '' \<notin> set (pair_text f)" "pair_text f \<noteq> []"
    by (auto simp: pair_text_def loggable_def)
  then show ?case by (simp add: split_on.simps cut_none)
next
  case (Cons g fs)
  then have "CHR '' '' \<notin> set (pair_text f)" "pair_text f \<noteq> []"
    by (auto simp: pair_text_def loggable_def)
  then show ?case
    using Cons by (subst split_on.simps) (simp add: cut_append)
qed

lemma cut_pair: "loggable f \<Longrightarrow> cut CHR ''='' (pair_text f) = f"
  by (simp add: pair_text_def loggable_def cut_append)

lemma event_text_pairs:
  "event_text cid name fields =
     pair_text (''cid'', cid) @ concat (map (\<lambda>f. '' '' @ pair_text f) ((''event'', name) # fields))"
  by (simp add: event_text_def pair_text_def split_def)

section \<open>Properties\<close>

text \<open>Correlation ids are unique within the process: any sequence of at most \<open>2 ^ 64\<close> calls
  returns pairwise different ids, for any clock, even one that stands still or runs backwards.\<close>

theorem correlation_ids_unique:
  assumes "length ts \<le> 2 ^ 64"
  shows "distinct (generate_all ts counter)"
  using assms by (rule generate_all_distinct)

theorem correlation_ids_unique_witness:
  "distinct (generate_all [1700, 1700, 1699] 18446744073709551615)"
  by (rule correlation_ids_unique) simp

text \<open>A log line is parseable: its words, cut at the first \<open>=\<close>, are the correlation id, the event
  name and the fields, in the order they were given, as long as no value holds a blank and no
  key a blank or \<open>=\<close>.\<close>

lemma event_line_roundtrip:
  assumes "CHR '' '' \<notin> set cid" and "CHR '' '' \<notin> set name" and "\<forall>f \<in> set fields. loggable f"
  shows "parse_line (event_text cid name fields) = (''cid'', cid) # (''event'', name) # fields"
proof -
  let ?fs = "(''event'', name) # fields"
  have ok: "\<forall>f \<in> set ((''cid'', cid) # ?fs). loggable f"
    using assms by (auto simp: loggable_def)
  then have "map (cut CHR ''='') (map pair_text ((''cid'', cid) # ?fs)) = (''cid'', cid) # ?fs"
    unfolding map_map by (intro map_idI) (auto simp: cut_pair)
  then show ?thesis
    unfolding event_text_pairs parse_line_def split_pairs [OF ok] .
qed

text \<open>The ids are not sortable by arrival order as the strings they are: in the same millisecond
  the eleventh id sorts before the tenth.\<close>

theorem ids_not_string_sortable:
  "fst (generate t 10) < fst (generate t 9)"
proof -
  have "to_string 10 = ''10''" by (simp add: to_string_big digit_char_eval)
  moreover have "to_string 9 = ''9''" by (simp add: digit_char_eval)
  moreover have "''10'' < (''9'' :: string)" by code_simp
  moreover have "xs @ ys < xs @ zs \<longleftrightarrow> ys < zs" for xs ys zs :: string
    by (induction xs) auto
  ultimately show ?thesis by (simp add: generate_def)
qed

end
