(* ===== verification/Session.thy ===== *)
theory Session
  imports Hash_Ring Circuit_Breaker Connection_Pool Metrics Tracer
begin

text \<open>
  One client connection, \<^verbatim>\<open>src/session.{hpp,cpp}\<close>. The coroutine \<^verbatim>\<open>handle_client\<close> is cut at its
  suspension points: the synchronous code between two \<^verbatim>\<open>co_await\<close>s is a function, and what the
  network answers at a \<^verbatim>\<open>co_await\<close> is an \<open>event\<close> chosen by the environment. The field \<open>pc\<close>
  of a session says where it is suspended. The proxy runs on one thread, so between two
  suspension points a session works on the shared state alone.

  Asio's part is a parameter: outcomes of reads, writes and connects are the events. Of
  \<^verbatim>\<open>operator||\<close> the model uses what its documentation says: the group completes when both
  operands have, the first operand to return cancels the other, and a cancelled coroutine runs
  on until its next suspension, where it ends. \<^verbatim>\<open>async_read_some\<close> without an error delivers
  between one byte and the size of the buffer; a failed \<^verbatim>\<open>async_write\<close> may have sent a prefix.

  The last fields of a session record its history for the statements, and no code reads them:
  the bytes \<open>received\<close> from the client, sent \<open>to_backend\<close> on the current socket, read \<open>from_backend\<close>s and
  sent \<open>to_client\<close>; the backends whose breaker granted the request (\<open>grants\<close>), each of which the code then
  tries to connect to; those it got a socket of (\<open>reached\<close>); and those it reported on (\<open>reports\<close>).
\<close>

section \<open>Request buffer\<close>

record request_buffer =
  data :: string
  capped :: bool

definition kCap :: nat where
  "kCap = 16 * 1024"

definition new_buffer :: request_buffer where
  "new_buffer = \<lparr>data = [], capped = False\<rparr>"

definition rb_append :: "string \<Rightarrow> request_buffer \<Rightarrow> request_buffer" where
  "rb_append p b =
     (if capped b then b
      else if length (data b) + length p > kCap then b\<lparr>capped := True\<rparr>
      else b\<lparr>data := data b @ p\<rparr>)"

section \<open>State\<close>

text \<open>What all sessions share. The \<open>n\<close>-th reading of \<^verbatim>\<open>steady_clock\<close> is \<open>clock n\<close>.\<close>

record shared =
  sh_pool :: connection_pool
  sh_ring :: hash_ring
  sh_breakers :: "circuit_breaker list"
  sh_metrics :: metrics_registry
  clock :: "nat \<Rightarrow> nanos"
  ticks :: nat

datatype relay_pc = Reading | Writing string | Returned

datatype session_pc =
    Started
  | Acquiring
  | Replaying
  | Relaying relay_pc relay_pc \<comment> \<open>client to backend, backend to client\<close>
  | Sending_Status
  | Draining
  | Finished
  | Died exn

record session =
  client_key :: string
  correlation_id :: string
  max_attempts :: int
  excluded :: "nat set"
  req_buf :: request_buffer
  attempts :: int
  backend_index :: nat
  backend_socket :: "socket option"
  response_started :: bool
  pc :: session_pc
  log :: "log_line list"
  received :: string
  to_backend :: string
  from_backend :: string
  to_client :: string
  reached :: "nat list"
  grants :: "nat list"
  reports :: "nat list"

type_synonym conf = "shared \<times> session"

definition new_session :: "string \<Rightarrow> string \<Rightarrow> int \<Rightarrow> session" where
  "new_session key cid n =
     \<lparr>client_key = key, correlation_id = cid, max_attempts = n, excluded = {}, req_buf = new_buffer,
      attempts = 0, backend_index = 0, backend_socket = None, response_started = False,
      pc = Started, log = [], received = [], to_backend = [], from_backend = [], to_client = [],
      reached = [], grants = [], reports = []\<rparr>"

section \<open>Statements of the coroutine\<close>

text \<open>A statement either changes the configuration or throws, leaving it as it was.\<close>

type_synonym stmt = "conf \<Rightarrow> conf result"

text \<open>The two overloads of \<^verbatim>\<open>fields\<close>.\<close>

definition fields :: "string \<Rightarrow> string \<Rightarrow> log_fields" where
  "fields k1 v1 = [(k1, v1)]"

definition fields2 :: "string \<Rightarrow> string \<Rightarrow> string \<Rightarrow> string \<Rightarrow> log_fields" where
  "fields2 k1 v1 k2 v2 = [(k1, v1), (k2, v2)]"

definition log_event :: "string \<Rightarrow> log_fields \<Rightarrow> stmt" where
  "log_event name fs c =
     (let (sh, s) = c in Inr (sh, s\<lparr>log := log s @ [trace_event (correlation_id s) name fs]\<rparr>))"

definition on_metrics :: "(metrics_registry \<Rightarrow> metrics_registry result) \<Rightarrow> stmt" where
  "on_metrics f c =
     (let (sh, s) = c in bind_result (f (sh_metrics sh)) (\<lambda>m. Inr (sh\<lparr>sh_metrics := m\<rparr>, s)))"

definition breaker_success :: "nat \<Rightarrow> stmt" where
  "breaker_success b c =
     (let (sh, s) = c in
      bind_result (vec_modify (sh_breakers sh) b record_success)
        (\<lambda>brs. Inr (sh\<lparr>sh_breakers := brs\<rparr>, s\<lparr>reports := reports s @ [b]\<rparr>)))"

definition breaker_failure :: "nat \<Rightarrow> stmt" where
  "breaker_failure b c =
     (let (sh, s) = c in
      bind_result (vec_modify (sh_breakers sh) b (record_failure (clock sh (ticks sh))))
        (\<lambda>brs. Inr (sh\<lparr>sh_breakers := brs, ticks := ticks sh + 1\<rparr>, s\<lparr>reports := reports s @ [b]\<rparr>)))"

definition show_breaker :: "nat \<Rightarrow> stmt" where
  "show_breaker b c =
     (let (sh, s) = c in
      bind_result (vec_at (sh_breakers sh) b) (\<lambda>br.
        on_metrics (set_breaker_state b (breaker_code (state br))) c))"

definition show_pool_active :: "nat \<Rightarrow> stmt" where
  "show_pool_active b c =
     (let (sh, s) = c in
      bind_result (active_count b (sh_pool sh)) (\<lambda>n. on_metrics (set_pool_active b n) c))"

definition show_pool_idle :: "nat \<Rightarrow> stmt" where
  "show_pool_idle b c =
     (let (sh, s) = c in
      bind_result (idle_count b (sh_pool sh)) (\<lambda>n. on_metrics (set_pool_idle b n) c))"

text \<open>\<^verbatim>\<open>pool.release(b, std::move(*backend_socket), false)\<close>.\<close>

definition release_unhealthy :: "nat \<Rightarrow> stmt" where
  "release_unhealthy b c =
     (let (sh, s) = c in
      case backend_socket s of
        None \<Rightarrow> Inr c
      | Some sock \<Rightarrow> bind_result (release b sock False (sh_pool sh))
          (\<lambda>p. Inr (sh\<lparr>sh_pool := p\<rparr>, s\<lparr>backend_socket := None\<rparr>)))"

text \<open>\<^verbatim>\<open>excluded.insert(b); ++attempts;\<close>\<close>

definition give_up_on :: "nat \<Rightarrow> stmt" where
  "give_up_on b c =
     (let (sh, s) = c in Inr (sh, s\<lparr>excluded := insert b (excluded s), attempts := attempts s + 1\<rparr>))"

text \<open>How a stretch of synchronous code ends.\<close>

datatype flow =
    Continue conf   \<comment> \<open>next iteration of the retry loop\<close>
  | Break conf      \<comment> \<open>leave the loop\<close>
  | Suspend conf    \<comment> \<open>wait at a \<^verbatim>\<open>co_await\<close>\<close>
  | Return conf
  | Throw exn conf

fun perform :: "stmt list \<Rightarrow> (conf \<Rightarrow> flow) \<Rightarrow> conf \<Rightarrow> flow" where
  "perform [] k c = k c"
| "perform (f # fs) k c = (case f c of Inl e \<Rightarrow> Throw e c | Inr c' \<Rightarrow> perform fs k c')"

definition goto :: "session_pc \<Rightarrow> conf \<Rightarrow> conf" where
  "goto l c = (let (sh, s) = c in (sh, s\<lparr>pc := l\<rparr>))"

section \<open>The stretches of \<^verbatim>\<open>handle_client\<close>\<close>

definition record_failed_attempt :: "nat \<Rightarrow> stmt list" where
  "record_failed_attempt b = [breaker_failure b, on_metrics (record_backend_failure b), show_breaker b]"

definition start_relays :: "conf \<Rightarrow> flow" where
  "start_relays c =
     (let (sh, s) = c in Suspend (goto (Relaying Reading Reading) (sh, s\<lparr>response_started := False\<rparr>)))"

text \<open>From the acquired socket to the replay or the relays.\<close>

definition acquired :: "nat \<Rightarrow> socket \<Rightarrow> conf \<Rightarrow> flow" where
  "acquired b sock c =
     (let (sh, s) = c in
      perform
        [log_event ''backend_selected''
           (fields2 ''backend'' (to_string b) ''attempt'' (int_to_string (attempts s + 1))),
         show_pool_active b, show_pool_idle b]
        (\<lambda>c. if data (req_buf (snd c)) \<noteq> [] then Suspend (goto Replaying c) else start_relays c)
        (sh, s\<lparr>backend_socket := Some sock, to_backend := [], reached := reached s @ [b]\<rparr>))"

text \<open>The \<^verbatim>\<open>catch\<close> block around \<^verbatim>\<open>pool.acquire\<close>.\<close>

definition connect_failed :: "nat \<Rightarrow> exn \<Rightarrow> conf \<Rightarrow> flow" where
  "connect_failed b e =
     perform
       (log_event ''connect_failed'' (fields2 ''backend'' (to_string b) ''error'' (exn_what e))
        # record_failed_attempt b @ [give_up_on b])
       Continue"

text \<open>From the breaker's answer to the first suspension.\<close>

definition gated :: "nat \<Rightarrow> conf \<Rightarrow> flow" where
  "gated b c =
     (let (sh, s) = c;
          (ok, br) = allow_request (clock sh (ticks sh)) (sh_breakers sh ! b);
          sh = sh\<lparr>sh_breakers := (sh_breakers sh)[b := br], ticks := ticks sh + 1\<rparr>
      in if \<not> ok then
           perform
             [log_event ''breaker_skip'' (fields2 ''backend'' (to_string b) ''reason'' ''open_or_trial_busy''),
              give_up_on b]
             Continue (sh, s)
         else
           let s = s\<lparr>backend_index := b, grants := grants s @ [b]\<rparr> in
           case acquire_begin b (sh_pool sh) of
             Inl e \<Rightarrow> connect_failed b e (sh, s)
           | Inr (Some sock, p) \<Rightarrow> acquired b sock (sh\<lparr>sh_pool := p\<rparr>, s)
           | Inr (None, p) \<Rightarrow> Suspend (goto Acquiring (sh\<lparr>sh_pool := p\<rparr>, s)))"

definition loop_body :: "conf \<Rightarrow> flow" where
  "loop_body c =
     (let (sh, s) = c in
      case get_backend_excluding (sh_ring sh) (client_key s) (excluded s) of
        None \<Rightarrow> perform [log_event ''ring_exhausted'' (fields ''attempts'' (int_to_string (attempts s)))] Break c
      | Some b \<Rightarrow> perform [show_breaker b] (gated b) c)"

text \<open>After \<^verbatim>\<open>co_await connect\<close> in \<^verbatim>\<open>pool.acquire\<close>.\<close>

definition after_connect :: "net \<Rightarrow> conf \<Rightarrow> flow" where
  "after_connect env c =
     (let (sh, s) = c; b = backend_index s in
      case acquire_end b (connect (sh_pool sh) b env) (sh_pool sh) of
        Inl e \<Rightarrow> connect_failed b e c
      | Inr (sock, p) \<Rightarrow> acquired b sock (sh\<lparr>sh_pool := p\<rparr>, s))"

definition after_replay :: "bool \<Rightarrow> conf \<Rightarrow> flow" where
  "after_replay ec c =
     (let b = backend_index (snd c) in
      if ec then
        perform
          (log_event ''replay_failed'' (fields ''backend'' (to_string b))
           # record_failed_attempt b @ [release_unhealthy b, give_up_on b])
          Continue c
      else start_relays c)"

text \<open>After an attempt without a response: no retry of a request that was not buffered whole.\<close>

definition retry_unless_capped :: "conf \<Rightarrow> flow" where
  "retry_unless_capped c =
     (if capped (req_buf (snd c)) then
        perform
          [log_event ''retry_abandoned_buffer_capped''
             (fields ''buffered_bytes'' (to_string (length (data (req_buf (snd c))))))]
          Break c
      else Continue c)"

definition settle :: "nat \<Rightarrow> bool \<Rightarrow> conf \<Rightarrow> flow" where
  "settle b got_any_response =
     (if got_any_response then
        perform
          [breaker_success b, on_metrics (record_backend_success b), show_breaker b,
           log_event ''request_succeeded'' (fields ''backend'' (to_string b))]
          Return
      else
        perform
          (record_failed_attempt b @
           [log_event ''backend_failed_no_response'' (fields ''backend'' (to_string b)), give_up_on b])
          retry_unless_capped)"

definition after_relays :: "conf \<Rightarrow> flow" where
  "after_relays c =
     (let b = backend_index (snd c);
          got_any_response = response_started (snd c)
      in perform [release_unhealthy b, show_pool_active b, show_pool_idle b] (settle b got_any_response) c)"

text \<open>After the loop.\<close>

definition fall_back :: "conf \<Rightarrow> flow" where
  "fall_back c =
     perform
       [on_metrics (\<lambda>m. Inr (record_fallback_503 m)),
        log_event ''fallback_503'' (fields ''attempts'' (int_to_string (attempts (snd c))))]
       (\<lambda>c. Suspend (goto Sending_Status c)) c"

section \<open>The retry loop terminates\<close>

text \<open>Every statement keeps the bound of the loop, and none but \<open>give_up_on\<close> counts an attempt.\<close>

definition quiet :: "stmt \<Rightarrow> bool" where
  "quiet f \<longleftrightarrow> (\<forall>c c'. f c = Inr c' \<longrightarrow>
     attempts (snd c') = attempts (snd c) \<and> max_attempts (snd c') = max_attempts (snd c))"

lemma on_metrics_eq_Inr:
  "on_metrics f c = Inr c' \<longleftrightarrow>
     (\<exists>m. f (sh_metrics (fst c)) = Inr m \<and> c' = ((fst c)\<lparr>sh_metrics := m\<rparr>, snd c))"
  by (auto simp: on_metrics_def split_def bind_result_eq_Inr)

lemmas stmt_defs = log_event_def breaker_success_def breaker_failure_def show_breaker_def
  show_pool_active_def show_pool_idle_def release_unhealthy_def give_up_on_def

lemma quiet_stmts [simp]:
  "quiet (log_event name fs)" "quiet (on_metrics f)" "quiet (breaker_success b)"
  "quiet (breaker_failure b)" "quiet (show_breaker b)" "quiet (show_pool_active b)"
  "quiet (show_pool_idle b)" "quiet (release_unhealthy b)"
  by (auto simp: quiet_def stmt_defs on_metrics_eq_Inr split_def Let_def bind_result_eq_Inr
      split: option.splits)

lemma quiet_failed [simp]: "list_all quiet (record_failed_attempt b)"
  by (simp add: record_failed_attempt_def)

text \<open>What a \<open>Continue\<close> has done to the loop counter.\<close>

definition advances :: "conf \<Rightarrow> flow \<Rightarrow> bool" where
  "advances c r \<longleftrightarrow> (\<forall>c'. r = Continue c' \<longrightarrow>
     attempts (snd c') = attempts (snd c) + 1 \<and> max_attempts (snd c') = max_attempts (snd c))"

lemma advances_perform:
  assumes "list_all quiet fs"
    and "\<And>c'. attempts (snd c') = attempts (snd c) \<Longrightarrow> max_attempts (snd c') = max_attempts (snd c) \<Longrightarrow>
      advances c (k c')"
  shows "advances c (perform fs k c)"
proof -
  have "advances c (perform fs k d)"
    if "attempts (snd d) = attempts (snd c)" "max_attempts (snd d) = max_attempts (snd c)" for d
    using assms(1) that
  proof (induction fs arbitrary: d)
    case (Cons f fs)
    show ?case
    proof (cases "f d")
      case (Inr d')
      then have "attempts (snd d') = attempts (snd d)" "max_attempts (snd d') = max_attempts (snd d)"
        using Cons.prems(1) quiet_def [of f] by (simp_all, blast+)
      then show ?thesis using Cons Inr by simp
    qed (simp add: advances_def)
  qed (simp add: assms(2))
  then show ?thesis by blast
qed

lemma perform_append: "perform (fs @ gs) k c = perform fs (perform gs k) c"
  by (induction fs arbitrary: c) (auto split: sum.splits)

lemma advances_give_up:
  "attempts (snd c') = attempts (snd c) \<Longrightarrow> max_attempts (snd c') = max_attempts (snd c) \<Longrightarrow>
   advances c (perform [give_up_on b] Continue c')"
  by (simp add: advances_def give_up_on_def split_def)

lemma advances_connect_failed: "advances c (connect_failed b e c)"
  unfolding connect_failed_def
  using advances_perform [of "log_event ''connect_failed'' (fields2 ''backend'' (to_string b) ''error'' (exn_what e))
      # record_failed_attempt b" c "perform [give_up_on b] Continue"] advances_give_up [of _ c b]
  by (simp add: perform_append [symmetric])

lemma advances_acquired: "advances c (acquired b sock c)"
proof -
  have "acquired b sock c \<noteq> Continue c'" for c'
    by (auto simp: acquired_def split_def start_relays_def Let_def split: sum.splits)
  then show ?thesis by (simp add: advances_def)
qed

lemma advances_frame:
  "advances d r \<Longrightarrow> attempts (snd d) = attempts (snd c) \<Longrightarrow> max_attempts (snd d) = max_attempts (snd c) \<Longrightarrow>
   advances c r"
  by (simp add: advances_def)

lemma advances_gated: "advances c (gated b c)"
  unfolding gated_def Let_def split_def
  by (auto intro!: advances_frame [OF advances_connect_failed] advances_frame [OF advances_acquired]
      split: sum.splits option.splits prod.splits)
    (auto simp: advances_def log_event_def give_up_on_def split_def)

lemma advances_loop_body: "advances c (loop_body c)"
proof (cases "get_backend_excluding (sh_ring (fst c)) (client_key (snd c)) (excluded (snd c))")
  case None
  then show ?thesis by (simp add: loop_body_def split_def advances_def log_event_def)
next
  case (Some b)
  have "advances c (perform [show_breaker b] (gated b) c)"
    by (rule advances_perform) (simp_all add: advances_frame [OF advances_gated])
  then show ?thesis using Some by (simp add: loop_body_def split_def)
qed

function retry_loop :: "conf \<Rightarrow> flow" where
  "retry_loop c =
     (if attempts (snd c) < max_attempts (snd c)
      then case loop_body c of Continue c' \<Rightarrow> retry_loop c' | r \<Rightarrow> r
      else Break c)"
  by auto
termination
proof (relation "measure (\<lambda>c. nat (max_attempts (snd c) - attempts (snd c)))")
  fix c c' assume "attempts (snd c) < max_attempts (snd c)" "loop_body c = Continue c'"
  then show "(c', c) \<in> measure (\<lambda>c. nat (max_attempts (snd c) - attempts (snd c)))"
    using advances_loop_body [of c] by (simp add: advances_def)
qed simp

declare retry_loop.simps [simp del]

text \<open>The rest of the coroutine once a stretch has ended.\<close>

definition finish :: "flow \<Rightarrow> conf" where
  "finish r = (case r of Suspend c \<Rightarrow> c | Return c \<Rightarrow> goto Finished c | Throw e c \<Rightarrow> goto (Died e) c
                 | Continue c \<Rightarrow> c | Break c \<Rightarrow> c)"

definition resume :: "flow \<Rightarrow> conf" where
  "resume r =
     finish (case (case r of Continue c \<Rightarrow> retry_loop c | r \<Rightarrow> r) of Break c \<Rightarrow> fall_back c | r \<Rightarrow> r)"

definition handle_client :: "conf \<Rightarrow> conf" where
  "handle_client c =
     resume (perform
       [log_event ''request_received'' (fields ''client'' (client_key (snd c))),
        on_metrics (\<lambda>m. Inr (record_request_received m))]
       Continue c)"

section \<open>Suspension points\<close>

text \<open>Outcomes of a read or a write; \<open>Write_Failed n\<close> has sent \<open>n\<close> bytes.\<close>

datatype io = Read string | Read_Failed | Wrote | Write_Failed nat

definition relay_buffer :: nat where
  "relay_buffer = 8192"

text \<open>
  One completion in a \<^verbatim>\<open>relay\<close>: the next suspension point, the chunk read and the bytes
  written. \<open>cancelled\<close> says that the other relay has returned.
\<close>

fun relay :: "bool \<Rightarrow> io \<Rightarrow> relay_pc \<Rightarrow> (relay_pc \<times> string \<times> string) option" where
  "relay cancelled (Read chunk) Reading =
     (if chunk \<noteq> [] \<and> length chunk \<le> relay_buffer
      then Some (if cancelled then Returned else Writing chunk, chunk, []) else None)"
| "relay cancelled Read_Failed Reading = Some (Returned, [], [])"
| "relay cancelled Wrote (Writing chunk) = Some (if cancelled then Returned else Reading, [], chunk)"
| "relay cancelled (Write_Failed n) (Writing chunk) =
     (if n \<le> length chunk then Some (Returned, [], take n chunk) else None)"
| "relay _ _ _ = None"

definition crlf :: string where
  "crlf = [CHR 0x0D, CHR 0x0A]"

definition status_response :: "nat \<Rightarrow> string \<Rightarrow> string \<Rightarrow> string" where
  "status_response code reason body =
     ''HTTP/1.1 '' @ to_string code @ '' '' @ reason @ crlf @
     ''Content-Type: text/plain'' @ crlf @
     ''Content-Length: '' @ to_string (length body) @ crlf @
     ''Connection: close'' @ crlf @
     crlf @ body"

definition unavailable_response :: string where
  "unavailable_response = status_response 503 ''Service Unavailable'' (''All backends unavailable'' @ nl)"

datatype event =
    Start
  | Connected net
  | Replayed io
  | Client_Leg io
  | Backend_Leg io
  | Status io
  | Drain io

text \<open>The legs: the client's bytes are captured, a chunk of the backend sets the flag; when both
  have returned the coroutine goes on.\<close>

definition after_leg :: "conf \<Rightarrow> conf" where
  "after_leg c = (if pc (snd c) = Relaying Returned Returned then resume (after_relays c) else c)"

fun step :: "event \<Rightarrow> conf \<Rightarrow> conf option" where
  "step Start (sh, s) = (if pc s = Started then Some (handle_client (sh, s)) else None)"
| "step (Connected env) (sh, s) = (if pc s = Acquiring then Some (resume (after_connect env (sh, s))) else None)"
| "step (Replayed ev) (sh, s) =
     (if pc s = Replaying then
        case ev of
          Wrote \<Rightarrow> Some (resume (after_replay False (sh, s\<lparr>to_backend := data (req_buf s)\<rparr>)))
        | Write_Failed n \<Rightarrow>
            if n \<le> length (data (req_buf s))
            then Some (resume (after_replay True (sh, s\<lparr>to_backend := take n (data (req_buf s))\<rparr>))) else None
        | _ \<Rightarrow> None
      else None)"
| "step (Client_Leg ev) (sh, s) =
     (case pc s of
        Relaying up down \<Rightarrow>
          (case relay (down = Returned) ev up of
             None \<Rightarrow> None
           | Some (up', got, put) \<Rightarrow>
               Some (after_leg (sh, s\<lparr>req_buf := (if got = [] then req_buf s else rb_append got (req_buf s)),
                 received := received s @ got, to_backend := to_backend s @ put, pc := Relaying up' down\<rparr>)))
      | _ \<Rightarrow> None)"
| "step (Backend_Leg ev) (sh, s) =
     (case pc s of
        Relaying up down \<Rightarrow>
          (case relay (up = Returned) ev down of
             None \<Rightarrow> None
           | Some (down', got, put) \<Rightarrow>
               Some (after_leg (sh, s\<lparr>response_started := (response_started s \<or> got \<noteq> []),
                 from_backend := from_backend s @ got, to_client := to_client s @ put, pc := Relaying up down'\<rparr>)))
      | _ \<Rightarrow> None)"
| "step (Status ev) (sh, s) =
     (if pc s = Sending_Status then
        case ev of
          Wrote \<Rightarrow> Some (goto Draining (sh, s\<lparr>to_client := to_client s @ unavailable_response\<rparr>))
        | Write_Failed n \<Rightarrow>
            if n \<le> length unavailable_response
            then Some (goto Draining (sh, s\<lparr>to_client := to_client s @ take n unavailable_response\<rparr>)) else None
        | _ \<Rightarrow> None
      else None)"
| "step (Drain ev) (sh, s) =
     (if pc s = Draining then
        case ev of
          Read chunk \<Rightarrow> Some (if chunk = [] then goto Finished (sh, s) else (sh, s))
        | Read_Failed \<Rightarrow> Some (goto Finished (sh, s))
        | _ \<Rightarrow> None
      else None)"

end
