(* ===== verification/Session_Safety.thy ===== *)
theory Session_Safety
  imports Session "HOL-Library.Sublist"
begin

text \<open>
  What every session keeps, under any behaviour of the network and any interleaving with other
  sessions. The rely and the guarantee of a session are one predicate on the shared state
  (\<open>env_ok\<close>): vectors of one length, the breakers' invariant, the pool's counters equal to the
  sockets in use, free lists that only shrink. The invariant of a session (\<open>session_inv\<close>) is
  stated per suspension point and proved stretch by stretch.
\<close>

section \<open>Telemetry\<close>

text \<open>The shared state every session finds and leaves: one cell per backend everywhere, the
  breakers' invariant, and a ring of existing backends.\<close>

definition shared_ok :: "nat \<Rightarrow> hash_ring \<Rightarrow> shared \<Rightarrow> bool" where
  "shared_ok n r sh \<longleftrightarrow>
     pool_ok (sh_pool sh) \<and> length (backends (sh_pool sh)) = n \<and>
     length (sh_breakers sh) = n \<and> list_all breaker_inv (sh_breakers sh) \<and>
     metrics_ok n (sh_metrics sh) \<and>
     sh_ring sh = r \<and> ring_inv r \<and> active_backends r \<subseteq> {..<n}"

text \<open>Statements that never throw there and change the metrics and the log only.\<close>

definition telemetry :: "nat \<Rightarrow> hash_ring \<Rightarrow> stmt \<Rightarrow> bool" where
  "telemetry n r f \<longleftrightarrow> (\<forall>sh s. shared_ok n r sh \<longrightarrow>
     (\<exists>m l. f (sh, s) = Inr (sh\<lparr>sh_metrics := m\<rparr>, s\<lparr>log := l\<rparr>) \<and> metrics_ok n m))"

lemma telemetryE:
  assumes "telemetry n r f" and "shared_ok n r sh"
  obtains m l where "f (sh, s) = Inr (sh\<lparr>sh_metrics := m\<rparr>, s\<lparr>log := l\<rparr>)" "metrics_ok n m"
proof -
  have "\<exists>m l. f (sh, s) = Inr (sh\<lparr>sh_metrics := m\<rparr>, s\<lparr>log := l\<rparr>) \<and> metrics_ok n m"
    using assms(1) [unfolded telemetry_def, rule_format, OF assms(2)] .
  then show ?thesis using that by blast
qed

lemma shared_ok_metrics:
  "shared_ok n r sh \<Longrightarrow> metrics_ok n m \<Longrightarrow> shared_ok n r (sh\<lparr>sh_metrics := m\<rparr>)"
  by (simp add: shared_ok_def)

lemma telemetry_log: "telemetry n r (log_event name fs)"
  unfolding telemetry_def log_event_def
  by (auto simp: shared_ok_def intro!: exI [of _ "sh_metrics _"])

lemma telemetry_metrics:
  assumes "\<And>m. metrics_ok n m \<Longrightarrow> \<exists>m'. f m = Inr m' \<and> metrics_ok n m'"
  shows "telemetry n r (on_metrics f)"
  unfolding telemetry_def
proof (intro allI impI)
  fix sh s assume "shared_ok n r sh"
  then obtain m where "f (sh_metrics sh) = Inr m" "metrics_ok n m"
    using assms by (auto simp: shared_ok_def)
  then show "\<exists>m l. on_metrics f (sh, s) = Inr (sh\<lparr>sh_metrics := m\<rparr>, s\<lparr>log := l\<rparr>) \<and> metrics_ok n m"
    by (intro exI [of _ m] exI [of _ "log s"]) (simp add: on_metrics_def)
qed

lemma metrics_op_ok:
  "b < n \<Longrightarrow> metrics_ok n m \<Longrightarrow> \<exists>m'. record_backend_success b m = Inr m' \<and> metrics_ok n m'"
  "b < n \<Longrightarrow> metrics_ok n m \<Longrightarrow> \<exists>m'. record_backend_failure b m = Inr m' \<and> metrics_ok n m'"
  "b < n \<Longrightarrow> metrics_ok n m \<Longrightarrow> \<exists>m'. set_breaker_state b z m = Inr m' \<and> metrics_ok n m'"
  "b < n \<Longrightarrow> metrics_ok n m \<Longrightarrow> \<exists>m'. set_pool_active b z m = Inr m' \<and> metrics_ok n m'"
  "b < n \<Longrightarrow> metrics_ok n m \<Longrightarrow> \<exists>m'. set_pool_idle b z m = Inr m' \<and> metrics_ok n m'"
  "metrics_ok n m \<Longrightarrow> \<exists>m'. Inr (record_fallback_503 m) = (Inr m' :: metrics_registry result) \<and> metrics_ok n m'"
  "metrics_ok n m \<Longrightarrow> \<exists>m'. Inr (record_request_received m) = (Inr m' :: metrics_registry result) \<and> metrics_ok n m'"
  by (simp_all add: metrics_ok_def metrics_defs)

lemma telemetry_stmts:
  "telemetry n r (log_event name fs)"
  "b < n \<Longrightarrow> telemetry n r (on_metrics (record_backend_success b))"
  "b < n \<Longrightarrow> telemetry n r (on_metrics (record_backend_failure b))"
  "telemetry n r (on_metrics (\<lambda>m. Inr (record_fallback_503 m)))"
  "telemetry n r (on_metrics (\<lambda>m. Inr (record_request_received m)))"
  by (simp_all only: telemetry_log telemetry_metrics [OF metrics_op_ok(1)] telemetry_metrics [OF metrics_op_ok(2)]
      telemetry_metrics [OF metrics_op_ok(6)] telemetry_metrics [OF metrics_op_ok(7)])

lemma telemetry_gauges:
  assumes "b < n"
  shows "telemetry n r (show_breaker b)" and "telemetry n r (show_pool_active b)"
    and "telemetry n r (show_pool_idle b)"
  using telemetry_metrics [OF metrics_op_ok(3) [OF assms]] telemetry_metrics [OF metrics_op_ok(4) [OF assms]]
    telemetry_metrics [OF metrics_op_ok(5) [OF assms]] assms
  by (auto simp: telemetry_def show_breaker_def show_pool_active_def show_pool_idle_def
      active_count_def idle_count_def shared_ok_def pool_ok_def)

lemmas telemetry_rules = telemetry_stmts telemetry_gauges

lemma perform_telemetry:
  assumes "list_all (telemetry n r) fs" and "shared_ok n r sh"
  shows "\<exists>m l. perform fs k (sh, s) = k (sh\<lparr>sh_metrics := m\<rparr>, s\<lparr>log := l\<rparr>) \<and> metrics_ok n m"
  using assms
proof (induction fs arbitrary: sh s)
  case Nil
  then show ?case
    by (auto simp: shared_ok_def intro!: exI [of _ "sh_metrics sh"] exI [of _ "log s"])
next
  case (Cons f fs)
  then have "telemetry n r f" by simp
  from telemetryE [OF this Cons.prems(2)] obtain m l
    where f: "f (sh, s) = Inr (sh\<lparr>sh_metrics := m\<rparr>, s\<lparr>log := l\<rparr>)" "metrics_ok n m" .
  from Cons.IH [OF _ shared_ok_metrics [OF Cons.prems(2) f(2)], of "s\<lparr>log := l\<rparr>"] Cons.prems(1)
  show ?case using f by simp
qed

section \<open>Invariants\<close>

text \<open>The backend whose socket a session holds.\<close>

definition holds :: "session \<Rightarrow> nat multiset" where
  "holds s = (case backend_socket s of None \<Rightarrow> {#} | Some _ \<Rightarrow> {#backend_index s#})"

text \<open>\<open>q\<close> has no idle socket that \<open>p\<close> did not have.\<close>

definition drained_from :: "connection_pool \<Rightarrow> connection_pool \<Rightarrow> bool" where
  "drained_from p q \<longleftrightarrow> length (free_sockets q) = length (free_sockets p) \<and>
     (\<forall>i < length (free_sockets p). prefix (free_sockets q ! i) (free_sockets p ! i))"

definition env_ok :: "nat \<Rightarrow> hash_ring \<Rightarrow> connection_pool \<Rightarrow> nat multiset \<Rightarrow> shared \<Rightarrow> bool" where
  "env_ok n r p H sh \<longleftrightarrow> shared_ok n r sh \<and> pc.balanced (sh_pool sh) H \<and> drained_from p (sh_pool sh)"

text \<open>No backend is tried twice, and a socket is got only of one that is tried.\<close>

definition history_inv :: "session \<Rightarrow> bool" where
  "history_inv s \<longleftrightarrow> distinct (grants s) \<and> distinct (reached s) \<and> set (reached s) \<subseteq> set (grants s)"

definition core_inv :: "session \<Rightarrow> bool" where
  "core_inv s \<longleftrightarrow> finite (excluded s) \<and> int (card (excluded s)) = attempts s \<and>
     history_inv s \<and>
     (\<not> capped (req_buf s) \<longrightarrow> data (req_buf s) = received s) \<and>
     prefix (data (req_buf s)) (received s) \<and> length (data (req_buf s)) \<le> kCap"

text \<open>At the head and at the end of the retry loop: nothing has reached the client.\<close>

definition untouched :: "session \<Rightarrow> bool" where
  "untouched s \<longleftrightarrow> to_client s = [] \<and> from_backend s = [] \<and> \<not> response_started s"

definition loop_inv :: "session \<Rightarrow> bool" where
  "loop_inv s \<longleftrightarrow> core_inv s \<and> untouched s \<and> backend_socket s = None \<and>
     attempts s \<le> max 0 (max_attempts s) \<and> grants s = reports s \<and> set (reports s) \<subseteq> excluded s"

text \<open>Why the loop was left.\<close>

definition exhausted :: "hash_ring \<Rightarrow> session \<Rightarrow> bool" where
  "exhausted r s \<longleftrightarrow> max_attempts s \<le> attempts s \<or> capped (req_buf s) \<or>
     (\<forall>(k, b) \<in> set (ring r). b \<in> excluded s)"

text \<open>Between the breaker's grant and the report.\<close>

definition busy_inv :: "nat \<Rightarrow> session \<Rightarrow> bool" where
  "busy_inv n s \<longleftrightarrow> core_inv s \<and> attempts s < max_attempts s \<and>
     backend_index s < n \<and> backend_index s \<notin> excluded s \<and>
     grants s = reports s @ [backend_index s] \<and> set (reports s) \<subseteq> excluded s"

text \<open>The socket a session holds is of the backend it tried last.\<close>

definition holding :: "session \<Rightarrow> bool" where
  "holding s \<longleftrightarrow> backend_socket s \<noteq> None \<and> reached s \<noteq> [] \<and> last (reached s) = backend_index s"

fun upstream :: "relay_pc \<Rightarrow> session \<Rightarrow> bool" where
  "upstream Reading s \<longleftrightarrow> to_backend s = received s"
| "upstream (Writing c) s \<longleftrightarrow> to_backend s @ c = received s"
| "upstream Returned s \<longleftrightarrow> prefix (to_backend s) (received s)"

fun downstream :: "relay_pc \<Rightarrow> session \<Rightarrow> bool" where
  "downstream Reading s \<longleftrightarrow> to_client s = from_backend s"
| "downstream (Writing c) s \<longleftrightarrow> to_client s @ c = from_backend s \<and> c \<noteq> []"
| "downstream Returned s \<longleftrightarrow> prefix (to_client s) (from_backend s)"

fun session_inv_at :: "nat \<Rightarrow> hash_ring \<Rightarrow> session_pc \<Rightarrow> session \<Rightarrow> bool" where
  "session_inv_at n r Started s \<longleftrightarrow> loop_inv s \<and> \<not> capped (req_buf s) \<and> grants s = []"
| "session_inv_at n r Acquiring s \<longleftrightarrow> busy_inv n s \<and> untouched s \<and> \<not> capped (req_buf s) \<and>
     backend_socket s = None \<and> backend_index s \<notin> set (reached s)"
| "session_inv_at n r Replaying s \<longleftrightarrow> busy_inv n s \<and> untouched s \<and> \<not> capped (req_buf s) \<and>
     holding s \<and> to_backend s = []"
| "session_inv_at n r (Relaying up down) s \<longleftrightarrow> busy_inv n s \<and> holding s \<and>
     upstream up s \<and> downstream down s \<and> (response_started s \<longleftrightarrow> from_backend s \<noteq> [])"
| "session_inv_at n r Sending_Status s \<longleftrightarrow> loop_inv s \<and> exhausted r s"
| "session_inv_at n r Draining s \<longleftrightarrow> backend_socket s = None \<and> grants s = reports s \<and>
     history_inv s \<and> int (length (reports s)) \<le> max 0 (max_attempts s) \<and>
     from_backend s = [] \<and> \<not> response_started s \<and> prefix (to_client s) unavailable_response \<and> exhausted r s"
| "session_inv_at n r Finished s \<longleftrightarrow> backend_socket s = None \<and> grants s = reports s \<and>
     history_inv s \<and> int (length (reports s)) \<le> max 0 (max_attempts s) \<and>
     (response_started s \<longleftrightarrow> from_backend s \<noteq> []) \<and> (response_started s \<longrightarrow> prefix (to_client s) (from_backend s)) \<and>
     (\<not> response_started s \<longrightarrow> prefix (to_client s) unavailable_response \<and> exhausted r s)"
| "session_inv_at n r (Died e) s \<longleftrightarrow> False"

definition session_inv :: "nat \<Rightarrow> hash_ring \<Rightarrow> session \<Rightarrow> bool" where
  "session_inv n r s \<longleftrightarrow> session_inv_at n r (pc s) s"

lemma session_history: "session_inv n r s \<Longrightarrow> history_inv s"
  by (cases "pc s") (auto simp: session_inv_def loop_inv_def busy_inv_def core_inv_def)

lemma downstream_silent: "downstream l s \<Longrightarrow> from_backend s = [] \<Longrightarrow> to_client s = []"
  by (cases l) simp_all

text \<open>A configuration is good when the shared state is, with \<open>H\<close> the sockets of the others.\<close>

definition good :: "nat \<Rightarrow> hash_ring \<Rightarrow> connection_pool \<Rightarrow> nat multiset \<Rightarrow> conf \<Rightarrow> bool" where
  "good n r p H c \<longleftrightarrow> env_ok n r p (H + holds (snd c)) (fst c)"

fun flow_ok :: "nat \<Rightarrow> hash_ring \<Rightarrow> connection_pool \<Rightarrow> nat multiset \<Rightarrow> flow \<Rightarrow> bool" where
  "flow_ok n r p H (Continue c) \<longleftrightarrow> good n r p H c \<and> loop_inv (snd c) \<and> \<not> capped (req_buf (snd c))"
| "flow_ok n r p H (Break c) \<longleftrightarrow> good n r p H c \<and> loop_inv (snd c) \<and> exhausted r (snd c)"
| "flow_ok n r p H (Suspend c) \<longleftrightarrow> good n r p H c \<and> session_inv n r (snd c)"
| "flow_ok n r p H (Return c) \<longleftrightarrow> good n r p H c \<and> session_inv_at n r Finished (snd c)"
| "flow_ok n r p H (Throw e c) \<longleftrightarrow> False"

section \<open>Statements that act\<close>

lemma holds_cong: "backend_socket s' = backend_socket s \<Longrightarrow> backend_index s' = backend_index s \<Longrightarrow> holds s' = holds s"
  by (simp add: holds_def split: option.split)

lemma holds_frame [simp]:
  "holds (s\<lparr>log := l\<rparr>) = holds s" "holds (s\<lparr>pc := c\<rparr>) = holds s"
  "holds (s\<lparr>reports := rs\<rparr>) = holds s" "holds (s\<lparr>to_backend := bs\<rparr>) = holds s"
  "holds (s\<lparr>reached := ts\<rparr>) = holds s" "holds (s\<lparr>response_started := x\<rparr>) = holds s"
  "holds (s\<lparr>excluded := ex\<rparr>) = holds s" "holds (s\<lparr>attempts := z\<rparr>) = holds s"
  "holds (s\<lparr>req_buf := rb\<rparr>) = holds s" "holds (s\<lparr>received := bs\<rparr>) = holds s"
  "holds (s\<lparr>to_client := bs\<rparr>) = holds s" "holds (s\<lparr>from_backend := bs\<rparr>) = holds s"
  by (rule holds_cong; simp)+

lemma history_inv_frame [simp]:
  "history_inv (s\<lparr>log := l\<rparr>) = history_inv s" "history_inv (s\<lparr>pc := c\<rparr>) = history_inv s"
  "history_inv (s\<lparr>reports := rs\<rparr>) = history_inv s" "history_inv (s\<lparr>to_backend := bs\<rparr>) = history_inv s"
  "history_inv (s\<lparr>response_started := x\<rparr>) = history_inv s" "history_inv (s\<lparr>backend_socket := so\<rparr>) = history_inv s"
  "history_inv (s\<lparr>excluded := ex\<rparr>) = history_inv s" "history_inv (s\<lparr>attempts := z\<rparr>) = history_inv s"
  "history_inv (s\<lparr>req_buf := rb\<rparr>) = history_inv s" "history_inv (s\<lparr>received := bs\<rparr>) = history_inv s"
  "history_inv (s\<lparr>to_client := bs\<rparr>) = history_inv s" "history_inv (s\<lparr>from_backend := bs\<rparr>) = history_inv s"
  by (simp_all add: history_inv_def)

lemma good_telemetry:
  "good n r p H (sh, s) \<Longrightarrow> metrics_ok n m \<Longrightarrow> good n r p H (sh\<lparr>sh_metrics := m\<rparr>, s\<lparr>log := l\<rparr>)"
  by (simp add: good_def env_ok_def shared_ok_def holds_frame)

lemma good_shared: "good n r p H c \<Longrightarrow> shared_ok n r (fst c)"
  by (simp add: good_def env_ok_def)

lemma good_breaker:
  assumes "good n r p H (sh, s)" and "breaker_inv br"
  shows "good n r p H (sh\<lparr>sh_breakers := (sh_breakers sh)[b := br], ticks := t\<rparr>, s)"
    and "good n r p H (sh\<lparr>sh_breakers := (sh_breakers sh)[b := br]\<rparr>, s)"
  using assms by (auto simp: good_def env_ok_def shared_ok_def list_all_iff dest: set_update_subset_insert [THEN subsetD])

lemma breaker_at:
  "shared_ok n r sh \<Longrightarrow> b < n \<Longrightarrow> breaker_inv (sh_breakers sh ! b)"
  by (simp add: shared_ok_def list_all_length)

lemma perform_Cons: "perform (f # fs) k c = perform [f] (perform fs k) c"
  by (simp split: sum.split)

text \<open>Running the telemetry of a stretch.\<close>

lemma flow_ok_telemetry:
  assumes "list_all (telemetry n r) fs" and "good n r p H (sh, s)"
    and "\<And>sh' l. good n r p H (sh', s\<lparr>log := l\<rparr>) \<Longrightarrow> flow_ok n r p H (k (sh', s\<lparr>log := l\<rparr>))"
  shows "flow_ok n r p H (perform fs k (sh, s))"
proof -
  obtain m l where "perform fs k (sh, s) = k (sh\<lparr>sh_metrics := m\<rparr>, s\<lparr>log := l\<rparr>)" "metrics_ok n m"
    using perform_telemetry [OF assms(1)] good_shared [OF assms(2)] by (metis fst_conv)
  then show ?thesis using assms(2,3) good_telemetry by simp
qed

lemma log_invs [simp]:
  "loop_inv (s\<lparr>log := l\<rparr>) = loop_inv s" "busy_inv n (s\<lparr>log := l\<rparr>) = busy_inv n s"
  "core_inv (s\<lparr>log := l\<rparr>) = core_inv s" "untouched (s\<lparr>log := l\<rparr>) = untouched s"
  "exhausted r (s\<lparr>log := l\<rparr>) = exhausted r s" "holding (s\<lparr>log := l\<rparr>) = holding s"
  by (simp_all add: loop_inv_def busy_inv_def core_inv_def untouched_def exhausted_def holding_def)

lemma goto_eq [simp]: "goto l (sh, s) = (sh, s\<lparr>pc := l\<rparr>)"
  by (simp add: goto_def)

lemma pc_invs [simp]:
  "loop_inv (s\<lparr>pc := l\<rparr>) = loop_inv s" "busy_inv n (s\<lparr>pc := l\<rparr>) = busy_inv n s"
  "core_inv (s\<lparr>pc := l\<rparr>) = core_inv s" "untouched (s\<lparr>pc := l\<rparr>) = untouched s"
  "exhausted r (s\<lparr>pc := l\<rparr>) = exhausted r s" "holding (s\<lparr>pc := l\<rparr>) = holding s"
  by (simp_all add: loop_inv_def busy_inv_def core_inv_def untouched_def exhausted_def holding_def)

lemma good_local: "good n r p H (sh, s) \<Longrightarrow> holds s' = holds s \<Longrightarrow> good n r p H (sh, s')"
  by (simp add: good_def)

lemma good_pc [simp]: "good n r p H (sh, s\<lparr>pc := l\<rparr>) = good n r p H (sh, s)"
  by (simp add: good_def)

lemma flow_ok_report_failure:
  assumes "good n r p H (sh, s)" and "b < n"
    and "\<And>sh' l. good n r p H (sh', s\<lparr>reports := reports s @ [b], log := l\<rparr>) \<Longrightarrow>
      flow_ok n r p H (k (sh', s\<lparr>reports := reports s @ [b], log := l\<rparr>))"
  shows "flow_ok n r p H (perform (record_failed_attempt b) k (sh, s))"
proof -
  let ?sh = "sh\<lparr>sh_breakers := (sh_breakers sh)[b := record_failure (clock sh (ticks sh)) (sh_breakers sh ! b)],
    ticks := ticks sh + 1\<rparr>"
  let ?s = "s\<lparr>reports := reports s @ [b]\<rparr>"
  have ok: "shared_ok n r sh" using good_shared [OF assms(1)] by simp
  then have "breaker_failure b (sh, s) = Inr (?sh, ?s)"
    using assms(2) by (simp add: breaker_failure_def shared_ok_def)
  moreover have "good n r p H (?sh, ?s)"
    using good_breaker(1) [OF assms(1) breaker_inv_failure [OF breaker_at [OF ok assms(2)]]]
    by (rule good_local) simp
  ultimately show ?thesis
    using flow_ok_telemetry [of n r "[on_metrics (record_backend_failure b), show_breaker b]" p H ?sh ?s k]
      assms(2,3) by (simp add: record_failed_attempt_def telemetry_rules)
qed

lemma flow_ok_report_success:
  assumes "good n r p H (sh, s)" and "b < n" and "list_all (telemetry n r) fs"
    and "\<And>sh' l. good n r p H (sh', s\<lparr>reports := reports s @ [b], log := l\<rparr>) \<Longrightarrow>
      flow_ok n r p H (k (sh', s\<lparr>reports := reports s @ [b], log := l\<rparr>))"
  shows "flow_ok n r p H (perform (breaker_success b # fs) k (sh, s))"
proof -
  let ?sh = "sh\<lparr>sh_breakers := (sh_breakers sh)[b := record_success (sh_breakers sh ! b)]\<rparr>"
  let ?s = "s\<lparr>reports := reports s @ [b]\<rparr>"
  have ok: "shared_ok n r sh" using good_shared [OF assms(1)] by simp
  then have "breaker_success b (sh, s) = Inr (?sh, ?s)"
    using assms(2) by (simp add: breaker_success_def shared_ok_def)
  moreover have "good n r p H (?sh, ?s)"
    using good_breaker(2) [OF assms(1) breaker_inv_success [OF breaker_at [OF ok assms(2)]]]
    by (rule good_local) simp
  ultimately show ?thesis
    using flow_ok_telemetry [of n r fs p H ?sh ?s k] assms(3,4) by simp
qed

text \<open>Sockets going out and coming back.\<close>

lemma good_checkout:
  assumes "good n r p H (sh, s)" and "backend_socket s = None"
    and "pool_checkout b (sh_pool sh) q" and "drained_from (sh_pool sh) q"
    and "backend_socket s' = Some sock" and "backend_index s' = b"
  shows "good n r p H (sh\<lparr>sh_pool := q\<rparr>, s')"
proof -
  have "pc.balanced q (H + {#b#})"
    using pc.balanced_checkout [of "sh_pool sh" H b q] assms(1-3) by (simp add: good_def env_ok_def holds_def)
  moreover have "drained_from p q"
    using assms(1,4) by (force simp: good_def env_ok_def drained_from_def intro: prefix_order.trans)
  ultimately show ?thesis
    using assms pool_checkout_counts [OF assms(3)]
    by (simp add: good_def env_ok_def shared_ok_def holds_def)
qed

lemma acquire_begin_drains:
  assumes "pool_ok p" and "acquire_begin b p = Inr (Some sock, q)"
  shows "pool_checkout b p q \<and> drained_from p q"
proof -
  obtain fs where fs: "free_sockets p ! b = fs @ [sock]"
    and q: "q = p\<lparr>free_sockets := (free_sockets p)[b := fs],
               active_counts := (active_counts p)[b := active_counts p ! b + 1]\<rparr>"
    using acquire_begin_cases [OF assms] by auto
  have "prefix ((free_sockets p)[b := fs] ! i) (free_sockets p ! i)" if "i < length (free_sockets p)" for i
    using fs that by (cases "i = b") simp_all
  then show ?thesis using assms by (auto simp: pool_checkout_def drained_from_def q)
qed

lemma acquire_end_drains:
  assumes "pool_ok p" and "acquire_end b (Inr sock) p = Inr (sock', q)"
  shows "pool_checkout b p q \<and> drained_from p q"
  using acquire_end_cases [OF assms] assms
  by (auto simp: pool_checkout_def drained_from_def)

lemma release_unhealthy_good:
  assumes "good n r p H (sh, s)" and "backend_socket s = Some sock" and "backend_index s = b" and "b < n"
  obtains q where "release_unhealthy b (sh, s) = Inr (sh\<lparr>sh_pool := q\<rparr>, s\<lparr>backend_socket := None\<rparr>)"
    and "good n r p H (sh\<lparr>sh_pool := q\<rparr>, s\<lparr>backend_socket := None\<rparr>)"
proof -
  have ok: "shared_ok n r sh" using good_shared [OF assms(1)] by simp
  then obtain q where q: "release b sock False (sh_pool sh) = Inr q"
    using assms(4) by (simp add: release_in_range shared_ok_def)
  have pool: "pool_ok (sh_pool sh)" using ok by (simp add: shared_ok_def)
  have ci: "pool_checkin b (sh_pool sh) q" using pool q by (auto simp: pool_checkin_def)
  have "pc.balanced q H"
    using pc.balanced_checkin [OF _ _ ci, of "H + {#b#}"] assms(1-3)
    by (simp add: good_def env_ok_def holds_def)
  moreover have "free_sockets q = free_sockets (sh_pool sh)"
    using release_cases [OF pool q] by auto
  ultimately have "good n r p H (sh\<lparr>sh_pool := q\<rparr>, s\<lparr>backend_socket := None\<rparr>)"
    using assms(1) pool_checkin_counts [OF ci]
    by (simp add: good_def env_ok_def shared_ok_def holds_def drained_from_def)
  moreover have "release_unhealthy b (sh, s) = Inr (sh\<lparr>sh_pool := q\<rparr>, s\<lparr>backend_socket := None\<rparr>)"
    using assms(2) q by (simp add: release_unhealthy_def)
  ultimately show ?thesis using that by blast
qed

text \<open>Giving up on the current backend re-establishes the loop's invariant.\<close>

lemma busy_to_loop:
  assumes "busy_inv n s" and "untouched s" and "backend_socket s = None"
  shows "loop_inv (s\<lparr>reports := reports s @ [backend_index s], log := l,
    excluded := insert (backend_index s) (excluded s), attempts := attempts s + 1\<rparr>)"
  using assms by (auto simp: busy_inv_def loop_inv_def core_inv_def untouched_def)

lemma flow_ok_give_up:
  assumes "good n r p H (sh, s)" and "busy_inv n s" and "untouched s" and "backend_socket s = None"
    and "list_all (telemetry n r) fs"
    and "\<And>sh' s'. good n r p H (sh', s') \<Longrightarrow> loop_inv s' \<Longrightarrow> req_buf s' = req_buf s \<Longrightarrow>
      flow_ok n r p H (k (sh', s'))"
  shows "flow_ok n r p H
    (perform (record_failed_attempt (backend_index s) @ fs @ [give_up_on (backend_index s)]) k (sh, s))"
  unfolding perform_append
proof (rule flow_ok_report_failure [OF assms(1)])
  let ?b = "backend_index s"
  let ?s = "s\<lparr>reports := reports s @ [?b]\<rparr>"
  show "?b < n" using assms(2) by (simp add: busy_inv_def)
  fix sh' l assume g: "good n r p H (sh', ?s\<lparr>log := l\<rparr>)"
  show "flow_ok n r p H (perform fs (perform [give_up_on ?b] k) (sh', ?s\<lparr>log := l\<rparr>))"
  proof (rule flow_ok_telemetry [OF assms(5) g])
    fix sh'' l' assume g': "good n r p H (sh'', ?s\<lparr>log := l, log := l'\<rparr>)"
    let ?t = "?s\<lparr>log := l', excluded := insert ?b (excluded s), attempts := attempts s + 1\<rparr>"
    have "loop_inv ?t" using busy_to_loop [OF assms(2-4), of l'] by simp
    moreover have "good n r p H (sh'', ?t)" by (rule good_local [OF g']) simp
    ultimately show "flow_ok n r p H (perform [give_up_on ?b] k (sh'', ?s\<lparr>log := l, log := l'\<rparr>))"
      using assms(6) by (simp add: give_up_on_def)
  qed
qed

lemma grants_bounded:
  assumes "busy_inv n s"
  shows "int (length (grants s)) \<le> max_attempts s"
proof -
  have "card (set (grants s)) \<le> card (insert (backend_index s) (excluded s))"
    using assms by (intro card_mono) (auto simp: busy_inv_def core_inv_def history_inv_def)
  then show ?thesis
    using assms distinct_card [of "grants s"] by (auto simp: busy_inv_def core_inv_def history_inv_def)
qed

section \<open>The stretches keep the invariants\<close>

lemma acquired_ok:
  assumes "good n r p H (sh, s\<lparr>backend_socket := Some sock\<rparr>)" and "busy_inv n s" and "untouched s"
    and "\<not> capped (req_buf s)" and "backend_index s \<notin> set (reached s)"
  shows "flow_ok n r p H (acquired (backend_index s) sock (sh, s))"
proof -
  let ?b = "backend_index s"
  let ?s = "s\<lparr>backend_socket := Some sock, to_backend := [], reached := reached s @ [?b]\<rparr>"
  have good: "good n r p H (sh, ?s)" by (rule good_local [OF assms(1)]) (simp add: holds_def)
  have busy: "busy_inv n ?s" "untouched ?s" "holding ?s"
    using assms(2-) by (auto simp: busy_inv_def core_inv_def history_inv_def untouched_def holding_def)
  have b: "?b < n" using assms(2) by (simp add: busy_inv_def)
  have data: "data (req_buf s) = received s"
    using assms(2,4) by (simp add: busy_inv_def core_inv_def history_inv_def)
  show ?thesis
    unfolding acquired_def split Let_def
  proof (rule flow_ok_telemetry [OF _ good])
    fix sh' l assume g: "good n r p H (sh', ?s\<lparr>log := l\<rparr>)"
    show "flow_ok n r p H (if data (req_buf (snd (sh', ?s\<lparr>log := l\<rparr>))) \<noteq> []
      then Suspend (goto Replaying (sh', ?s\<lparr>log := l\<rparr>)) else start_relays (sh', ?s\<lparr>log := l\<rparr>))"
      using g busy assms(4) data
      by (auto simp: start_relays_def session_inv_def intro!: good_local [OF g])
        (auto simp: busy_inv_def core_inv_def history_inv_def untouched_def holding_def)
  qed (simp add: telemetry_rules b)
qed

lemma connect_failed_ok:
  assumes "good n r p H (sh, s)" and "busy_inv n s" and "untouched s" and "\<not> capped (req_buf s)"
    and "backend_socket s = None"
  shows "flow_ok n r p H (connect_failed (backend_index s) e (sh, s))"
proof -
  let ?b = "backend_index s"
  have b: "?b < n" using assms(2) by (simp add: busy_inv_def)
  let ?fs = "record_failed_attempt ?b @ [give_up_on ?b]"
  have "flow_ok n r p H (perform [log_event ''connect_failed'' (fields2 ''backend'' (to_string ?b) ''error'' (exn_what e))]
      (perform ?fs Continue) (sh, s))"
  proof (rule flow_ok_telemetry [OF _ assms(1)])
    fix sh' l assume "good n r p H (sh', s\<lparr>log := l\<rparr>)"
    then show "flow_ok n r p H (perform ?fs Continue (sh', s\<lparr>log := l\<rparr>))"
      using flow_ok_give_up [of n r p H sh' "s\<lparr>log := l\<rparr>" "[]" Continue] assms(2-5) by simp
  qed (simp add: telemetry_rules)
  then show ?thesis unfolding connect_failed_def by (subst perform_Cons)
qed

text \<open>A breaker that refuses, and one that grants.\<close>

lemma skipped_ok:
  assumes "good n r p H (sh, s)" and "loop_inv s" and "\<not> capped (req_buf s)"
    and "attempts s < max_attempts s" and "b \<notin> excluded s"
  shows "flow_ok n r p H (perform
    [log_event ''breaker_skip'' (fields2 ''backend'' (to_string b) ''reason'' ''open_or_trial_busy''), give_up_on b]
    Continue (sh, s))"
proof -
  let ?fs = "[log_event ''breaker_skip'' (fields2 ''backend'' (to_string b) ''reason'' ''open_or_trial_busy'')]"
  have "flow_ok n r p H (perform (?fs @ [give_up_on b]) Continue (sh, s))"
    unfolding perform_append
  proof (rule flow_ok_telemetry [OF _ assms(1)])
    fix sh' l assume g: "good n r p H (sh', s\<lparr>log := l\<rparr>)"
    let ?t = "s\<lparr>log := l, excluded := insert b (excluded s), attempts := attempts s + 1\<rparr>"
    have "good n r p H (sh', ?t)" by (rule good_local [OF g]) simp
    moreover have "loop_inv ?t"
      using assms(2,4,5) by (auto simp: loop_inv_def core_inv_def untouched_def)
    ultimately show "flow_ok n r p H (perform [give_up_on b] Continue (sh', s\<lparr>log := l\<rparr>))"
      using assms(3) by (simp add: give_up_on_def)
  qed (simp add: telemetry_rules)
  then show ?thesis by simp
qed

lemma granted_ok:
  assumes "good n r p H (sh, s)" and "busy_inv n s" and "untouched s" and "\<not> capped (req_buf s)"
    and "backend_socket s = None" and "backend_index s \<notin> set (reached s)" and "backend_index s = b"
  shows "flow_ok n r p H (case acquire_begin b (sh_pool sh) of
      Inl e \<Rightarrow> connect_failed b e (sh, s)
    | Inr (Some sock, p) \<Rightarrow> acquired b sock (sh\<lparr>sh_pool := p\<rparr>, s)
    | Inr (None, p) \<Rightarrow> Suspend (goto Acquiring (sh\<lparr>sh_pool := p\<rparr>, s)))"
proof -
  have pool: "pool_ok (sh_pool sh)" using good_shared [OF assms(1)] by (simp add: shared_ok_def)
  show ?thesis
  proof (cases "acquire_begin b (sh_pool sh)")
    case (Inl e)
    then show ?thesis using connect_failed_ok [OF assms(1-3)] assms(4-7) by simp
  next
    case (Inr x)
    obtain hit q where x: "x = (hit, q)" by fastforce
    show ?thesis
    proof (cases hit)
      case None
      then have "q = sh_pool sh" using acquire_begin_cases [of "sh_pool sh" b hit q] Inr x pool by auto
      then have "sh\<lparr>sh_pool := q\<rparr> = sh" by simp
      then show ?thesis
        using None Inr x assms good_local [OF assms(1), of "s\<lparr>pc := Acquiring\<rparr>"] by (simp add: session_inv_def)
    next
      case (Some sock)
      note d = acquire_begin_drains [of "sh_pool sh" b sock q]
      have "good n r p H (sh\<lparr>sh_pool := q\<rparr>, s\<lparr>backend_socket := Some sock\<rparr>)"
        using d Inr x Some pool assms(5,7) by (intro good_checkout [OF assms(1)]) simp_all
      from acquired_ok [OF this assms(2,3) _ assms(6)]
      show ?thesis using Some Inr x assms(4,7) by simp
    qed
  qed
qed

lemma gated_ok:
  assumes "good n r p H (sh, s)" and "loop_inv s" and "\<not> capped (req_buf s)"
    and "attempts s < max_attempts s" and "b < n" and "b \<notin> excluded s"
  shows "flow_ok n r p H (gated b (sh, s))"
proof -
  obtain ok br where allow: "allow_request (clock sh (ticks sh)) (sh_breakers sh ! b) = (ok, br)"
    by fastforce
  let ?sh = "sh\<lparr>sh_breakers := (sh_breakers sh)[b := br], ticks := ticks sh + 1\<rparr>"
  have "breaker_inv br"
    using breaker_inv_allow [OF breaker_at [OF _ assms(5)]] good_shared [OF assms(1)] allow by (metis fst_conv snd_conv)
  then have good: "good n r p H (?sh, s)" using good_breaker(1) [OF assms(1)] by blast
  show ?thesis
  proof (cases ok)
    case False
    then show ?thesis
      using skipped_ok [OF good assms(2-4,6)] allow by (simp add: gated_def Let_def del: perform.simps)
  next
    case True
    let ?s = "s\<lparr>backend_index := b, grants := grants s @ [b]\<rparr>"
    have none: "backend_socket s = None" using assms(2) by (simp add: loop_inv_def)
    have good': "good n r p H (?sh, ?s)" by (rule good_local [OF good]) (simp add: holds_def none)
    have "busy_inv n ?s" "untouched ?s" "backend_index ?s \<notin> set (reached ?s)"
      using assms(2-) by (force simp: loop_inv_def busy_inv_def core_inv_def history_inv_def untouched_def)+
    from granted_ok [OF good' this(1,2) _ _ this(3), of b] show ?thesis
      unfolding gated_def Let_def prod.case allow using True assms(3) none by simp
  qed
qed

lemma loop_body_ok:
  assumes "good n r p H (sh, s)" and "loop_inv s" and "\<not> capped (req_buf s)"
    and "attempts s < max_attempts s"
  shows "flow_ok n r p H (loop_body (sh, s))"
proof -
  have shared: "shared_ok n r sh" using good_shared [OF assms(1)] by simp
  then have ring: "sh_ring sh = r" "ring_inv r" "active_backends r \<subseteq> {..<n}"
    by (simp_all add: shared_ok_def)
  show ?thesis
  proof (cases "get_backend_excluding r (client_key s) (excluded s)")
    case None
    then have "exhausted r s"
      using get_backend_excluding_None [OF ring_inv_sorted [OF ring(2)]] by (auto simp: exhausted_def)
    then show ?thesis
      unfolding loop_body_def split Let_def ring None option.case
      using assms(2) by (intro flow_ok_telemetry [OF _ assms(1)]) (simp_all add: telemetry_rules)
  next
    case (Some b)
    then obtain k where "(k, b) \<in> set (ring r)" and b: "b \<notin> excluded s"
      using get_backend_excluding_iff [OF ring_inv_sorted [OF ring(2)]] by blast
    then have n: "b < n" using ring by (fastforce simp: ring_inv_def)
    show ?thesis
      unfolding loop_body_def split Let_def ring Some option.case
    proof (rule flow_ok_telemetry [OF _ assms(1)])
      fix sh' l assume "good n r p H (sh', s\<lparr>log := l\<rparr>)"
      then show "flow_ok n r p H (gated b (sh', s\<lparr>log := l\<rparr>))"
        using assms(2-) n b by (intro gated_ok) simp_all
    qed (simp add: telemetry_rules n)
  qed
qed

lemma retry_loop_ok:
  assumes "good n r p H c" and "loop_inv (snd c)" and "\<not> capped (req_buf (snd c))"
  shows "flow_ok n r p H (retry_loop c) \<and> (\<forall>c'. retry_loop c \<noteq> Continue c')"
  using assms
proof (induction c rule: retry_loop.induct)
  case (1 c)
  show ?case
  proof (cases "attempts (snd c) < max_attempts (snd c)")
    case False
    then show ?thesis using 1(2-4) by (simp add: retry_loop.simps [of c] exhausted_def)
  next
    case True
    have body: "flow_ok n r p H (loop_body c)"
      using loop_body_ok [of n r p H "fst c" "snd c"] 1(2-4) True by simp
    show ?thesis
    proof (cases "loop_body c")
      case (Continue c')
      then show ?thesis using 1(1) [OF True Continue] body True by (simp add: retry_loop.simps [of c])
    qed (use body True in \<open>simp_all add: retry_loop.simps [of c]\<close>)
  qed
qed

lemma fall_back_ok:
  assumes "good n r p H (sh, s)" and "loop_inv s" and "exhausted r s"
  shows "flow_ok n r p H (fall_back (sh, s)) \<and> (\<exists>c. fall_back (sh, s) = Suspend c)"
proof
  show "flow_ok n r p H (fall_back (sh, s))"
    unfolding fall_back_def
    using assms(2,3) by (intro flow_ok_telemetry [OF _ assms(1)])
      (auto simp: telemetry_rules session_inv_def intro: good_local)
  show "\<exists>c. fall_back (sh, s) = Suspend c"
    by (simp add: fall_back_def on_metrics_def log_event_def)
qed

lemma resume_ok:
  assumes "flow_ok n r p H fl"
  shows "good n r p H (resume fl) \<and> session_inv n r (snd (resume fl))"
proof -
  let ?fl = "case fl of Continue c \<Rightarrow> retry_loop c | fl \<Rightarrow> fl"
  have loop: "flow_ok n r p H ?fl \<and> (\<forall>c. ?fl \<noteq> Continue c)"
    using assms retry_loop_ok [of n r p H] by (cases fl) simp_all
  let ?gl = "case ?fl of Break c \<Rightarrow> fall_back c | fl \<Rightarrow> fl"
  have "flow_ok n r p H ?gl \<and> (\<forall>c. ?gl \<noteq> Continue c) \<and> (\<forall>c. ?gl \<noteq> Break c)"
    using loop by (cases ?fl) (auto dest: fall_back_ok)
  then show ?thesis
    unfolding resume_def finish_def
    by (cases ?gl) (auto simp: session_inv_def intro: good_local)
qed

lemma after_connect_ok:
  assumes "good n r p H (sh, s)" and "session_inv_at n r Acquiring s"
  shows "flow_ok n r p H (after_connect env (sh, s))"
proof -
  let ?b = "backend_index s"
  have inv: "busy_inv n s" "untouched s" "\<not> capped (req_buf s)" "backend_socket s = None"
    "?b \<notin> set (reached s)" using assms(2) by simp_all
  have pool: "pool_ok (sh_pool sh)" using good_shared [OF assms(1)] by (simp add: shared_ok_def)
  show ?thesis
  proof (cases "acquire_end ?b (connect (sh_pool sh) ?b env) (sh_pool sh)")
    case (Inl e)
    then show ?thesis
      using connect_failed_ok [OF assms(1) inv(1-4)] by (simp add: after_connect_def)
  next
    case (Inr x)
    obtain sock q where x: "x = (sock, q)" by fastforce
    obtain sock' where "connect (sh_pool sh) ?b env = Inr sock'"
      using Inr by (auto simp: acquire_end_def bind_result_eq_Inr)
    then have d: "pool_checkout ?b (sh_pool sh) q \<and> drained_from (sh_pool sh) q"
      using acquire_end_drains [OF pool] Inr x by simp
    have "good n r p H (sh\<lparr>sh_pool := q\<rparr>, s\<lparr>backend_socket := Some sock\<rparr>)"
      using d by (intro good_checkout [OF assms(1) inv(4)]) simp_all
    from acquired_ok [OF this inv(1-3,5)] show ?thesis using Inr x by (simp add: after_connect_def)
  qed
qed

lemma start_relays_ok:
  assumes "good n r p H (sh, s)" and "busy_inv n s" and "untouched s" and "holding s"
    and "to_backend s = received s"
  shows "flow_ok n r p H (start_relays (sh, s))"
  using assms by (auto simp: start_relays_def session_inv_def busy_inv_def core_inv_def untouched_def holding_def
      intro: good_local)

lemma after_replay_ok:
  assumes "good n r p H (sh, s)" and inv: "busy_inv n s" "untouched s" "\<not> capped (req_buf s)" "holding s"
    and "\<not> ec \<Longrightarrow> to_backend s = data (req_buf s)"
  shows "flow_ok n r p H (after_replay ec (sh, s))"
proof -
  let ?b = "backend_index s"
  show ?thesis
  proof (cases ec)
    case False
    have "to_backend s = received s"
      using assms(6) False inv(1,3) by (simp add: busy_inv_def core_inv_def)
    then show ?thesis
      using False start_relays_ok [OF assms(1) inv(1,2,4)] by (simp add: after_replay_def)
  next
    case True
    have b: "?b < n" using inv(1) by (simp add: busy_inv_def)
    let ?fs = "[log_event ''replay_failed'' (fields ''backend'' (to_string ?b))]"
    have "flow_ok n r p H
      (perform (?fs @ record_failed_attempt ?b @ [release_unhealthy ?b, give_up_on ?b]) Continue (sh, s))"
      unfolding perform_append
    proof (rule flow_ok_telemetry [OF _ assms(1)], simp add: telemetry_rules, rule flow_ok_report_failure [OF _ b])
      fix sh' l sh'' l'
      let ?s = "s\<lparr>reports := reports s @ [?b], log := l'\<rparr>"
      assume "good n r p H (sh'', s\<lparr>log := l, reports := reports (s\<lparr>log := l\<rparr>) @ [?b], log := l'\<rparr>)"
      then have g: "good n r p H (sh'', ?s)" by simp
      obtain sock where sock: "backend_socket ?s = Some sock" using inv(4) by (auto simp: holding_def)
      obtain q where rel: "release_unhealthy ?b (sh'', ?s) = Inr (sh''\<lparr>sh_pool := q\<rparr>, ?s\<lparr>backend_socket := None\<rparr>)"
        and g': "good n r p H (sh''\<lparr>sh_pool := q\<rparr>, ?s\<lparr>backend_socket := None\<rparr>)"
        using release_unhealthy_good [OF g sock _ b] by auto
      have "busy_inv n (s\<lparr>backend_socket := None\<rparr>)" "untouched (s\<lparr>backend_socket := None\<rparr>)"
        using inv(1,2) by (simp_all add: busy_inv_def core_inv_def untouched_def)
      from busy_to_loop [OF this, of l']
      have "loop_inv (?s\<lparr>backend_socket := None, excluded := insert ?b (excluded s), attempts := attempts s + 1\<rparr>)"
        by (simp add: loop_inv_def core_inv_def untouched_def)
      then show "flow_ok n r p H (perform [release_unhealthy ?b, give_up_on ?b] Continue
          (sh'', s\<lparr>log := l, reports := reports (s\<lparr>log := l\<rparr>) @ [?b], log := l'\<rparr>))"
        using rel good_local [OF g'] inv(3) by (simp add: give_up_on_def)
    qed simp
    then show ?thesis using True by (simp add: after_replay_def Let_def)
  qed
qed

lemma settle_ok:
  assumes "good n r p H (sh, s)" and "busy_inv n s" and "backend_socket s = None"
    and "prefix (to_client s) (from_backend s)" and "response_started s \<longleftrightarrow> from_backend s \<noteq> []"
  shows "flow_ok n r p H (settle (backend_index s) (response_started s) (sh, s))"
proof (cases "response_started s")
  case True
  let ?b = "backend_index s"
  have "flow_ok n r p H (perform (breaker_success ?b # [on_metrics (record_backend_success ?b), show_breaker ?b,
      log_event ''request_succeeded'' (fields ''backend'' (to_string ?b))]) Return (sh, s))"
    using assms grants_bounded [OF assms(2)] True
    by (intro flow_ok_report_success) (auto simp: telemetry_rules busy_inv_def core_inv_def)
  then show ?thesis using True by (simp only: settle_def if_True)
next
  case False
  have "flow_ok n r p H (retry_unless_capped (sh', t))" if "good n r p H (sh', t)" "loop_inv t" for sh' t
    unfolding retry_unless_capped_def
    using that by (auto intro!: flow_ok_telemetry simp: telemetry_rules exhausted_def simp del: perform.simps)
  then show ?thesis
    using flow_ok_give_up [OF assms(1,2) _ assms(3), where k = retry_unless_capped and
        fs = "[log_event ''backend_failed_no_response'' (fields ''backend'' (to_string (backend_index s)))]"]
      assms(4,5) False
    by (simp add: settle_def telemetry_rules untouched_def del: perform.simps)
qed

lemma after_relays_ok:
  assumes "good n r p H (sh, s)" and "session_inv_at n r (Relaying Returned Returned) s"
  shows "flow_ok n r p H (after_relays (sh, s))"
proof -
  let ?b = "backend_index s"
  have inv: "busy_inv n s" "backend_socket s \<noteq> None" "prefix (to_client s) (from_backend s)"
    "response_started s \<longleftrightarrow> from_backend s \<noteq> []"
    using assms(2) by (simp_all add: holding_def)
  have b: "?b < n" using inv(1) by (simp add: busy_inv_def)
  obtain sock where sock: "backend_socket s = Some sock" using inv(2) by auto
  let ?s = "s\<lparr>backend_socket := None\<rparr>"
  obtain q where rel: "release_unhealthy ?b (sh, s) = Inr (sh\<lparr>sh_pool := q\<rparr>, ?s)"
    and g: "good n r p H (sh\<lparr>sh_pool := q\<rparr>, ?s)"
    using release_unhealthy_good [OF assms(1) sock _ b] by auto
  have busy: "busy_inv n ?s" using inv(1) by (simp add: busy_inv_def core_inv_def)
  have "flow_ok n r p H (perform [show_pool_active ?b, show_pool_idle ?b] (settle ?b (response_started s))
      (sh\<lparr>sh_pool := q\<rparr>, ?s))"
  proof (rule flow_ok_telemetry [OF _ g])
    fix sh' l assume "good n r p H (sh', ?s\<lparr>log := l\<rparr>)"
    then show "flow_ok n r p H (settle ?b (response_started s) (sh', ?s\<lparr>log := l\<rparr>))"
      using settle_ok [of n r p H sh' "?s\<lparr>log := l\<rparr>"] busy inv(3,4) by simp
  qed (simp add: telemetry_rules b)
  then show ?thesis
    unfolding after_relays_def Let_def snd_conv by (subst perform_Cons) (simp add: rel)
qed

section \<open>Every step keeps the invariants\<close>

lemma handle_client_ok:
  assumes "good n r p H (sh, s)" and "session_inv_at n r Started s"
  shows "good n r p H (handle_client (sh, s)) \<and> session_inv n r (snd (handle_client (sh, s)))"
  unfolding handle_client_def
  by (rule resume_ok, rule flow_ok_telemetry [OF _ assms(1)]) (use assms(2) in \<open>simp_all add: telemetry_rules\<close>)

lemma rb_append_inv:
  assumes "core_inv s"
  shows "core_inv (s\<lparr>req_buf := rb_append c (req_buf s), received := received s @ c\<rparr>)"
  using assms by (auto simp: core_inv_def rb_append_def)

lemma after_leg_ok:
  assumes "good n r p H (sh, s)" and "session_inv n r s"
  shows "good n r p H (after_leg (sh, s)) \<and> session_inv n r (snd (after_leg (sh, s)))"
proof (cases "pc s = Relaying Returned Returned")
  case True
  then show ?thesis
    using resume_ok [OF after_relays_ok [OF assms(1)]] assms(2) by (simp add: after_leg_def session_inv_def)
qed (use assms in \<open>simp add: after_leg_def\<close>)

lemma client_leg_inv:
  assumes "session_inv n r s" and pc: "pc s = Relaying up down" and relay: "relay (down = Returned) ev up = Some (up', got, put)"
  shows "session_inv n r (s\<lparr>req_buf := (if got = [] then req_buf s else rb_append got (req_buf s)),
      received := received s @ got, to_backend := to_backend s @ put, pc := Relaying up' down\<rparr>)" (is "session_inv n r ?s")
proof -
  have inv: "busy_inv n s" "holding s" "upstream up s" "downstream down s"
    "response_started s \<longleftrightarrow> from_backend s \<noteq> []"
    using assms(1) pc by (simp_all add: session_inv_def)
  have "core_inv ?s"
    using rb_append_inv [of s got] inv(1) by (auto simp: busy_inv_def core_inv_def)
  then have "busy_inv n ?s" using inv(1) by (simp add: busy_inv_def)
  moreover have "downstream down ?s" using inv(4) by (cases down) simp_all
  moreover have "upstream up' ?s"
    using inv(3) relay
    by (cases "(down = Returned, ev, up)" rule: relay.cases)
      (auto split: if_splits simp: prefix_def, metis append.assoc append_take_drop_id)
  ultimately show ?thesis using inv(2,5) by (simp add: session_inv_def holding_def)
qed

lemma client_leg_moves:
  assumes "good n r p H (sh, s)" and "session_inv n r s" and "step (Client_Leg ev) (sh, s) = Some c"
  shows "\<exists>t. c = after_leg (sh, t) \<and> good n r p H (sh, t) \<and> session_inv n r t \<and> grants t = grants s \<and> reports t = reports s"
proof -
  obtain up down up' got put where pc: "pc s = Relaying up down"
    and relay: "relay (down = Returned) ev up = Some (up', got, put)"
    and c: "c = after_leg (sh, s\<lparr>req_buf := (if got = [] then req_buf s else rb_append got (req_buf s)),
      received := received s @ got, to_backend := to_backend s @ put, pc := Relaying up' down\<rparr>)" (is "_ = after_leg (sh, ?s)")
    using assms(3) by (auto split: session_pc.splits option.splits)
  have "good n r p H (sh, ?s)" by (rule good_local [OF assms(1)]) simp
  then show ?thesis using client_leg_inv [OF assms(2) pc relay] unfolding c by (intro exI [of _ ?s]) simp
qed

lemma client_leg_ok:
  assumes "good n r p H (sh, s)" and "session_inv n r s" and "step (Client_Leg ev) (sh, s) = Some c"
  shows "good n r p H c \<and> session_inv n r (snd c)"
  using client_leg_moves [OF assms] after_leg_ok by blast

lemma backend_leg_inv:
  assumes "session_inv n r s" and pc: "pc s = Relaying up down" and relay: "relay (up = Returned) ev down = Some (down', got, put)"
  shows "session_inv n r (s\<lparr>response_started := (response_started s \<or> got \<noteq> []),
      from_backend := from_backend s @ got, to_client := to_client s @ put, pc := Relaying up down'\<rparr>)" (is "session_inv n r ?s")
proof -
  have inv: "busy_inv n s" "holding s" "upstream up s" "downstream down s"
    "response_started s \<longleftrightarrow> from_backend s \<noteq> []"
    using assms(1) pc by (simp_all add: session_inv_def)
  have "busy_inv n ?s" using inv(1) by (simp add: busy_inv_def core_inv_def)
  moreover have "upstream up ?s" using inv(3) by (cases up) simp_all
  moreover have "downstream down' ?s"
    using inv(4) relay
    by (cases "(up = Returned, ev, down)" rule: relay.cases)
      (auto split: if_splits simp: prefix_def, metis append.assoc append_take_drop_id)
  ultimately show ?thesis using inv(2,5) by (simp add: session_inv_def holding_def)
qed

lemma backend_leg_moves:
  assumes "good n r p H (sh, s)" and "session_inv n r s" and "step (Backend_Leg ev) (sh, s) = Some c"
  shows "\<exists>t. c = after_leg (sh, t) \<and> good n r p H (sh, t) \<and> session_inv n r t \<and> grants t = grants s \<and> reports t = reports s"
proof -
  obtain up down down' got put where pc: "pc s = Relaying up down"
    and relay: "relay (up = Returned) ev down = Some (down', got, put)"
    and c: "c = after_leg (sh, s\<lparr>response_started := (response_started s \<or> got \<noteq> []),
      from_backend := from_backend s @ got, to_client := to_client s @ put, pc := Relaying up down'\<rparr>)" (is "_ = after_leg (sh, ?s)")
    using assms(3) by (auto split: session_pc.splits option.splits)
  have "good n r p H (sh, ?s)" by (rule good_local [OF assms(1)]) simp
  then show ?thesis using backend_leg_inv [OF assms(2) pc relay] unfolding c by (intro exI [of _ ?s]) simp
qed

lemma backend_leg_ok:
  assumes "good n r p H (sh, s)" and "session_inv n r s" and "step (Backend_Leg ev) (sh, s) = Some c"
  shows "good n r p H c \<and> session_inv n r (snd c)"
  using backend_leg_moves [OF assms] after_leg_ok by blast

lemma loop_grants_bounded:
  assumes "loop_inv s"
  shows "int (length (grants s)) \<le> max 0 (max_attempts s)"
proof -
  have "card (set (grants s)) \<le> card (excluded s)"
    using assms by (intro card_mono) (auto simp: loop_inv_def core_inv_def history_inv_def)
  then show ?thesis
    using assms distinct_card [of "grants s"] by (auto simp: loop_inv_def core_inv_def history_inv_def)
qed

lemma status_ok:
  assumes "good n r p H (sh, s)" and "session_inv n r s" and "step (Status ev) (sh, s) = Some c"
  shows "good n r p H c \<and> session_inv n r (snd c)"
proof -
  obtain bs where pc: "pc s = Sending_Status" and bs: "prefix bs unavailable_response"
    and c: "c = (sh, s\<lparr>to_client := to_client s @ bs, pc := Draining\<rparr>)"
  proof (cases ev)
    case Wrote
    then show ?thesis using assms(3) that [of unavailable_response] by (simp split: if_splits)
  next
    case (Write_Failed k)
    then show ?thesis
      using assms(3) that [of "take k unavailable_response"] by (simp add: take_is_prefix split: if_splits)
  qed (use assms(3) in \<open>simp_all split: if_splits\<close>)
  have "loop_inv s" "exhausted r s" using assms(2) pc by (simp_all add: session_inv_def)
  then show ?thesis
    using bs loop_grants_bounded [of s] good_local [OF assms(1)]
    unfolding c by (auto simp: session_inv_def loop_inv_def untouched_def core_inv_def exhausted_def)
qed

lemma step_ok:
  assumes "good n r p H (sh, s)" and "session_inv n r s" and "step e (sh, s) = Some c"
  shows "good n r p H c \<and> session_inv n r (snd c)"
proof (cases e)
  case Start
  then show ?thesis
    using assms handle_client_ok [OF assms(1)] by (auto simp: session_inv_def split: if_splits)
next
  case (Connected env)
  then show ?thesis
    using assms resume_ok [OF after_connect_ok [OF assms(1)]] by (auto simp: session_inv_def split: if_splits)
next
  case (Replayed ev)
  then obtain ec bs where pc: "pc s = Replaying" and c: "c = resume (after_replay ec (sh, s\<lparr>to_backend := bs\<rparr>))"
    and bs: "\<not> ec \<Longrightarrow> bs = data (req_buf s)"
    using assms(3) by (auto split: if_splits io.splits)
  have "good n r p H (sh, s\<lparr>to_backend := bs\<rparr>)" by (rule good_local [OF assms(1)]) simp
  moreover have "busy_inv n (s\<lparr>to_backend := bs\<rparr>)" "untouched (s\<lparr>to_backend := bs\<rparr>)" "\<not> capped (req_buf s)" "holding (s\<lparr>to_backend := bs\<rparr>)"
    using assms(2) pc by (auto simp: session_inv_def busy_inv_def core_inv_def untouched_def holding_def)
  ultimately show ?thesis unfolding c using bs by (intro resume_ok after_replay_ok) simp_all
next
  case (Client_Leg ev)
  then show ?thesis using client_leg_ok assms by blast
next
  case (Backend_Leg ev)
  then show ?thesis using backend_leg_ok assms by blast
next
  case (Status ev)
  then show ?thesis using status_ok assms by blast
next
  case (Drain ev)
  then show ?thesis
    using assms by (auto simp: session_inv_def exhausted_def split: if_splits io.splits)
qed

section \<open>A request to a healthy backend\<close>

lemma acquired_relays:
  assumes "shared_ok n r sh" and "b < n" and "data (req_buf s) = []"
  shows "\<exists>m l. acquired b sock (sh, s) = Suspend (sh\<lparr>sh_metrics := m\<rparr>,
    s\<lparr>backend_socket := Some sock, to_backend := [], reached := reached s @ [b], log := l,
      response_started := False, pc := Relaying Reading Reading\<rparr>)"
proof -
  let ?k = "\<lambda>c. if data (req_buf (snd c)) \<noteq> [] then Suspend (goto Replaying c) else start_relays c"
  let ?s = "s\<lparr>backend_socket := Some sock, to_backend := [], reached := reached s @ [b]\<rparr>"
  obtain m l where "acquired b sock (sh, s) = ?k (sh\<lparr>sh_metrics := m\<rparr>, ?s\<lparr>log := l\<rparr>)"
    unfolding acquired_def split Let_def
    using perform_telemetry [of n r "[log_event ''backend_selected''
        (fields2 ''backend'' (to_string b) ''attempt'' (int_to_string (attempts s + 1))),
        show_pool_active b, show_pool_idle b]" sh ?k ?s] assms(1,2) by (auto simp: telemetry_rules simp del: perform.simps)
  then show ?thesis
    using assms(3) by (intro exI [of _ m] exI [of _ l]) (simp add: start_relays_def)
qed

lemma gated_relays:
  assumes "shared_ok n r sh" and "b < n" and "data (req_buf s) = []"
    and allow: "allow_request (clock sh (ticks sh)) (sh_breakers sh ! b) = (True, br)"
    and "free_sockets (sh_pool sh) ! b = fs @ [sock]"
  shows "\<exists>sh' l. gated b (sh, s) = Suspend (sh',
    s\<lparr>backend_index := b, grants := grants s @ [b], backend_socket := Some sock, to_backend := [],
      reached := reached s @ [b], log := l, response_started := False, pc := Relaying Reading Reading\<rparr>) \<and>
    sh_breakers sh' = (sh_breakers sh)[b := br]"
proof -
  let ?q = "(sh_pool sh)\<lparr>free_sockets := (free_sockets (sh_pool sh))[b := fs],
        active_counts := (active_counts (sh_pool sh))[b := active_counts (sh_pool sh) ! b + 1]\<rparr>"
  let ?sh = "sh\<lparr>sh_breakers := (sh_breakers sh)[b := br], ticks := Suc (ticks sh), sh_pool := ?q\<rparr>"
  let ?s = "s\<lparr>backend_index := b, grants := grants s @ [b]\<rparr>"
  have "acquire_begin b (sh_pool sh) = Inr (Some sock, ?q)"
    using assms(1,2,5) by (simp add: acquire_begin_in_range shared_ok_def)
  with allow have "gated b (sh, s) = acquired b sock (?sh, ?s)"
    by (simp add: gated_def Let_def)
  moreover have "shared_ok n r ?sh"
    using assms(1,2) cb.all_allow [of "sh_breakers sh" b "clock sh (ticks sh)"] allow by (simp add: shared_ok_def pool_ok_def)
  then obtain m l where "acquired b sock (?sh, ?s) = Suspend (?sh\<lparr>sh_metrics := m\<rparr>,
      ?s\<lparr>backend_socket := Some sock, to_backend := [], reached := reached ?s @ [b], log := l,
        response_started := False, pc := Relaying Reading Reading\<rparr>)"
    using acquired_relays [of n r ?sh b ?s sock] assms(2,3) by auto
  ultimately show ?thesis by (intro exI [of _ "?sh\<lparr>sh_metrics := m\<rparr>"] exI [of _ l]) simp
qed

lemma granted_start:
  assumes "shared_ok n r sh" and "get_backend r key = Some b" and "0 < k"
    and "allow_request (clock sh (ticks sh)) (sh_breakers sh ! b) = (True, br)" and "free_sockets (sh_pool sh) ! b = fs @ [sock]"
  shows "\<exists>sh' l. step Start (sh, new_session key cid k) = Some (sh', (new_session key cid k)
    \<lparr>backend_index := b, grants := [b], backend_socket := Some sock, reached := [b], log := l,
     pc := Relaying Reading Reading\<rparr>) \<and>
    sh_breakers sh' = (sh_breakers sh)[b := br]"
proof -
  let ?s = "new_session key cid k"
  have sorted: "om_sorted (ring r)" and ring: "sh_ring sh = r" "ring_inv r" "active_backends r \<subseteq> {..<n}"
    using assms(1) by (simp_all add: shared_ok_def ring_inv_sorted)
  have b: "b < n"
    using assms(2) ring get_backend_iff [OF sorted] by (fastforce simp: ring_inv_def)
  have pick: "get_backend_excluding r key {} = Some b"
    using assms(2) get_backend_is_excluding_none [OF sorted] by simp
  let ?fs = "[log_event ''request_received'' (fields ''client'' key),
    on_metrics (\<lambda>m. Inr (record_request_received m))]"
  obtain m l where one: "perform ?fs Continue (sh, ?s) = Continue (sh\<lparr>sh_metrics := m\<rparr>, ?s\<lparr>log := l\<rparr>)"
    and m: "metrics_ok n m"
    using perform_telemetry [of n r ?fs sh Continue ?s] assms(1) by (auto simp: telemetry_rules simp del: perform.simps)
  let ?c = "(sh\<lparr>sh_metrics := m\<rparr>, ?s\<lparr>log := l\<rparr>)"
  note ok = shared_ok_metrics [OF assms(1) m]
  obtain m' l' where two: "perform [show_breaker b] (gated b) ?c =
      gated b (sh\<lparr>sh_metrics := m\<rparr>\<lparr>sh_metrics := m'\<rparr>, ?s\<lparr>log := l'\<rparr>)" and m': "metrics_ok n m'"
    using perform_telemetry [of n r "[show_breaker b]", OF _ ok, of "gated b" "?s\<lparr>log := l\<rparr>"] b
    by (auto simp: telemetry_rules simp del: perform.simps)
  have "loop_body ?c = perform [show_breaker b] (gated b) ?c"
    by (simp add: loop_body_def new_session_def ring pick)
  also note two
  also obtain sh' l'' where three: "gated b (sh\<lparr>sh_metrics := m\<rparr>\<lparr>sh_metrics := m'\<rparr>, ?s\<lparr>log := l'\<rparr>) =
      Suspend (sh', ?s\<lparr>backend_index := b, grants := [b], backend_socket := Some sock, reached := [b], log := l'',
        pc := Relaying Reading Reading\<rparr>)"
    and pool: "sh_breakers sh' = (sh_breakers sh)[b := br]"
    using gated_relays [OF shared_ok_metrics [OF ok m'] b, of "?s\<lparr>log := l'\<rparr>" br fs sock] assms(4,5)
    by (auto simp: new_session_def new_buffer_def)
  note three
  finally have "retry_loop ?c = Suspend (sh', ?s\<lparr>backend_index := b, grants := [b], backend_socket := Some sock,
      reached := [b], log := l'', pc := Relaying Reading Reading\<rparr>)"
    using assms(3) by (subst retry_loop.simps) (simp add: new_session_def)
  moreover have "client_key ?s = key" "pc ?s = Started" by (simp_all add: new_session_def)
  ultimately show ?thesis
    using pool one by (auto simp: handle_client_def resume_def finish_def simp del: perform.simps)
qed

section \<open>An outage\<close>

text \<open>No idle sockets, and a stretch that ran in that situation.\<close>

definition no_idle :: "nat \<Rightarrow> shared \<Rightarrow> bool" where
  "no_idle n sh \<longleftrightarrow> (\<forall>b < n. free_sockets (sh_pool sh) ! b = [])"

fun starved :: "nat \<Rightarrow> int \<Rightarrow> int \<Rightarrow> flow \<Rightarrow> bool" where
  "starved n a k (Continue c) \<longleftrightarrow> no_idle n (fst c) \<and> a \<le> attempts (snd c) \<and> max_attempts (snd c) = k"
| "starved n a k (Break c) \<longleftrightarrow> True"
| "starved n a k (Suspend c) \<longleftrightarrow> no_idle n (fst c) \<and> a \<le> attempts (snd c) \<and> max_attempts (snd c) = k \<and>
     pc (snd c) = Acquiring"
| "starved n a k (Return c) \<longleftrightarrow> False"
| "starved n a k (Throw e c) \<longleftrightarrow> True"

definition keeps_pool :: "stmt \<Rightarrow> bool" where
  "keeps_pool f \<longleftrightarrow> (\<forall>sh s sh' s'. f (sh, s) = Inr (sh', s') \<longrightarrow>
     sh_pool sh' = sh_pool sh \<and> attempts s \<le> attempts s' \<and> max_attempts s' = max_attempts s)"

lemma keeps_pool_stmts:
  "keeps_pool (log_event name fs)" "keeps_pool (on_metrics f)" "keeps_pool (breaker_failure b)"
  "keeps_pool (show_breaker b)" "keeps_pool (give_up_on b)"
  by (auto simp: keeps_pool_def stmt_defs on_metrics_def split_def Let_def bind_result_eq_Inr)

lemma starved_perform:
  assumes "list_all keeps_pool fs" and "no_idle n sh" and "a \<le> attempts s" and "max_attempts s = k"
    and "\<And>sh' s'. no_idle n sh' \<Longrightarrow> attempts s \<le> attempts s' \<Longrightarrow> max_attempts s' = k \<Longrightarrow>
      starved n a k (g (sh', s'))"
  shows "starved n a k (perform fs g (sh, s))"
  using assms
proof (induction fs arbitrary: sh s)
  case (Cons f fs)
  show ?case
  proof (cases "f (sh, s)")
    case (Inr c)
    obtain sh1 s1 where c: "c = (sh1, s1)" by fastforce
    have "sh_pool sh1 = sh_pool sh" "attempts s \<le> attempts s1" "max_attempts s1 = max_attempts s"
      using Cons.prems(1) Inr c unfolding keeps_pool_def list.pred_inject by blast+
    then show ?thesis
      using Cons.IH [of sh1 s1] Cons.prems Inr c by (auto simp: no_idle_def)
  qed simp
qed simp

lemma gated_starved:
  assumes "shared_ok n r sh" and "b < n" and "no_idle n sh" and "a \<le> attempts s" and "max_attempts s = k"
  shows "starved n a k (gated b (sh, s))"
proof -
  obtain ok br where allow: "allow_request (clock sh (ticks sh)) (sh_breakers sh ! b) = (ok, br)"
    by fastforce
  have "acquire_begin b (sh_pool sh) = Inr (None, sh_pool sh)"
    using assms(1-3) by (simp add: acquire_begin_in_range shared_ok_def no_idle_def)
  moreover have "starved n a k (perform [log_event name fs, give_up_on b] Continue
      (sh\<lparr>sh_breakers := brs, ticks := t\<rparr>, s))" for name fs brs t
    using assms(3-5) by (intro starved_perform) (simp_all add: keeps_pool_stmts no_idle_def)
  ultimately show ?thesis
    using allow assms(3-5) by (simp add: gated_def Let_def no_idle_def del: perform.simps)
qed

lemma loop_body_starved:
  assumes "shared_ok n r sh" and "no_idle n sh" and "a \<le> attempts s" and "max_attempts s = k"
  shows "starved n a k (loop_body (sh, s))"
proof -
  have ring: "sh_ring sh = r" "ring_inv r" "active_backends r \<subseteq> {..<n}"
    using assms(1) by (simp_all add: shared_ok_def)
  show ?thesis
  proof (cases "get_backend_excluding r (client_key s) (excluded s)")
    case None
    then show ?thesis by (simp add: loop_body_def ring log_event_def)
  next
    case (Some b)
    then have b: "b < n"
      using ring get_backend_excluding_iff [OF ring_inv_sorted [OF ring(2)]] by (fastforce simp: ring_inv_def)
    obtain m l where "perform [show_breaker b] (gated b) (sh, s) = gated b (sh\<lparr>sh_metrics := m\<rparr>, s\<lparr>log := l\<rparr>)"
      "metrics_ok n m"
      using perform_telemetry [of n r "[show_breaker b]" sh "gated b" s] assms(1) b telemetry_gauges(1) [OF b]
      by (auto simp del: perform.simps)
    then show ?thesis
      using gated_starved [OF shared_ok_metrics [OF assms(1)] b] assms(2-4) Some
      by (simp add: loop_body_def ring no_idle_def del: perform.simps)
  qed
qed

lemma retry_loop_starved:
  assumes "good n r p H c" and "loop_inv (snd c)" and "\<not> capped (req_buf (snd c))"
    and "no_idle n (fst c)" and "a \<le> attempts (snd c)" and "max_attempts (snd c) = k"
  shows "starved n a k (retry_loop c)"
  using assms
proof (induction c rule: retry_loop.induct)
  case (1 c)
  show ?case
  proof (cases "attempts (snd c) < max_attempts (snd c)")
    case True
    have ok: "flow_ok n r p H (loop_body c)"
      using loop_body_ok [of n r p H "fst c" "snd c"] "1.prems" True by simp
    have st: "starved n a k (loop_body c)"
      using loop_body_starved [of n r "fst c" a "snd c" k] good_shared [OF "1.prems"(1)] "1.prems" by simp
    show ?thesis
    proof (cases "loop_body c")
      case (Continue c')
      then show ?thesis
        using "1.IH" [OF True Continue] ok st True by (simp add: retry_loop.simps [of c])
    qed (use st True in \<open>simp_all add: retry_loop.simps [of c]\<close>)
  qed (simp add: retry_loop.simps [of c])
qed

lemma resume_starved:
  assumes "flow_ok n r p H (Continue c)" and "starved n a k (Continue c)"
  shows "pc (snd (resume (Continue c))) = Sending_Status \<or>
    pc (snd (resume (Continue c))) = Acquiring \<and> no_idle n (fst (resume (Continue c))) \<and>
    a \<le> attempts (snd (resume (Continue c))) \<and> max_attempts (snd (resume (Continue c))) = k"
proof -
  have ok: "flow_ok n r p H (retry_loop c)" "\<forall>c'. retry_loop c \<noteq> Continue c'"
    and st: "starved n a k (retry_loop c)"
    using retry_loop_ok [of n r p H c] retry_loop_starved [of n r p H c a k] assms by auto
  show ?thesis
  proof (cases "retry_loop c")
    case (Break c')
    have "pc (snd (finish (fall_back c'))) = Sending_Status"
      by (simp add: fall_back_def finish_def on_metrics_def log_event_def split_def)
    then show ?thesis using Break by (simp add: resume_def)
  next
    case (Suspend c')
    then show ?thesis using st by (simp add: resume_def finish_def)
  qed (use ok st in simp_all)
qed

lemma perform_Continue: "(\<exists>c'. perform fs Continue c = Continue c') \<or> (\<exists>e c'. perform fs Continue c = Throw e c')"
  by (induction fs arbitrary: c) (auto split: sum.splits)

lemma flow_ok_Continue:
  assumes "flow_ok n r p H (perform fs Continue c)"
  obtains c' where "perform fs Continue c = Continue c'"
  using assms perform_Continue [of fs c] by auto

text \<open>One failed connect: either the next backend is tried or the client gets its 503.\<close>

lemma failed_connect:
  assumes "good n r p H (sh, s)" and "session_inv n r s" and "pc s = Acquiring" and "no_idle n sh"
    and "connect (sh_pool sh) (backend_index s) env = Inl e"
  obtains sh' s' where "step (Connected env) (sh, s) = Some (sh', s')"
    and "pc s' = Sending_Status \<or> pc s' = Acquiring \<and> no_idle n sh' \<and>
      attempts s + 1 \<le> attempts s' \<and> max_attempts s' = max_attempts s"
proof -
  let ?fl = "connect_failed (backend_index s) e (sh, s)"
  have fl: "after_connect env (sh, s) = ?fl"
    using assms(5) by (simp add: after_connect_def acquire_end_def)
  have ok: "flow_ok n r p H ?fl"
    using after_connect_ok [OF assms(1)] assms(2,3) fl by (metis session_inv_def)
  then obtain c where c: "?fl = Continue c"
    unfolding connect_failed_def by (rule flow_ok_Continue)
  have "starved n (attempts s) (max_attempts s) ?fl"
    unfolding connect_failed_def using assms(4)
    by (intro starved_perform) (simp_all add: keeps_pool_stmts record_failed_attempt_def)
  then have "starved n (attempts s + 1) (max_attempts s) (Continue c)"
    using advances_connect_failed [of "(sh, s)" "backend_index s" e] c by (simp add: advances_def)
  from resume_starved [OF _ this] ok c fl assms(3) that show ?thesis by (auto simp: prod_eq_iff)
qed

fun connects :: "net list \<Rightarrow> conf \<Rightarrow> conf option" where
  "connects [] c = Some c"
| "connects (env # envs) c = (case step (Connected env) c of None \<Rightarrow> None | Some c' \<Rightarrow> connects envs c')"

definition refuses :: "net \<Rightarrow> bool" where
  "refuses env \<longleftrightarrow> (\<forall>eps. \<exists>e. async_connect env eps = Inl e)"

lemma refuses_connect: "refuses env \<Longrightarrow> \<exists>e. connect p b env = Inl e"
proof -
  assume refuse: "refuses env"
  have "connect p b env \<noteq> Inr sock" for sock
  proof
    assume "connect p b env = Inr sock"
    then obtain eps sock' where "async_connect env eps = Inr sock'"
      by (auto simp: connect_def bind_result_eq_Inr)
    with refuse show False unfolding refuses_def by (metis Inl_Inr_False)
  qed
  then show ?thesis by (cases "connect p b env") auto
qed

lemma outage_connects:
  assumes "good n r p H (sh, s)" and "session_inv n r s" and "pc s = Acquiring" and "no_idle n sh"
    and "\<And>i. refuses (envs i)"
  shows "\<exists>m sh' s'. int m \<le> max_attempts s - attempts s \<and>
    connects (map envs [0..<m]) (sh, s) = Some (sh', s') \<and> pc s' = Sending_Status"
  using assms
proof (induction "nat (max_attempts s - attempts s)" arbitrary: sh s envs rule: less_induct)
  case less
  have less_max: "attempts s < max_attempts s"
    using less.prems(2,3) by (simp add: session_inv_def busy_inv_def)
  obtain e where "connect (sh_pool sh) (backend_index s) (envs 0) = Inl e"
    using refuses_connect less.prems(5) by blast
  from failed_connect [OF less.prems(1-4) this] obtain sh1 s1
    where st: "step (Connected (envs 0)) (sh, s) = Some (sh1, s1)"
      and or: "pc s1 = Sending_Status \<or> pc s1 = Acquiring \<and> no_idle n sh1 \<and>
        attempts s + 1 \<le> attempts s1 \<and> max_attempts s1 = max_attempts s" by blast
  have inv: "good n r p H (sh1, s1)" "session_inv n r s1"
    using step_ok [OF less.prems(1,2) st] by simp_all
  have cons: "map envs [0..<Suc m] = envs 0 # map (\<lambda>i. envs (Suc i)) [0..<m]" for m
    by (simp only: upt_conv_Cons zero_less_Suc map_Suc_upt [symmetric] map_map comp_def list.map)
  from or show ?case
  proof
    assume "pc s1 = Sending_Status"
    then have "connects (map envs [0..<Suc 0]) (sh, s) = Some (sh1, s1)" using st by simp
    then show ?thesis using \<open>pc s1 = Sending_Status\<close> less_max by (intro exI [of _ "Suc 0"]) auto
  next
    assume a: "pc s1 = Acquiring \<and> no_idle n sh1 \<and> attempts s + 1 \<le> attempts s1 \<and> max_attempts s1 = max_attempts s"
    then have "nat (max_attempts s1 - attempts s1) < nat (max_attempts s - attempts s)" using less_max by simp
    from less.hyps [OF this inv, of "\<lambda>i. envs (Suc i)"] a less.prems(5) obtain m sh2 s2
      where "int m \<le> max_attempts s1 - attempts s1"
        "connects (map (\<lambda>i. envs (Suc i)) [0..<m]) (sh1, s1) = Some (sh2, s2)" "pc s2 = Sending_Status" by auto
    then show ?thesis using a st by (intro exI [of _ "Suc m"]) (auto simp: cons simp del: upt_Suc)
  qed
qed

lemma outage_start:
  assumes "good n r p H (sh, new_session key cid k)" and "no_idle n sh" and "0 \<le> k"
    and "\<And>i. refuses (envs i)"
  shows "\<exists>c m sh' s'. step Start (sh, new_session key cid k) = Some c \<and> int m \<le> k \<and>
    connects (map envs [0..<m]) c = Some (sh', s') \<and> pc s' = Sending_Status"
proof -
  let ?s = "new_session key cid k"
  let ?fs = "[log_event ''request_received'' (fields ''client'' (client_key ?s)),
        on_metrics (\<lambda>m. Inr (record_request_received m))]"
  have new: "pc ?s = Started" "attempts ?s = 0" "max_attempts ?s = k" by (simp_all add: new_session_def)
  have start: "session_inv n r ?s"
    by (simp add: session_inv_def new_session_def loop_inv_def core_inv_def history_inv_def untouched_def new_buffer_def kCap_def)
  have fl: "flow_ok n r p H (perform ?fs Continue (sh, ?s))"
    by (rule flow_ok_telemetry [OF _ assms(1)]) (use start new in \<open>simp_all add: telemetry_rules session_inv_def\<close>)
  then obtain c where c: "perform ?fs Continue (sh, ?s) = Continue c"
    by (rule flow_ok_Continue)
  have "starved n 0 k (perform ?fs Continue (sh, ?s))"
    using assms(2) new by (intro starved_perform) (simp_all add: keeps_pool_stmts)
  then have "pc (snd (resume (Continue c))) = Sending_Status \<or>
      pc (snd (resume (Continue c))) = Acquiring \<and> no_idle n (fst (resume (Continue c))) \<and>
      0 \<le> attempts (snd (resume (Continue c))) \<and> max_attempts (snd (resume (Continue c))) = k"
    unfolding c using fl [unfolded c] by (rule resume_starved [rotated])
  moreover have st: "step Start (sh, ?s) = Some (resume (Continue c))"
    using new c by (simp add: handle_client_def del: perform.simps)
  moreover obtain sh1 s1 where one: "resume (Continue c) = (sh1, s1)" by fastforce
  moreover have "good n r p H (sh1, s1)" "session_inv n r s1"
    using step_ok [OF assms(1) start st] one by simp_all
  ultimately have or: "pc s1 = Sending_Status \<or> pc s1 = Acquiring \<and> no_idle n sh1 \<and> 0 \<le> attempts s1 \<and> max_attempts s1 = k"
    and inv: "good n r p H (sh1, s1)" "session_inv n r s1" and st: "step Start (sh, ?s) = Some (sh1, s1)"
    by simp_all
  from or show ?thesis
  proof
    assume "pc s1 = Sending_Status"
    then have "connects (map envs [0..<0]) (sh1, s1) = Some (sh1, s1) \<and> pc s1 = Sending_Status" by simp
    then show ?thesis
      using st assms(3) by (intro exI [of _ "(sh1, s1)"] exI [of _ 0] exI [of _ sh1] exI [of _ s1]) simp
  next
    assume a: "pc s1 = Acquiring \<and> no_idle n sh1 \<and> 0 \<le> attempts s1 \<and> max_attempts s1 = k"
    then obtain m sh2 s2 where m: "int m \<le> k - attempts s1"
      "connects (map envs [0..<m]) (sh1, s1) = Some (sh2, s2)" "pc s2 = Sending_Status"
      using outage_connects [OF inv, of envs] assms(4) by auto
    then have "int m \<le> k" using a by simp
    then show ?thesis using st m by blast
  qed
qed

section \<open>An attempt without a response\<close>

text \<open>Whatever ended the relays: without a byte from the backend, the backend is blamed.\<close>

lemma settle_failure:
  assumes "shared_ok n r sh" and "b < n"
  shows "\<exists>sh' s'. (settle b False (sh, s) = Continue (sh', s') \<or> settle b False (sh, s) = Break (sh', s')) \<and>
    sh_breakers sh' = (sh_breakers sh)[b := record_failure (clock sh (ticks sh)) (sh_breakers sh ! b)]"
proof -
  let ?brs = "(sh_breakers sh)[b := record_failure (clock sh (ticks sh)) (sh_breakers sh ! b)]"
  let ?sh = "sh\<lparr>sh_breakers := ?brs, ticks := ticks sh + 1\<rparr>"
  let ?s = "s\<lparr>reports := reports s @ [b]\<rparr>"
  let ?fs = "[on_metrics (record_backend_failure b), show_breaker b,
    log_event ''backend_failed_no_response'' (fields ''backend'' (to_string b))]"
  let ?k = "perform [give_up_on b] retry_unless_capped"
  have fail: "breaker_failure b (sh, s) = Inr (?sh, ?s)"
    using assms by (simp add: breaker_failure_def shared_ok_def)
  have "list_all breaker_inv ?brs"
    using cb.all_fail [of "sh_breakers sh" b] assms by (simp add: shared_ok_def)
  then have "shared_ok n r ?sh" using assms(1) by (simp add: shared_ok_def)
  then obtain m l where tele: "perform ?fs ?k (?sh, ?s) = ?k (?sh\<lparr>sh_metrics := m\<rparr>, ?s\<lparr>log := l\<rparr>)"
    using perform_telemetry [of n r ?fs ?sh ?k ?s] assms(2) by (auto simp: telemetry_rules simp del: perform.simps)
  have "settle b False (sh, s) = perform (?fs @ [give_up_on b]) retry_unless_capped (?sh, ?s)"
    using fail by (simp add: settle_def record_failed_attempt_def)
  also have "\<dots> = ?k (?sh\<lparr>sh_metrics := m\<rparr>, ?s\<lparr>log := l\<rparr>)" unfolding perform_append by (rule tele)
  finally have "settle b False (sh, s) = ?k (?sh\<lparr>sh_metrics := m\<rparr>, ?s\<lparr>log := l\<rparr>)" .
  then show ?thesis by (simp add: give_up_on_def retry_unless_capped_def log_event_def)
qed

lemma after_relays_failure:
  assumes "good n r p H (sh, s)" and "session_inv_at n r (Relaying Returned Returned) s"
    and "\<not> response_started s"
  defines "b \<equiv> backend_index s"
  shows "\<exists>sh' s'. (after_relays (sh, s) = Continue (sh', s') \<or> after_relays (sh, s) = Break (sh', s')) \<and>
    sh_breakers sh' = (sh_breakers sh)[b := record_failure (clock sh (ticks sh)) (sh_breakers sh ! b)]"
proof -
  have b: "b < n" "backend_index s = b" using assms(2) by (simp_all add: busy_inv_def b_def)
  obtain sock where sock: "backend_socket s = Some sock" using assms(2) by (auto simp: holding_def)
  let ?s = "s\<lparr>backend_socket := None\<rparr>"
  obtain q where rel: "release_unhealthy b (sh, s) = Inr (sh\<lparr>sh_pool := q\<rparr>, ?s)"
    and g: "good n r p H (sh\<lparr>sh_pool := q\<rparr>, ?s)"
    using release_unhealthy_good [OF assms(1) sock b(2,1)] by auto
  have ok: "shared_ok n r (sh\<lparr>sh_pool := q\<rparr>)" using good_shared [OF g] by simp
  obtain m l where tele: "perform [show_pool_active b, show_pool_idle b] (settle b False) (sh\<lparr>sh_pool := q\<rparr>, ?s) =
      settle b False (sh\<lparr>sh_pool := q\<rparr>\<lparr>sh_metrics := m\<rparr>, ?s\<lparr>log := l\<rparr>)" and m: "metrics_ok n m"
    using perform_telemetry [of n r "[show_pool_active b, show_pool_idle b]", OF _ ok, of "settle b False" ?s] b(1)
    by (auto simp: telemetry_rules simp del: perform.simps)
  have "after_relays (sh, s) = settle b False (sh\<lparr>sh_pool := q\<rparr>\<lparr>sh_metrics := m\<rparr>, ?s\<lparr>log := l\<rparr>)"
    unfolding after_relays_def Let_def snd_conv
    using rel tele assms(3) b(2) by (subst perform_Cons) simp
  then show ?thesis
    using settle_failure [OF shared_ok_metrics [OF ok m] b(1), of "?s\<lparr>log := l\<rparr>"] by simp
qed

text \<open>A failed replay gives the socket back without telling the gauge.\<close>

lemma replay_failure_stale_gauge:
  assumes "shared_ok n r sh" and "backend_index s < n" and "backend_socket s = Some sock"
  shows "\<exists>sh' s'. after_replay True (sh, s) = Continue (sh', s') \<and>
    active_count (backend_index s) (sh_pool sh') = Inr (active_counts (sh_pool sh) ! backend_index s - 1) \<and>
    pool_active (sh_metrics sh') = pool_active (sh_metrics sh)"
proof -
  have "backend_index s < length (active_counts (sh_pool sh))" "backend_index s < length (sh_breakers sh)"
    "backend_index s < length (backend_failure (sh_metrics sh))" "backend_index s < length (breaker_state (sh_metrics sh))"
    using assms(1,2) by (simp_all add: shared_ok_def pool_ok_def metrics_ok_def)
  then show ?thesis
    using assms(3)
    by (simp add: after_replay_def Let_def record_failed_attempt_def stmt_defs on_metrics_def record_backend_failure_def
        set_breaker_state_def release_def add_active_def active_count_def)
qed

end
