(* ===== verification/Session_Rules.thy ===== *)
theory Session_Rules
  imports Session_Safety
begin

text \<open>
  A proof rule for sessions. A relation between configurations that is reflexive and transitive and
  holds across each of the things \<^verbatim>\<open>handle_client\<close> does with the shared objects (ask a
  breaker, report to it, take and give back a socket, each with the gauges that go with it)
  holds across every stretch between two suspension points, however often the retry loop runs.
  The locale \<open>stretch_relation\<close> states what has to be shown, \<open>session_relation\<close> adds the relays; the
  instances say what the code does to the identity of a session, to sockets, to gauges, to an open
  breaker and to what client and backends have been sent.
\<close>

section \<open>Sequences of statements\<close>

fun flow_conf :: "flow \<Rightarrow> conf" where
  "flow_conf (Continue c) = c"
| "flow_conf (Break c) = c"
| "flow_conf (Suspend c) = c"
| "flow_conf (Return c) = c"
| "flow_conf (Throw e c) = c"

fun seq :: "stmt list \<Rightarrow> stmt" where
  "seq [] c = Inr c"
| "seq (f # fs) c = bind_result (f c) (seq fs)"

lemma seq_single [simp]: "seq [f] c = f c"
  by (cases "f c") simp_all

lemma seq_snocE:
  assumes "seq (fs @ [f]) c = Inr d"
  obtains d' where "seq fs c = Inr d'" and "f d' = Inr d"
proof -
  have "seq (fs @ [f]) c = bind_result (seq fs c) f"
  proof (induction fs arbitrary: c)
    case (Cons g fs)
    then show ?case by (cases "g c") simp_all
  qed (simp del: seq.simps add: seq.simps(1))
  then show ?thesis using assms that by (cases "seq fs c") simp_all
qed

lemma perform_seq: "seq fs c = Inr d \<Longrightarrow> perform fs k c = k d"
proof (induction fs arbitrary: c)
  case (Cons f fs)
  then show ?case by (cases "f c") simp_all
qed simp

lemma perform_seq_Inl: "seq fs c = Inl e \<Longrightarrow> \<exists>d. perform fs k c = Throw e d"
  by (induction fs arbitrary: c) (auto simp: bind_result_def split: sum.splits)

text \<open>What is neither bookkeeping nor business with the shared objects: the buffers, the attempts and
  where the coroutine is suspended.\<close>

definition same_business :: "session \<Rightarrow> session \<Rightarrow> bool" where
  "same_business s s' \<longleftrightarrow>
     client_key s' = client_key s \<and> correlation_id s' = correlation_id s \<and> max_attempts s' = max_attempts s \<and>
     backend_index s' = backend_index s \<and> backend_socket s' = backend_socket s \<and> log s' = log s \<and>
     reached s' = reached s \<and> grants s' = grants s \<and> reports s' = reports s"

lemma same_business_frame [simp]:
  "same_business s s" "same_business s (s\<lparr>pc := l\<rparr>)" "same_business s (s\<lparr>response_started := x, pc := l\<rparr>)"
  "same_business s (s\<lparr>excluded := ex, attempts := k\<rparr>)" "same_business s (s\<lparr>to_backend := t\<rparr>)"
  "same_business s (s\<lparr>to_client := t, pc := l\<rparr>)"
  "same_business s (s\<lparr>req_buf := rb, received := t, to_backend := u, pc := l\<rparr>)"
  "same_business s (s\<lparr>response_started := x, from_backend := u, to_client := t, pc := l\<rparr>)"
  by (simp_all add: same_business_def)

text \<open>The session after a socket was taken, and what is written down about it.\<close>

definition with_socket :: "nat \<Rightarrow> socket \<Rightarrow> session \<Rightarrow> session" where
  "with_socket b sock s = s\<lparr>backend_socket := Some sock, to_backend := [], reached := reached s @ [b]\<rparr>"

definition selected :: "nat \<Rightarrow> session \<Rightarrow> stmt list" where
  "selected b s =
     [log_event ''backend_selected''
        (fields2 ''backend'' (to_string b) ''attempt'' (int_to_string (attempts s + 1))),
      show_pool_active b, show_pool_idle b]"

section \<open>The rule\<close>

locale stretch_relation =
  fixes R :: "conf \<Rightarrow> conf \<Rightarrow> bool"
  assumes R_refl: "R c c"
    and R_trans: "R c d \<Longrightarrow> R d e \<Longrightarrow> R c e"
    and R_suspended: "R (sh, s) (sh, s\<lparr>pc := l\<rparr>)"
    and R_opened: "R (sh, s) (sh, s\<lparr>response_started := False, pc := l\<rparr>)"
    and R_given_up: "R (sh, s) (sh, s\<lparr>excluded := insert b (excluded s), attempts := attempts s + 1\<rparr>)"
    and R_log: "log_event name fs c = Inr d \<Longrightarrow> R c d"
    and R_received: "on_metrics (\<lambda>m. Inr (record_request_received m)) c = Inr d \<Longrightarrow> R c d"
    and R_fallback: "on_metrics (\<lambda>m. Inr (record_fallback_503 m)) c = Inr d \<Longrightarrow> R c d"
    and R_refused: "show_breaker b c = Inr (sh, s) \<Longrightarrow>
      allow_request (clock sh (ticks sh)) (sh_breakers sh ! b) = (False, br) \<Longrightarrow>
      R c (sh\<lparr>sh_breakers := (sh_breakers sh)[b := br], ticks := ticks sh + 1\<rparr>, s)"
    and R_granted: "show_breaker b c = Inr (sh, s) \<Longrightarrow>
      allow_request (clock sh (ticks sh)) (sh_breakers sh ! b) = (True, br) \<Longrightarrow>
      R c (sh\<lparr>sh_breakers := (sh_breakers sh)[b := br], ticks := ticks sh + 1\<rparr>,
        s\<lparr>backend_index := b, grants := grants s @ [b]\<rparr>)"
    and R_failed: "seq (record_failed_attempt b) c = Inr d \<Longrightarrow> R c d"
    and R_succeeded: "seq [breaker_success b, on_metrics (record_backend_success b), show_breaker b] c = Inr d \<Longrightarrow> R c d"
    and R_checked_out: "acquire_begin b (sh_pool sh) = Inr (Some sock, p) \<Longrightarrow>
      seq (selected b s) (sh\<lparr>sh_pool := p\<rparr>, with_socket b sock s) = Inr d \<Longrightarrow> R (sh, s) d"
    and R_released: "release_unhealthy b c = Inr d \<Longrightarrow> R c d"
    and R_returned: "seq [release_unhealthy b, show_pool_active b, show_pool_idle b] c = Inr d \<Longrightarrow> R c d"
begin

fun related :: "conf \<Rightarrow> flow \<Rightarrow> bool" where
  "related c (Throw e d) = True"
| "related c fl = R c (flow_conf fl)"

lemma related_trans: "R c d \<Longrightarrow> related d fl \<Longrightarrow> related c fl"
  by (cases fl) (auto intro: R_trans)

lemma related_seq:
  assumes "\<And>d. seq fs c = Inr d \<Longrightarrow> related c0 (k d)"
  shows "related c0 (perform fs k c)"
proof (cases "seq fs c")
  case (Inl e)
  then show ?thesis using perform_seq_Inl [of fs c e k] by auto
next
  case (Inr d)
  then show ?thesis using perform_seq [OF Inr, of k] assms by simp
qed

lemma related_seqs:
  assumes "\<And>d. seq fs c = Inr d \<Longrightarrow> R c d" and "\<And>d. R c d \<Longrightarrow> related c (k d)"
  shows "related c (perform fs k c)"
  using assms by (intro related_seq) blast

lemma R_goto: "R c (goto l c)"
  by (cases c) (simp add: R_suspended)

lemma R_give_up: "give_up_on b c = Inr d \<Longrightarrow> R c d"
  by (cases c) (auto simp: give_up_on_def intro: R_given_up)

lemma related_Continue: "R c d \<Longrightarrow> related c (perform [give_up_on b] Continue d)"
  by (rule related_seq) (simp only: seq_single related.simps flow_conf.simps, erule R_trans, erule R_give_up)

lemma related_logged:
  assumes "\<And>d. R c d \<Longrightarrow> related c (k d)"
  shows "related c (perform [log_event name fs] k c)"
  by (rule related_seqs [OF _ assms]) (simp only: seq_single, erule R_log)

lemma related_failed:
  assumes "R c d" and "\<And>d. R c d \<Longrightarrow> related c (k d)"
  shows "related c (perform (record_failed_attempt b) k d)"
  using assms(1) R_trans [OF _ R_failed] by (intro related_seq assms(2)) blast

lemma related_start_relays: "R c d \<Longrightarrow> related c (start_relays d)"
  by (cases d) (simp add: start_relays_def, erule R_trans, rule R_opened)

lemma related_connect_failed: "related c (connect_failed b e c)"
  unfolding connect_failed_def
  by (subst perform_Cons, rule related_logged, subst perform_append, erule related_failed, erule related_Continue)

lemma related_selected:
  assumes "\<And>d. seq (selected b s) (sh, with_socket b sock s) = Inr d \<Longrightarrow> R c d"
  shows "related c (acquired b sock (sh, s))"
proof -
  have "related c (perform (selected b s)
      (\<lambda>c. if data (req_buf (snd c)) \<noteq> [] then Suspend (goto Replaying c) else start_relays c)
      (sh, with_socket b sock s))"
  proof (rule related_seq)
    fix d assume "seq (selected b s) (sh, with_socket b sock s) = Inr d"
    then have "R c d" by (rule assms)
    then show "related c (if data (req_buf (snd d)) \<noteq> [] then Suspend (goto Replaying d) else start_relays d)"
      using related_start_relays R_trans [OF _ R_goto] by simp
  qed
  then show ?thesis by (simp add: acquired_def selected_def with_socket_def)
qed

lemma related_gated:
  assumes "show_breaker b c = Inr (sh, s)"
  shows "related c (gated b (sh, s))"
proof -
  obtain ok br where allow: "allow_request (clock sh (ticks sh)) (sh_breakers sh ! b) = (ok, br)" by fastforce
  let ?sh = "sh\<lparr>sh_breakers := (sh_breakers sh)[b := br], ticks := ticks sh + 1\<rparr>"
  let ?s = "s\<lparr>backend_index := b, grants := grants s @ [b]\<rparr>"
  show ?thesis
  proof (cases ok)
    case False
    have "related (?sh, s) (perform [log_event name fs, give_up_on b] Continue (?sh, s))" for name fs
      by (subst perform_Cons, rule related_logged, rule related_Continue)
    then show ?thesis
      using related_trans [OF R_refused [OF assms]] allow False by (simp add: gated_def Let_def del: perform.simps)
  next
    case True
    have g: "R c (?sh, ?s)" using R_granted [OF assms] allow True by simp
    have "related (?sh, ?s) (case acquire_begin b (sh_pool sh) of
        Inl e \<Rightarrow> connect_failed b e (?sh, ?s)
      | Inr (Some sock, p) \<Rightarrow> acquired b sock (?sh\<lparr>sh_pool := p\<rparr>, ?s)
      | Inr (None, p) \<Rightarrow> Suspend (goto Acquiring (?sh\<lparr>sh_pool := p\<rparr>, ?s)))"
      (is "related _ ?fl")
    proof (cases "acquire_begin b (sh_pool sh)")
      case (Inl e)
      then show ?thesis by (simp add: related_connect_failed)
    next
      case (Inr x)
      obtain hit p where x: "x = (hit, p)" by fastforce
      show ?thesis
      proof (cases hit)
        case None
        then have "?sh\<lparr>sh_pool := p\<rparr> = ?sh"
          using Inr x by (auto simp: acquire_begin_def bind_result_eq_Inr split: if_splits list.splits)
        then show ?thesis using None Inr x R_goto [of "(?sh, ?s)"] by simp
      next
        case (Some sock)
        then have "acquire_begin b (sh_pool ?sh) = Inr (Some sock, p)" using Inr x by simp
        then show ?thesis using Some Inr x related_selected [OF R_checked_out] by simp
      qed
    qed
    from related_trans [OF g this] show ?thesis using allow True by (simp add: gated_def Let_def del: One_nat_def)
  qed
qed

lemma related_loop_body: "related c (loop_body c)"
proof (cases c)
  case (Pair sh s)
  have "related c (perform [show_breaker b] (gated b) c)" for b
    by (rule related_seq) (simp only: seq_single, metis related_gated surj_pair)
  then show ?thesis
    unfolding loop_body_def Pair split
    by (cases "get_backend_excluding (sh_ring sh) (client_key s) (excluded s)")
      (simp_all add: related_logged del: perform.simps)
qed

lemma related_retry_loop: "related c (retry_loop c) \<and> (\<forall>d. retry_loop c \<noteq> Continue d)"
proof (induction c rule: retry_loop.induct)
  case (1 c)
  show ?case
  proof (cases "attempts (snd c) < max_attempts (snd c)")
    case True
    have body: "related c (loop_body c)" by (rule related_loop_body)
    show ?thesis
    proof (cases "loop_body c")
      case (Continue d)
      then show ?thesis
        using 1 [OF True Continue] body True related_trans by (simp add: retry_loop.simps [of c])
    qed (use body True in \<open>simp_all add: retry_loop.simps [of c]\<close>)
  qed (simp add: retry_loop.simps [of c] R_refl)
qed

lemma related_fall_back: "related c (fall_back c)"
proof -
  have booked: "R c d" if "seq [on_metrics (\<lambda>m. Inr (record_fallback_503 m)), log_event name fs] c = Inr d" for d name fs
    by (rule seq_snocE [of "[on_metrics (\<lambda>m. Inr (record_fallback_503 m))]" "log_event name fs" c d])
      (use that in simp, simp only: seq_single, rule R_trans [OF R_fallback R_log])
  show ?thesis
    unfolding fall_back_def
    by (rule related_seqs [OF booked], assumption) (simp only: related.simps flow_conf.simps, erule R_trans, rule R_goto)
qed

lemma R_resume:
  assumes "related c fl" and "\<And>e. pc (snd (resume fl)) \<noteq> Died e"
  shows "R c (resume fl)"
proof -
  let ?fl = "case fl of Continue c \<Rightarrow> retry_loop c | fl \<Rightarrow> fl"
  have loop: "related c ?fl"
    using assms(1) related_retry_loop related_trans by (cases fl) simp_all
  let ?gl = "case ?fl of Break c \<Rightarrow> fall_back c | fl \<Rightarrow> fl"
  have "related c ?gl"
    using loop related_fall_back related_trans by (cases ?fl) simp_all
  moreover have "?gl \<noteq> Throw e d" for e d
    using assms(2) [of e] by (auto simp: resume_def finish_def goto_def split_def)
  ultimately have "R c (flow_conf ?gl)" by (metis flow.exhaust related.simps)
  moreover have "R (flow_conf ?gl) (finish ?gl)"
    by (cases ?gl) (simp_all add: finish_def R_goto R_refl)
  ultimately show ?thesis unfolding resume_def by (rule R_trans)
qed

lemma related_after_replay: "related c (after_replay ec c)"
proof -
  have "related c (perform [release_unhealthy b, give_up_on b] Continue d)" if "R c d" for b d
    by (subst perform_Cons, rule related_seq, simp only: seq_single, rule related_Continue)
      (rule R_trans [OF that R_released])
  then have "related c (perform [log_event name fs] (perform (record_failed_attempt b @
      [release_unhealthy b, give_up_on b]) Continue) c)" for name fs b
    by (rule_tac related_logged, subst perform_append, rule_tac related_failed)
  then show ?thesis
    using related_start_relays [OF R_refl] unfolding after_replay_def Let_def
    by (subst perform_Cons) (simp del: perform.simps)
qed

lemma related_settle: "related c (settle b ok c)"
proof -
  have capped: "related c (retry_unless_capped d)" if "R c d" for c d
    using that related_trans [OF that related_logged [of d Break]] by (simp add: retry_unless_capped_def del: perform.simps)
  have won: "R c d" if "seq [breaker_success b, on_metrics (record_backend_success b), show_breaker b,
      log_event name fs] c = Inr d" for d name fs
    by (rule seq_snocE [of "[breaker_success b, on_metrics (record_backend_success b), show_breaker b]"
        "log_event name fs" c d]) (use that in simp, rule R_trans [OF R_succeeded R_log])
  have lost: "related c (perform [log_event name fs, give_up_on b] retry_unless_capped d)" if "R c d" for d name fs
    by (rule related_trans [OF that], subst perform_Cons, rule related_logged, rule related_seq, simp only: seq_single,
        rule capped, erule R_trans, erule R_give_up)
  show ?thesis
  proof (cases ok)
    case True
    then show ?thesis
      unfolding settle_def by (simp del: perform.simps) (rule related_seqs [OF won], assumption, simp)
  next
    case False
    then show ?thesis
      unfolding settle_def
      by (simp add: perform_append del: perform.simps) (rule related_failed [OF R_refl lost])
  qed
qed

lemma related_after_relays: "related c (after_relays c)"
  unfolding after_relays_def Let_def
  by (rule related_seq, erule related_trans [OF R_returned related_settle])

text \<open>A connection that was made enters the books outside the relation.\<close>

definition joined :: "net \<Rightarrow> conf \<Rightarrow> conf \<Rightarrow> bool" where
  "joined env c d \<longleftrightarrow>
     (\<exists>sh s sock p d'. c = (sh, s) \<and> connect (sh_pool sh) (backend_index s) env = Inr sock \<and>
        acquire_end (backend_index s) (Inr sock) (sh_pool sh) = Inr (sock, p) \<and>
        seq (selected (backend_index s) s) (sh\<lparr>sh_pool := p\<rparr>, with_socket (backend_index s) sock s) = Inr d' \<and>
        R d' d)"

lemma R_after_connect:
  assumes "\<And>e. pc (snd (resume (after_connect env (sh, s)))) \<noteq> Died e"
  shows "R (sh, s) (resume (after_connect env (sh, s))) \<or> joined env (sh, s) (resume (after_connect env (sh, s)))"
proof (cases "acquire_end (backend_index s) (connect (sh_pool sh) (backend_index s) env) (sh_pool sh)")
  case (Inl e)
  then have "after_connect env (sh, s) = connect_failed (backend_index s) e (sh, s)"
    by (simp add: after_connect_def)
  then show ?thesis using R_resume [of "(sh, s)"] related_connect_failed assms by metis
next
  case (Inr x)
  let ?b = "backend_index s"
  obtain sock p where x: "x = (sock, p)" by fastforce
  have c: "connect (sh_pool sh) ?b env = Inr sock" "acquire_end ?b (Inr sock) (sh_pool sh) = Inr (sock, p)"
    using Inr x by (auto simp: acquire_end_def bind_result_eq_Inr)
  have fl: "after_connect env (sh, s) = perform (selected ?b s)
      (\<lambda>c. if data (req_buf (snd c)) \<noteq> [] then Suspend (goto Replaying c) else start_relays c)
      (sh\<lparr>sh_pool := p\<rparr>, with_socket ?b sock s)" (is "_ = perform ?fs ?k ?c")
    using Inr x by (simp add: after_connect_def acquired_def selected_def with_socket_def Let_def del: perform.simps)
  obtain d where d: "seq ?fs ?c = Inr d"
  proof (cases "seq ?fs ?c")
    case (Inl e)
    then show ?thesis
      using perform_seq_Inl [OF Inl, of ?k] assms [of e] fl
      by (auto simp: resume_def finish_def goto_def split_def)
  qed (use that in blast)
  have "related d (?k d)" using related_start_relays [OF R_refl] R_goto [of d] by simp
  moreover have "after_connect env (sh, s) = ?k d" unfolding fl by (rule perform_seq [OF d])
  ultimately have "related d (after_connect env (sh, s))" by (simp only:)
  then have "R d (resume (after_connect env (sh, s)))" using assms by (rule R_resume)
  then show ?thesis using c d unfolding joined_def by blast
qed

lemma R_start:
  assumes "\<And>e. pc (snd (handle_client c)) \<noteq> Died e"
  shows "R c (handle_client c)"
proof -
  have "related c (perform [log_event name fs] (perform [on_metrics (\<lambda>m. Inr (record_request_received m))] Continue) c)"
    for name fs
    by (rule related_logged, rule related_seq) (simp only: seq_single related.simps flow_conf.simps, erule R_trans, erule R_received)
  then have "related c (perform [log_event name fs, on_metrics (\<lambda>m. Inr (record_request_received m))] Continue c)" for name fs
    by (subst perform_Cons)
  then show ?thesis using R_resume assms unfolding handle_client_def by blast
qed

end

text \<open>Relations that leave aside what the relays do to the buffers.\<close>

locale session_relation = stretch_relation +
  assumes R_move: "same_business s s' \<Longrightarrow> R (sh, s) (sh, s')"
begin

lemma R_after_leg:
  assumes "same_business s t" and "\<And>e. pc (snd (after_leg (sh, t))) \<noteq> Died e"
  shows "R (sh, s) (after_leg (sh, t))"
proof (cases "pc t = Relaying Returned Returned")
  case True
  then show ?thesis
    using R_trans [OF R_move [OF assms(1)] R_resume [OF related_after_relays]] assms(2) by (simp add: after_leg_def)
next
  case False
  then show ?thesis using R_move [OF assms(1)] by (simp add: after_leg_def)
qed

lemma R_step:
  assumes "step e (sh, s) = Some d" and "\<And>x. pc (snd d) \<noteq> Died x"
  shows "R (sh, s) d \<or> (\<exists>env. e = Connected env \<and> joined env (sh, s) d)"
proof (cases e)
  case Start
  then show ?thesis using assms R_start [of "(sh, s)"] by (auto split: if_splits)
next
  case (Connected env)
  then show ?thesis using assms R_after_connect [of env sh s] by (auto split: if_splits)
next
  case (Replayed ev)
  then obtain ec bs where "d = resume (after_replay ec (sh, s\<lparr>to_backend := bs\<rparr>))"
    using assms(1) by (auto split: if_splits io.splits)
  moreover from this have "R (sh, s\<lparr>to_backend := bs\<rparr>) d"
    using R_resume [OF related_after_replay] assms(2) by simp
  moreover have "R (sh, s) (sh, s\<lparr>to_backend := bs\<rparr>)" by (rule R_move) simp
  ultimately show ?thesis using R_trans by blast
next
  case (Client_Leg ev)
  then show ?thesis
    using assms by (auto intro!: R_after_leg split: session_pc.splits option.splits)
next
  case (Backend_Leg ev)
  then show ?thesis
    using assms by (auto intro!: R_after_leg split: session_pc.splits option.splits)
next
  case (Status ev)
  then show ?thesis using assms by (auto intro!: R_move split: if_splits io.splits)
next
  case (Drain ev)
  then show ?thesis using assms by (auto intro!: R_move split: if_splits io.splits)
qed

end

text \<open>Relations that new connections keep too hold across every step.\<close>

locale session_invariant = session_relation +
  assumes R_connected: "acquire_end b (Inr sock) (sh_pool sh) = Inr (sock, p) \<Longrightarrow>
    seq (selected b s) (sh\<lparr>sh_pool := p\<rparr>, with_socket b sock s) = Inr d \<Longrightarrow> R (sh, s) d"
begin

lemma R_joined: "joined env c d \<Longrightarrow> R c d"
  unfolding joined_def using R_connected R_trans by blast

lemma R_every_step:
  assumes "step e (sh, s) = Some d" and "\<And>x. pc (snd d) \<noteq> Died x"
  shows "R (sh, s) d"
  using R_step [OF assms] R_joined by blast

end

end
