(* ===== verification/Session_Views.thy ===== *)
theory Session_Views
  imports Session_Rules
begin

text \<open>
  Instances of the rule for sessions: what a session was created with and what it logs, the sockets
  it holds, the gauges of the registry, the thresholds of the breakers, and a breaker in its cooldown.
\<close>

section \<open>Identity and log\<close>

text \<open>What a session was created with never changes, and every line it logs carries its id.\<close>

definition ident :: "session \<Rightarrow> string \<times> string \<times> int" where
  "ident s = (client_key s, correlation_id s, max_attempts s)"

definition traced :: "string \<times> string \<times> int \<Rightarrow> session \<Rightarrow> bool" where
  "traced i s \<longleftrightarrow> ident s = i \<and> (\<forall>l \<in> set (log s). \<exists>name fs. l = trace_event (correlation_id s) name fs)"

definition keeps_trace :: "string \<times> string \<times> int \<Rightarrow> conf \<Rightarrow> conf \<Rightarrow> bool" where
  "keeps_trace i c d \<longleftrightarrow> (traced i (snd c) \<longrightarrow> traced i (snd d))"

lemmas seq_simps = bind_result_eq_Inr stmt_defs on_metrics_eq_Inr split_def Let_def record_failed_attempt_def
  selected_def with_socket_def

lemmas trace_simps = keeps_trace_def traced_def ident_def

interpretation tr: session_invariant "keeps_trace i" for i
proof unfold_locales
  fix s s' sh assume "same_business s s'"
  then show "keeps_trace i (sh, s) (sh, s')" by (simp add: trace_simps same_business_def)
qed (auto simp: trace_simps seq_simps split: option.splits; blast)+

section \<open>Sockets\<close>

text \<open>The sockets a session can hand on: those idle in the pool and the one it holds. It never
  duplicates one; only a new connection adds to them.\<close>

definition sock_ids :: "session \<Rightarrow> nat multiset" where
  "sock_ids s = (case backend_socket s of None \<Rightarrow> {#} | Some sock \<Rightarrow> {#sock_id sock#})"

definition wealth :: "conf \<Rightarrow> nat multiset" where
  "wealth c = idle_ids (sh_pool (fst c)) + sock_ids (snd c)"

definition thrifty :: "conf \<Rightarrow> conf \<Rightarrow> bool" where
  "thrifty c d \<longleftrightarrow> wealth d \<subseteq># wealth c"

lemma release_False_idle: "release b sock False p = Inr q \<Longrightarrow> idle_ids q = idle_ids p"
  by (auto simp: release_def add_active_def bind_result_eq_Inr intro: idle_ids_cong)

lemma acquire_begin_idle:
  assumes "acquire_begin b p = Inr (Some sock, q)"
  shows "idle_ids p = add_mset (sock_id sock) (idle_ids q)"
proof -
  have "b < length (free_sockets p)" "free_sockets p ! b \<noteq> []" "sock = last (free_sockets p ! b)"
    "free_sockets q = (free_sockets p)[b := butlast (free_sockets p ! b)]"
    using assms by (auto simp: acquire_begin_def add_active_def bind_result_eq_Inr vec_at_eq_Inr split: if_splits)
  then show ?thesis using idle_ids_pop [of b p "butlast (free_sockets p ! b)" sock q] by simp
qed

lemmas wealth_simps = thrifty_def wealth_def sock_ids_def

interpretation so: session_relation thrifty
proof unfold_locales
  fix s s' sh assume "same_business s s'"
  then show "thrifty (sh, s) (sh, s')" by (simp add: wealth_simps same_business_def)
qed (auto simp: wealth_simps seq_simps release_False_idle acquire_begin_idle split: option.splits)

section \<open>Gauges\<close>

text \<open>What the gauges say of \<open>n\<close> backends, whose free lists were \<open>w\<close> when the process began to serve:
  the state of a breaker, except that a breaker which has gone from open to half-open may still be shown
  as open; at least the connections in use; and the idle ones, or 0 as long as none was ever taken.\<close>

definition gauges_ok :: "nat \<Rightarrow> socket list list \<Rightarrow> shared \<Rightarrow> bool" where
  "gauges_ok n w sh \<longleftrightarrow>
     (\<forall>b < n. let m = sh_metrics sh; br = sh_breakers sh ! b; p = sh_pool sh in
        (breaker_state m ! b = breaker_code (state br) \<or>
         state br = HALF_OPEN \<and> breaker_state m ! b = breaker_code OPEN) \<and>
        active_counts p ! b \<le> pool_active m ! b \<and>
        (pool_idle m ! b = int (length (free_sockets p ! b)) \<or> pool_idle m ! b = 0 \<and> free_sockets p ! b = w ! b))"

definition keeps_gauges :: "nat \<Rightarrow> socket list list \<Rightarrow> conf \<Rightarrow> conf \<Rightarrow> bool" where
  "keeps_gauges n w c d \<longleftrightarrow> (gauges_ok n w (fst c) \<longrightarrow> gauges_ok n w (fst d))"

lemma allow_request_state:
  "allow_request now br = (ok, br') \<Longrightarrow>
   cb_state br' = cb_state br \<or> cb_state br = OPEN \<and> cb_state br' = HALF_OPEN"
  by (auto simp: allow_request_def split: if_splits)

lemmas gauge_simps = keeps_gauges_def gauges_ok_def state_def seq_simps metrics_defs vec_modify_eq_Inr vec_at_eq_Inr
  nth_list_update active_count_def idle_count_def

interpretation ga: session_invariant "keeps_gauges n w" for n w
proof unfold_locales
  fix b c sh s br assume "show_breaker b c = Inr (sh, s)"
    "allow_request (clock sh (ticks sh)) (sh_breakers sh ! b) = (False, br)"
  then show "keeps_gauges n w c (sh\<lparr>sh_breakers := (sh_breakers sh)[b := br], ticks := ticks sh + 1\<rparr>, s)"
    by (auto simp: gauge_simps dest: allow_request_state)
next
  fix b c sh s br assume "show_breaker b c = Inr (sh, s)"
    "allow_request (clock sh (ticks sh)) (sh_breakers sh ! b) = (True, br)"
  then show "keeps_gauges n w c (sh\<lparr>sh_breakers := (sh_breakers sh)[b := br], ticks := ticks sh + 1\<rparr>,
      s\<lparr>backend_index := b, grants := grants s @ [b]\<rparr>)"
    by (auto simp: gauge_simps dest: allow_request_state)
qed (auto simp: gauge_simps acquire_begin_def acquire_end_def release_def add_active_def split: option.splits if_splits)

section \<open>Configuration of the breakers\<close>

text \<open>There is one breaker per backend, with the thresholds it was built with.\<close>

definition thresholds :: "circuit_breaker \<Rightarrow> int \<times> int \<times> int" where
  "thresholds br = (failure_threshold br, success_threshold br, cooldown_period br)"

definition keeps_thresholds :: "conf \<Rightarrow> conf \<Rightarrow> bool" where
  "keeps_thresholds c d \<longleftrightarrow> map thresholds (sh_breakers (fst d)) = map thresholds (sh_breakers (fst c))"

lemma thresholds_kept [simp]:
  "allow_request now br = (ok, br') \<Longrightarrow> thresholds br' = thresholds br"
  "thresholds (record_success br) = thresholds br" "thresholds (record_failure now br) = thresholds br"
  by (auto simp: thresholds_def allow_request_def record_success_def record_failure_def Let_def split: if_splits)

lemma thresholds_update [simp]:
  "b < length brs \<Longrightarrow> thresholds br = thresholds (brs ! b) \<Longrightarrow> map thresholds (brs[b := br]) = map thresholds brs"
  by (simp add: map_update list_update_same_conv)

lemmas threshold_simps = keeps_thresholds_def seq_simps metrics_defs vec_modify_eq_Inr vec_at_eq_Inr

interpretation th: session_invariant keeps_thresholds
  by unfold_locales (auto simp: threshold_simps split: option.splits)

section \<open>A breaker in its cooldown\<close>

text \<open>While every reading of the clock is within the cooldown of an open breaker, it stays open and grants
  nothing.\<close>

definition cooling :: "nat \<Rightarrow> shared \<Rightarrow> nat \<Rightarrow> bool" where
  "cooling b sh n \<longleftrightarrow> cb_state (sh_breakers sh ! b) = OPEN \<and>
     (\<forall>k. ticks sh \<le> k \<and> k < n \<longrightarrow>
        clock sh k - opened_at (sh_breakers sh ! b) < cooldown_nanos (sh_breakers sh ! b))"

definition stays_open :: "nat \<Rightarrow> shared \<Rightarrow> shared \<Rightarrow> bool" where
  "stays_open b sh sh' \<longleftrightarrow> cb_state (sh_breakers sh' ! b) = OPEN \<and>
     opened_at (sh_breakers sh' ! b) = opened_at (sh_breakers sh ! b) \<and>
     cooldown_nanos (sh_breakers sh' ! b) = cooldown_nanos (sh_breakers sh ! b)"

definition shields :: "nat \<Rightarrow> conf \<Rightarrow> conf \<Rightarrow> bool" where
  "shields b c d \<longleftrightarrow> clock (fst d) = clock (fst c) \<and> ticks (fst c) \<le> ticks (fst d) \<and>
     (cooling b (fst c) (ticks (fst d)) \<longrightarrow>
        stays_open b (fst c) (fst d) \<and> count_list (grants (snd d)) b = count_list (grants (snd c)) b)"

lemma cooling_mono: "cooling b sh n \<Longrightarrow> m \<le> n \<Longrightarrow> cooling b sh m"
  by (auto simp: cooling_def)

lemma cooling_later:
  assumes "cooling b sh n" and "stays_open b sh sh'" and "clock sh' = clock sh" and "ticks sh \<le> ticks sh'"
  shows "cooling b sh' n"
  using assms by (auto simp: cooling_def stays_open_def)

lemma shields_trans: "shields b c d \<Longrightarrow> shields b d e \<Longrightarrow> shields b c e"
  using cooling_mono [of b "fst c" "ticks (fst e)" "ticks (fst d)"]
    cooling_later [of b "fst c" "ticks (fst e)" "fst d"]
  by (auto simp: shields_def stays_open_def)

lemmas shield_simps = shields_def stays_open_def seq_simps metrics_defs vec_modify_eq_Inr vec_at_eq_Inr

lemma gate_shields:
  assumes "show_breaker b' c = Inr (sh, s)" and "allow_request (clock sh (ticks sh)) (sh_breakers sh ! b') = (ok, br)"
    and "\<not> ok \<Longrightarrow> grants s' = grants s" and "ok \<Longrightarrow> grants s' = grants s @ [b']"
  shows "shields b c (sh\<lparr>sh_breakers := (sh_breakers sh)[b' := br], ticks := ticks sh + 1\<rparr>, s')"
proof -
  have frame: "sh_breakers sh = sh_breakers (fst c)" "clock sh = clock (fst c)" "ticks sh = ticks (fst c)"
    "grants s = grants (snd c)" "b' < length (sh_breakers sh)"
    using assms(1) by (auto simp: seq_simps vec_at_eq_Inr)
  have shut: "ok = False" "br = sh_breakers sh ! b'" if "cooling b' sh (ticks sh + 1)"
    using that assms(2) by (auto simp: cooling_def allow_request_def)
  show ?thesis
    using frame shut assms(3,4)
    by (cases ok) (auto simp: shields_def stays_open_def cooling_def nth_list_update)
qed

lemma record_success_open: "cb_state br = OPEN \<Longrightarrow>
    cb_state (record_success br) = OPEN \<and> opened_at (record_success br) = opened_at br \<and>
    cooldown_nanos (record_success br) = cooldown_nanos br"
  by (simp add: record_success_def cooldown_nanos_def)

lemma record_failure_open: "cb_state br = OPEN \<Longrightarrow> record_failure now br = br"
  by (simp add: record_failure_def)

interpretation sd: session_invariant "shields b" for b
proof unfold_locales
  show "shields b c e" if "shields b c d" "shields b d e" for c d e
    using that by (rule shields_trans)
  show "shields b (sh, s) (sh, s')" if "same_business s s'" for s s' sh
    using that by (simp add: shields_def stays_open_def same_business_def cooling_def)
  show "shields b c d" if "seq (record_failed_attempt b') c = Inr d" for b' c d
    using that record_failure_open by (auto simp: shield_simps cooling_def nth_list_update)
  show "shields b c d" if "seq [breaker_success b', on_metrics (record_backend_success b'), show_breaker b'] c = Inr d"
    for b' c d
    using that record_success_open by (auto simp: shield_simps cooling_def nth_list_update)
next
  fix b' c sh s br
  assume look: "show_breaker b' c = Inr (sh, s)"
  show "shields b c (sh\<lparr>sh_breakers := (sh_breakers sh)[b' := br], ticks := ticks sh + 1\<rparr>, s)"
    if "allow_request (clock sh (ticks sh)) (sh_breakers sh ! b') = (False, br)"
    using gate_shields [OF look that] by simp
  show "shields b c (sh\<lparr>sh_breakers := (sh_breakers sh)[b' := br], ticks := ticks sh + 1\<rparr>,
      s\<lparr>backend_index := b', grants := grants s @ [b']\<rparr>)"
    if "allow_request (clock sh (ticks sh)) (sh_breakers sh ! b') = (True, br)"
    using gate_shields [OF look that] by simp
qed (auto simp: shield_simps cooling_def split: option.splits)

end
