(* ===== verification/Http_Framing.thy ===== *)
theory Http_Framing
  imports Session
begin

text \<open>
  A reader for the HTTP responses the proxy writes itself: the head is the lines up to the first
  empty one, each ended by CR LF, and the body is what follows. It serves to state that the
  responses built by string concatenation in \<^verbatim>\<open>send_status\<close>, \<^verbatim>\<open>send_429\<close> and \<^verbatim>\<open>serve_metrics\<close> are
  framed correctly.
\<close>

function http_head :: "string \<Rightarrow> string list \<times> string" where
  "http_head s =
     (let (l, rest) = cut (CHR 0x0D) s; rest = drop 1 rest
      in if l = [] then ([], rest)
         else let (ls, body) = http_head rest in (l # ls, body))"
  by auto
termination
proof (relation "measure length", simp, goal_cases)
  case (1 s p l rest r)
  then have "l \<noteq> []" "(l, rest) = cut (CHR 0x0D) s" "r = drop 1 rest" by auto
  then have "s \<noteq> []" by (auto simp: cut_def)
  then have "length rest < length s" using cut_shorter [of s "CHR 0x0D"] \<open>(l, rest) = cut (CHR 0x0D) s\<close> by (metis snd_conv)
  then show ?case using \<open>r = drop 1 rest\<close> by simp
qed

declare http_head.simps [simp del]

lemma http_head_lines:
  assumes "\<forall>l \<in> set ls. l \<noteq> [] \<and> CHR 0x0D \<notin> set l"
  shows "http_head (concat (map (\<lambda>l. l @ crlf) ls) @ crlf @ body) = (ls, body)"
  using assms
proof (induction ls)
  case Nil
  then show ?case
    by (subst http_head.simps) (simp add: crlf_def cut_def)
next
  case (Cons l ls)
  then have "cut (CHR 0x0D) (l @ CHR 0x0D # CHR 0x0A # t) = (l, CHR 0x0A # t)" for t
    by (simp add: cut_append)
  then show ?case using Cons by (subst http_head.simps) (simp add: crlf_def)
qed

text \<open>The four header lines every response has, with the length of its body.\<close>

definition head_lines :: "string \<Rightarrow> string \<Rightarrow> string \<Rightarrow> string list" where
  "head_lines status content_type body =
     [''HTTP/1.1 '' @ status, ''Content-Type: '' @ content_type,
      ''Content-Length: '' @ to_string (length body), ''Connection: close'']"

lemma http_head_response:
  assumes "CHR 0x0D \<notin> set status" and "CHR 0x0D \<notin> set content_type"
  shows "http_head (''HTTP/1.1 '' @ status @ crlf @ ''Content-Type: '' @ content_type @ crlf @
      ''Content-Length: '' @ to_string (length body) @ crlf @ ''Connection: close'' @ crlf @ crlf @ body) =
    (head_lines status content_type body, body)"
proof -
  have "CHR 0x0D \<notin> set (to_string (length body))"
    by (rule not_digit_notin_to_string) (simp add: is_digit_def)
  then have "\<forall>l \<in> set (head_lines status content_type body). l \<noteq> [] \<and> CHR 0x0D \<notin> set l"
    using assms by (auto simp: head_lines_def)
  from http_head_lines [OF this, of body] show ?thesis by (simp add: head_lines_def)
qed

lemma http_head_status:
  assumes "CHR 0x0D \<notin> set reason"
  shows "http_head (status_response code reason body) =
    (head_lines (to_string code @ '' '' @ reason) ''text/plain'' body, body)"
proof -
  have "CHR 0x0D \<notin> set (to_string code @ '' '' @ reason)"
    using assms not_digit_notin_to_string [of "CHR 0x0D" code] by (simp add: is_digit_def)
  from http_head_response [OF this, of "''text/plain''" body] show ?thesis
    by (simp add: status_response_def)
qed

end
