(* ===== verification/Ring_Certificate.thy ===== *)
theory Ring_Certificate
  imports Hash_Ring
begin

text \<open>
  The proxy of \<^verbatim>\<open>src/main.cpp\<close> registers backends 0, 1 and 2 with the default 500 virtual
  nodes each. This theory evaluates, in the kernel, that the 1500 positions are pairwise
  different, so the results about rings without collisions hold of the deployed ring without
  further assumptions.

  The finalizer of the hash is a bijection, so it is enough to compare the FNV-1a states; and
  multiplication is compatible with truncation, so it is enough that the low 20 bits of the
  states differ. They are computed digit by digit and entered into a binary trie that refuses
  duplicates.
\<close>

section \<open>Low bits of the FNV-1a states\<close>

definition low_mult :: "int \<Rightarrow> int" where
  "low_mult x = take_bit 20 (x * 435)"

definition low_step :: "int \<Rightarrow> int \<Rightarrow> int" where
  "low_step h d = low_mult (h XOR (48 + d))"

definition low_level :: "int list \<Rightarrow> int list" where
  "low_level hs = concat (map (\<lambda>h. map (low_step h) [0, 1, 2, 3, 4, 5, 6, 7, 8, 9]) hs)"

text \<open>The states after the vnode indices 0 to 9, 10 to 99 and 100 to 499, from the state \<open>h\<close>
  after the backend index and the separator.\<close>

definition low_states :: "int \<Rightarrow> int list" where
  "low_states h =
     (let l1 = low_level [h]; l2 = low_level (tl l1); l3 = low_level (take 40 l2)
      in l1 @ l2 @ l3)"

section \<open>A distinctness test by bits\<close>

text \<open>The numbers whose lowest bit is 0 and those whose lowest bit is 1, without it; \<open>None\<close> when
  the number 1 occurs twice.\<close>

fun split_bit :: "num list \<Rightarrow> bool \<Rightarrow> num list \<Rightarrow> num list \<Rightarrow> (num list \<times> num list) option" where
  "split_bit [] one zs os = Some (zs, os)"
| "split_bit (num.One # ns) one zs os = (if one then None else split_bit ns True zs os)"
| "split_bit (num.Bit0 n # ns) one zs os = split_bit ns one (n # zs) os"
| "split_bit (num.Bit1 n # ns) one zs os = split_bit ns one zs (n # os)"

fun distinct_nums :: "nat \<Rightarrow> num list \<Rightarrow> bool" where
  "distinct_nums d [] = True"
| "distinct_nums d [n] = True"
| "distinct_nums 0 (m # n # ns) = False"
| "distinct_nums (Suc d) (m # n # ns) =
     (case split_bit (m # n # ns) False [] [] of
        None \<Rightarrow> False
      | Some (zs, os) \<Rightarrow> distinct_nums d zs \<and> distinct_nums d os)"

definition int_num :: "int \<Rightarrow> num" where
  "int_num k = num_of_nat (nat k)"

lemma int_num_code [code]:
  "int_num 0 = num.One"
  "int_num (Int.Pos n) = n"
  "int_num (Int.Neg n) = num.One"
  by (simp_all add: int_num_def num_of_nat_numeral_eq)

lemma split_bit_distinct:
  "split_bit ns one zs os = Some (zs', os') \<Longrightarrow> distinct zs' \<Longrightarrow> distinct os' \<Longrightarrow>
   distinct ns \<and> distinct zs \<and> distinct os \<and> set zs \<subseteq> set zs' \<and> set os \<subseteq> set os' \<and>
   (one \<longrightarrow> num.One \<notin> set ns) \<and>
   (\<forall>n. num.Bit0 n \<in> set ns \<longrightarrow> n \<notin> set zs \<and> n \<in> set zs') \<and>
   (\<forall>n. num.Bit1 n \<in> set ns \<longrightarrow> n \<notin> set os \<and> n \<in> set os')"
proof (induction ns one zs os rule: split_bit.induct)
  case (2 ns one zs os)
  then show ?case by (auto split: if_splits)
next
  case (3 n ns one zs os)
  then show ?case by fastforce
next
  case (4 n ns one zs os)
  then show ?case by fastforce
qed auto

lemma distinct_nums_sound: "distinct_nums d ns \<Longrightarrow> distinct ns"
proof (induction d ns rule: distinct_nums.induct)
  case (4 d m n ns)
  then obtain zs os where s: "split_bit (m # n # ns) False [] [] = Some (zs, os)"
    and d: "distinct_nums d zs" "distinct_nums d os"
    by (auto split: option.splits)
  with "4.IH" have "distinct zs" "distinct os" by simp_all
  with split_bit_distinct [OF s] show ?case by simp
qed simp_all

section \<open>The certificate\<close>

text \<open>The states after \<^verbatim>\<open>"0#"\<close> to \<^verbatim>\<open>"4#"\<close>: the test driver of the ring registers five backends,
  the proxy the first three.\<close>

definition low_prefix :: "nat \<Rightarrow> int" where
  "low_prefix b = [852452, 665837, 211906, 1042547, 95552] ! b"

lemma low_certificate:
  "distinct_nums 20 (map int_num
     (low_states 852452 @ low_states 665837 @ low_states 211906 @
      low_states 1042547 @ low_states 95552))"
  by code_simp

text \<open>The low bits of the FNV-1a state, byte by byte.\<close>

definition low_fold :: "int \<Rightarrow> string \<Rightarrow> int" where
  "low_fold h s = foldl (\<lambda>h c. low_mult (h XOR of_char c)) h s"

lemma low_mult_take_bit: "low_mult (take_bit 20 x) = low_mult x"
proof -
  have "take_bit 20 (take_bit 20 x * take_bit 20 435) = take_bit 20 (x * 435)"
    by (rule take_bit_mult)
  then show ?thesis by (simp add: low_mult_def take_bit_mult)
qed

lemma low_mult_fnv: "take_bit 20 (uint (fnv_step h c)) = low_mult (take_bit 20 (uint h) XOR of_char c)"
proof -
  let ?x = "uint h XOR of_char c"
  have "take_bit 20 (uint (fnv_step h c)) = take_bit 20 (?x * 1099511628211)"
    by (simp add: uint_fnv_step fnv_step_int_def mult64_def)
  also have "\<dots> = take_bit 20 (take_bit 20 ?x * take_bit 20 1099511628211)"
    by (simp only: take_bit_mult)
  also have "\<dots> = low_mult (take_bit 20 ?x)"
    by (simp add: low_mult_def)
  also have "take_bit 20 ?x = take_bit 20 (take_bit 20 (uint h) XOR of_char c)"
    by (simp add: take_bit_xor)
  finally show ?thesis by (simp only: low_mult_take_bit)
qed

lemma low_fold_fnv: "take_bit 20 (uint (foldl fnv_step h s)) = low_fold (take_bit 20 (uint h)) s"
  by (induction s arbitrary: h) (simp_all add: low_fold_def low_mult_fnv)

lemma low_fold_append: "low_fold h (s @ t) = low_fold (low_fold h s) t"
  by (simp add: low_fold_def)

lemma low_fold_digit: "d < 10 \<Longrightarrow> low_fold h [digit_char d] = low_step h (int d)"
proof -
  assume "d < 10"
  then have "int (of_char (digit_char d)) = 48 + int d" by simp
  then have "(of_char (digit_char d) :: int) = 48 + int d"
    by (simp only: of_nat_of_char)
  then show ?thesis by (simp add: low_fold_def low_step_def)
qed

lemma low_fold_small: "v < 10 \<Longrightarrow> low_fold h (to_string v) = low_step h (int v)"
  by (simp add: low_fold_digit)

lemma low_fold_big:
  "10 \<le> v \<Longrightarrow>
   low_fold h (to_string v) = low_step (low_fold h (to_string (v div 10))) (int (v mod 10))"
  by (simp add: to_string_big low_fold_append low_fold_digit)

lemma low_level_append: "low_level (xs @ ys) = low_level xs @ low_level ys"
  by (simp add: low_level_def)

lemma low_level_single: "low_level [h] = map (\<lambda>d. low_step h (int d)) [0..<10]"
  by (simp add: low_level_def upt_rec)

lemma upt_ten: "[10 * a..<10 * a + 10] = map (\<lambda>d. 10 * a + d) [0..<10]"
  using map_add_upt [of "10 * a" 10] by (simp add: add.commute)

lemma low_level_upt:
  "a \<le> b \<Longrightarrow> low_level (map f [a..<b]) =
     map (\<lambda>v. low_step (f (v div 10)) (int (v mod 10))) [10 * a..<10 * b]"
proof (induction b)
  case (Suc b)
  show ?case
  proof (cases "a = Suc b")
    case False
    then have le: "a \<le> b" using Suc.prems by simp
    have "[10 * a..<10 * Suc b] = [10 * a..<10 * b] @ [10 * b..<10 * b + 10]"
      using le upt_add_eq_append [of "10 * a" "10 * b" 10] by (simp add: add.commute)
    moreover have "map (\<lambda>v. low_step (f (v div 10)) (int (v mod 10))) [10 * b..<10 * b + 10] =
        low_level [f b]"
      unfolding upt_ten low_level_single map_map by (rule map_cong) auto
    ultimately show ?thesis
      using Suc.IH [OF le] le by (simp add: low_level_append)
  qed (simp add: low_level_def)
qed (simp add: low_level_def)

lemma low_states_eq: "low_states h = map (\<lambda>v. low_fold h (to_string v)) [0..<500]"
proof -
  let ?f = "\<lambda>v. low_fold h (to_string v)"
  have l1: "low_level [h] = map ?f [0..<10]"
    using low_level_upt [of 0 1 "\<lambda>_. h"] by (simp add: low_fold_digit cong: map_cong)
  have l2: "low_level (map ?f [1..<10]) = map ?f [10..<100]"
    using low_level_upt [of 1 10 ?f] by (simp add: low_fold_big)
  have l3: "low_level (map ?f [10..<50]) = map ?f [100..<500]"
    using low_level_upt [of 10 50 ?f] by (simp add: low_fold_big)
  have "tl (map ?f [0..<10]) = map ?f [1..<10]"
    by (simp add: map_tl [symmetric] tl_upt)
  moreover have "take 40 (map ?f [10..<100]) = map ?f [10..<50]"
    by (simp add: take_map take_upt)
  moreover have "[0..<10] @ [10..<100] @ [100..<500] = [0..<500 :: nat]"
    using upt_add_eq_append [of 0 10 490] upt_add_eq_append [of 10 100 400] by simp
  ultimately show ?thesis
    unfolding low_states_def Let_def l1 by (metis l2 l3 map_append)
qed

lemma low_prefix_fnv:
  assumes "b < 5"
  shows "take_bit 20 (uint (fnv1a (to_string b @ ''#''))) = low_prefix b"
proof -
  have "b \<in> {0, 1, 2, 3, 4}" using assms by auto
  moreover have "take_bit 20 (uint (fnv1a (to_string b @ ''#''))) =
      low_fold 140069 (to_string b @ ''#'')"
    using low_fold_fnv [of fnv_offset_basis "to_string b @ ''#''"]
    by (simp add: fnv1a_def fnv_offset_basis_def)
  ultimately show ?thesis
    by (auto simp: low_fold_append low_fold_digit low_step_def low_mult_def low_prefix_def
        low_fold_def [of _ "''#''"])
qed

lemma low_vnode: "b < 5 \<Longrightarrow>
  take_bit 20 (uint (fnv1a (vnode_key b v))) = low_fold (low_prefix b) (to_string v)"
  using low_fold_fnv [of "fnv1a (to_string b @ ''#'')" "to_string v"] low_prefix_fnv [of b]
  unfolding vnode_key_def fnv1a_def foldl_append append_assoc [symmetric] by simp

lemma low_positions_distinct:
  "distinct (concat (map (\<lambda>b. map (\<lambda>v. low_fold (low_prefix b) (to_string v)) [0..<500]) [0..<5]))"
proof -
  have "[0..<5] = [0, 1, 2, 3, 4 :: nat]" by (simp add: upt_rec)
  then show ?thesis
    using distinct_nums_sound [OF low_certificate]
    by (simp only: list.map concat.simps low_states_eq [symmetric] distinct_map append_Nil2)
      (simp add: low_prefix_def)
qed

lemma distinct_concat_inj:
  assumes "distinct (concat (map (\<lambda>b. map (f b) [0..<n]) [0..<k]))"
  shows "inj_on (\<lambda>(b, v). f b v) ({..<k} \<times> {..<n :: nat})"
  using assms
proof (induction k)
  case (Suc k)
  then have IH: "inj_on (\<lambda>(b, v). f b v) ({..<k} \<times> {..<n})"
    and row: "distinct (map (f k) [0..<n])"
    and apart: "(\<Union>b<k. f b ` {..<n}) \<inter> f k ` {..<n} = {}"
    by (auto simp: atLeast0LessThan)
  have apart': "b < k \<Longrightarrow> v < n \<Longrightarrow> v' < n \<Longrightarrow> f b v \<noteq> f k v'" for b v v'
    using apart by blast
  have inj: "inj_on (f k) {..<n}" using row by (simp add: distinct_map atLeast0LessThan)
  have split: "{..<Suc k} \<times> {..<n} = {..<k} \<times> {..<n} \<union> {k} \<times> {..<n}" by auto
  show ?case
    unfolding split using IH inj apart' apart' [symmetric] by (auto simp: inj_on_Un inj_on_def)
qed simp

text \<open>The 2500 virtual nodes of backends 0 to 4 have different positions.\<close>

lemma vnode_positions_distinct:
  "inj_on (\<lambda>(b, v). vnode_hash b v) ({..<5} \<times> {..<500})"
proof (rule inj_onI, clarsimp)
  fix b v b' v' :: nat
  assume b: "b < 5" "b' < 5" and v: "v < 500" "v' < 500"
    and eq: "vnode_hash b v = vnode_hash b' v'"
  then have "fnv1a (vnode_key b v) = fnv1a (vnode_key b' v')"
    by (simp add: hash_key_collision_iff)
  then have "low_fold (low_prefix b) (to_string v) = low_fold (low_prefix b') (to_string v')"
    using b by (metis low_vnode)
  then show "b = b' \<and> v = v'"
    using inj_onD [OF distinct_concat_inj [OF low_positions_distinct], of "(b, v)" "(b', v')"] b v
    by simp
qed

section \<open>The deployed ring\<close>

text \<open>The ring \<^verbatim>\<open>main\<close> builds before it listens (\<^verbatim>\<open>HashRing ring;\<close> and the registration loop),
  for any number of backends.\<close>

definition default_vnodes :: nat where
  "default_vnodes = 500"

definition main_ring :: "nat \<Rightarrow> hash_ring" where
  "main_ring backends = fold add_backend [0..<backends] (new_ring default_vnodes)"

lemma collision_free_default: "B \<subseteq> {..<5} \<Longrightarrow> collision_free default_vnodes B"
  unfolding collision_free_def default_vnodes_def
  using inj_onD [OF vnode_positions_distinct, of "(_, _)" "(_, _)"] by fastforce

lemma main_ring_ops: "main_ring k = fold ring_apply (map Add [0..<k]) (new_ring default_vnodes)"
  unfolding main_ring_def fold_map by (rule arg_cong [of _ _ "\<lambda>f. fold f _ _"]) (simp add: fun_eq_iff)

lemma main_ring_frame:
  "num_vnodes_per_backend (main_ring k) = default_vnodes \<and> active_backends (main_ring k) = {..<k}"
  by (simp add: main_ring_def fold_add_backend_frame atLeast0LessThan)

lemma main_ring_inv:
  assumes "k \<le> 5"
  shows "ring_inv (main_ring k) \<and> ring_full (main_ring k)"
proof -
  have "collision_free (num_vnodes_per_backend (new_ring default_vnodes)) {..<5}"
    by (simp add: collision_free_default)
  moreover have "op_backend ` set (map Add [0..<k]) \<subseteq> {..<5}" using assms by auto
  ultimately show ?thesis
    using ring_ops_inv [OF ring_inv_new ring_full_new] by (simp only: main_ring_ops) simp
qed

lemma main_ring_positions:
  assumes "k \<le> 5"
  shows "dom (map_of (ring (main_ring k))) = (\<lambda>(b, v). vnode_hash b v) ` ({..<k} \<times> {..<500})"
  using ring_full_lookup [of "main_ring k"] main_ring_inv [OF assms] main_ring_frame [of k]
  by (auto simp: dom_def default_vnodes_def image_iff)

text \<open>C24: The ring \<^verbatim>\<open>main\<close> builds for up to five backends loses no virtual node to a hash
  collision: it has exactly 500 entries per backend.\<close>

theorem main_ring_vnode_count:
  assumes "k \<le> 5"
  shows "vnode_count (main_ring k) = 500 * k \<and> backend_count (main_ring k) = k"
proof
  have "vnode_count (main_ring k) = card (dom (map_of (ring (main_ring k))))"
    using om.size_is_card_dom [of "ring (main_ring k)"] main_ring_inv [OF assms]
    by (simp add: vnode_count_def ring_inv_sorted)
  also have "\<dots> = card ({..<k} \<times> {..<500 :: nat})"
    unfolding main_ring_positions [OF assms] using assms
    by (intro card_image inj_on_subset [OF vnode_positions_distinct]) auto
  finally show "vnode_count (main_ring k) = 500 * k" by simp
  show "backend_count (main_ring k) = k"
    using main_ring_frame by (simp add: backend_count_def)
qed

theorem main_ring_vnode_count_witness:
  "vnode_count (main_ring 3) = 1500 \<and> backend_count (main_ring 3) = 3"
  using main_ring_vnode_count [of 3] by simp

end
