(* ===== verification/Double_Arith.thy ===== *)
theory Double_Arith
  imports Complex_Main "HOL-Library.Log_Nat"
begin

text \<open>
  The \<^verbatim>\<open>double\<close> arithmetic of the rate limiter. A finite IEEE 754 binary64 value is a rational
  \<open>m * 2 ^ e\<close> with \<open>\<bar>m\<bar> < 2 ^ 53\<close> and \<open>- 1074 \<le> e\<close>; every arithmetic operation is the exact
  one followed by \<open>rnd\<close>, round to nearest with ties to even. Infinities and NaNs are outside the
  model: the exponent has no upper bound.

  What clients rely on is the locale \<open>nearest_rounding\<close>: rounding yields a value of the format
  that is at least as near as any other. Monotonicity and exactness on the format follow there.
\<close>

section \<open>Rounding\<close>

definition rexp :: "rat \<Rightarrow> int" where
  "rexp x =
     (let (n, d) = quotient_of x;
          e = bitlen n - bitlen d
      in if 2 powi e \<le> x then e else e - 1)"

definition round_even :: "rat \<Rightarrow> int" where
  "round_even q =
     (let f = \<lfloor>q\<rfloor>; r = q - of_int f
      in if r < 1 / 2 then f else if 1 / 2 < r then f + 1 else if even f then f else f + 1)"

definition ulp_exp :: "rat \<Rightarrow> int" where
  "ulp_exp x = (if x = 0 then - 1074 else max (rexp \<bar>x\<bar> - 52) (- 1074))"

definition rnd :: "rat \<Rightarrow> rat" where
  "rnd x = of_int (round_even (x / 2 powi ulp_exp x)) * 2 powi ulp_exp x"

definition is_double :: "rat \<Rightarrow> bool" where
  "is_double y \<longleftrightarrow> (\<exists>m e. y = of_int m * 2 powi e \<and> \<bar>m\<bar> < 2 ^ 53 \<and> - 1074 \<le> e)"

section \<open>The interface\<close>

locale nearest_rounding =
  fixes round :: "rat \<Rightarrow> rat" and format :: "rat \<Rightarrow> bool"
  assumes round_format: "format (round x)"
    and round_nearest: "format y \<Longrightarrow> \<bar>round x - x\<bar> \<le> \<bar>y - x\<bar>"
begin

lemma exact: "format y \<Longrightarrow> round y = y"
  using round_nearest [of y y] by simp

lemma idem: "round (round x) = round x"
  by (rule exact) (rule round_format)

lemma mono:
  assumes "x \<le> y"
  shows "round x \<le> round y"
proof (rule ccontr)
  assume less: "\<not> round x \<le> round y"
  have "\<bar>round x - x\<bar> \<le> \<bar>round y - x\<bar>" "\<bar>round y - y\<bar> \<le> \<bar>round x - y\<bar>"
    by (simp_all add: round_nearest round_format)
  with less assms have "x = y" by linarith
  with less show False by simp
qed

lemma round_ge: "format c \<Longrightarrow> c \<le> x \<Longrightarrow> c \<le> round x"
  using mono [of c x] by (simp add: exact)

lemma round_le: "format c \<Longrightarrow> x \<le> c \<Longrightarrow> round x \<le> c"
  using mono [of x c] by (simp add: exact)

end

section \<open>Binary64 rounding is such a rounding\<close>

lemma powi_diff_nat: "(2 :: rat) powi (int a - int b) = 2 ^ a / 2 ^ b"
  by (simp add: power_int_diff)

lemma rexp_bounds:
  assumes "0 < x"
  shows "2 powi rexp x \<le> x" and "x < 2 powi (rexp x + 1)"
proof -
  obtain n d where q: "quotient_of x = (n, d)" by fastforce
  have d: "0 < d" and x: "x = of_int n / of_int d"
    using q quotient_of_denom_pos quotient_of_div by blast+
  have n: "0 < n" using assms d x by (simp add: zero_less_divide_iff)
  let ?l = "nat (bitlen n - 1)" and ?k = "nat (bitlen d - 1)"
  have pos: "0 < bitlen n" "0 < bitlen d"
    using n d by (simp_all add: bitlen_alt_def add_nonneg_pos)
  have nl: "2 ^ ?l \<le> n" "n < 2 * 2 ^ ?l" and dl: "2 ^ ?k \<le> d" "d < 2 * 2 ^ ?k"
    using bitlen_bounds [OF n] bitlen_bounds [OF d] pos
    by (auto simp flip: power_Suc simp: Suc_nat_eq_nat_zadd1)
  have nl': "2 ^ ?l \<le> (of_int n :: rat)" "(of_int n :: rat) < 2 * 2 ^ ?l"
    and dl': "2 ^ ?k \<le> (of_int d :: rat)" "(of_int d :: rat) < 2 * 2 ^ ?k"
  proof -
    have "of_int (2 ^ ?l) \<le> (of_int n :: rat)" "(of_int n :: rat) < of_int (2 * 2 ^ ?l)"
      "of_int (2 ^ ?k) \<le> (of_int d :: rat)" "(of_int d :: rat) < of_int (2 * 2 ^ ?k)"
      using nl dl by (simp_all only: of_int_le_iff of_int_less_iff)
    then show "2 ^ ?l \<le> (of_int n :: rat)" "(of_int n :: rat) < 2 * 2 ^ ?l"
      "2 ^ ?k \<le> (of_int d :: rat)" "(of_int d :: rat) < 2 * 2 ^ ?k"
      by (simp_all only: of_int_power of_int_mult of_int_numeral)
  qed
  let ?e = "bitlen n - bitlen d"
  have e: "(2 :: rat) powi ?e = 2 ^ ?l / 2 ^ ?k"
  proof -
    have "?e = int ?l - int ?k" using pos by simp
    then show ?thesis using powi_diff_nat [of ?l ?k] by (simp only:)
  qed
  have "x < 2 * 2 ^ ?l / 2 ^ ?k"
    unfolding x using nl' dl' d n by (intro frac_less) auto
  then have up: "x < 2 powi (?e + 1)" by (simp add: power_int_add e mult.commute)
  have "2 ^ ?l / (2 * 2 ^ ?k) < x"
    unfolding x using nl' dl' d n by (intro frac_less2) auto
  then have lo: "2 powi (?e - 1) < x"
    by (simp add: power_int_diff e)
  show "2 powi rexp x \<le> x" "x < 2 powi (rexp x + 1)"
    using up lo by (auto simp: rexp_def q Let_def)
qed

lemma round_even_nearest: "\<bar>of_int (round_even q) - q\<bar> \<le> \<bar>of_int k - q\<bar>"
proof -
  let ?f = "\<lfloor>q\<rfloor>"
  have f: "of_int ?f \<le> q" "q < of_int ?f + 1" using floor_correct [of q] by simp_all
  have k: "k \<le> ?f \<or> ?f + 1 \<le> k" by linarith
  then have "(of_int k :: rat) \<le> of_int ?f \<or> of_int ?f + 1 \<le> (of_int k :: rat)"
    by (metis of_int_1 of_int_add of_int_le_iff)
  with f show ?thesis by (auto simp: round_even_def Let_def)
qed

lemma round_even_int [simp]: "round_even (of_int k) = k"
  using round_even_nearest [of "of_int k" k] by simp

lemma abs_round_even_le: "\<bar>q\<bar> \<le> of_int k \<Longrightarrow> \<bar>of_int (round_even q) :: rat\<bar> \<le> of_int k"
proof -
  assume q: "\<bar>q\<bar> \<le> of_int k"
  have "\<bar>of_int (round_even q) - q\<bar> \<le> \<bar>of_int k - q\<bar>" "\<bar>of_int (round_even q) - q\<bar> \<le> \<bar>of_int (- k) - q\<bar>"
    by (rule round_even_nearest)+
  with q show ?thesis by (auto simp: abs_le_iff abs_if split: if_splits)
qed

lemma powi_pos [simp]: "0 < (2 :: rat) powi e"
  by simp

lemma ulp_exp_ge: "- 1074 \<le> ulp_exp x"
  by (simp add: ulp_exp_def)

lemma powi_split: "(2 :: rat) powi (e + int n) = 2 powi e * 2 ^ n"
  by (simp add: power_int_add)

text \<open>In units of its last place a value has at most 53 bits.\<close>

lemma scaled_bound: "\<bar>x / 2 powi ulp_exp x\<bar> \<le> of_int (2 ^ 53)"
proof (cases "x = 0")
  case False
  then have "\<bar>x\<bar> < 2 powi (rexp \<bar>x\<bar> + 1)" by (intro rexp_bounds) simp
  also have "\<dots> \<le> 2 powi (ulp_exp x + int 53)"
    using False by (intro power_int_increasing) (auto simp: ulp_exp_def)
  finally have "\<bar>x\<bar> < 2 powi ulp_exp x * 2 ^ 53" by (simp only: powi_split)
  then show ?thesis by (simp add: abs_divide divide_le_eq mult.commute)
qed simp

lemma is_double_rnd: "is_double (rnd x)"
proof -
  let ?m = "round_even (x / 2 powi ulp_exp x)"
  have m: "\<bar>?m\<bar> \<le> 2 ^ 53"
    using abs_round_even_le [OF scaled_bound [of x]] by (simp flip: of_int_abs)
  show ?thesis
  proof (cases "\<bar>?m\<bar> = 2 ^ 53")
    case True
    have "rnd x = of_int (sgn ?m * 2 ^ 52) * 2 powi (ulp_exp x + int 1)"
      using True unfolding rnd_def powi_split by (simp add: abs_if sgn_if split: if_splits)
    moreover have "\<bar>sgn ?m * 2 ^ 52\<bar> < (2 :: int) ^ 53" by (simp add: sgn_if)
    ultimately show ?thesis
      unfolding is_double_def using ulp_exp_ge [of x]
      by (intro exI [of _ "sgn ?m * 2 ^ 52"] exI [of _ "ulp_exp x + int 1"]) auto
  next
    case False
    then show ?thesis
      unfolding is_double_def rnd_def using m ulp_exp_ge [of x] by (intro exI conjI) (rule refl, auto)
  qed
qed

text \<open>A value of the format is a multiple of the last place of \<open>x\<close>, or it is smaller than the
  power of two below \<open>x\<close>, which is such a multiple.\<close>

lemma format_multiple_or_small:
  assumes "is_double y"
  shows "(\<exists>k. y = of_int k * 2 powi ulp_exp x) \<or>
    (x \<noteq> 0 \<and> \<bar>y\<bar> < 2 powi rexp \<bar>x\<bar> \<and> (2 :: rat) powi rexp \<bar>x\<bar> = of_int (2 ^ 52) * 2 powi ulp_exp x)"
proof -
  obtain m e where y: "y = of_int m * 2 powi e" "\<bar>m\<bar> < 2 ^ 53" "- 1074 \<le> e"
    using assms by (auto simp: is_double_def)
  show ?thesis
  proof (cases "ulp_exp x \<le> e")
    case True
    then have "2 powi e = (2 :: rat) powi (ulp_exp x + int (nat (e - ulp_exp x)))" by simp
    then have "y = of_int (m * 2 ^ nat (e - ulp_exp x)) * 2 powi ulp_exp x"
      unfolding y(1) powi_split by simp
    then show ?thesis by blast
  next
    case False
    then have x: "x \<noteq> 0" and u: "ulp_exp x = rexp \<bar>x\<bar> - 52" and e: "e + int 53 \<le> rexp \<bar>x\<bar>"
      using y(3) by (auto simp: ulp_exp_def split: if_splits)
    have "\<bar>of_int m :: rat\<bar> < 2 ^ 53" using y(2) by (simp flip: of_int_abs)
    then have "\<bar>y\<bar> < 2 powi (e + int 53)" unfolding y(1) powi_split by (simp add: abs_mult mult.commute)
    also have "\<dots> \<le> 2 powi rexp \<bar>x\<bar>" using e by (intro power_int_increasing) auto
    finally have "\<bar>y\<bar> < 2 powi rexp \<bar>x\<bar>" .
    moreover have "(2 :: rat) powi rexp \<bar>x\<bar> = 2 powi (ulp_exp x + int 52)" using u by simp
    then have "(2 :: rat) powi rexp \<bar>x\<bar> = of_int (2 ^ 52) * 2 powi ulp_exp x"
      unfolding powi_split by (simp add: mult.commute)
    ultimately show ?thesis using x by blast
  qed
qed

lemma rnd_nearest_multiple: "\<bar>rnd x - x\<bar> \<le> \<bar>of_int k * 2 powi ulp_exp x - x\<bar>"
proof -
  let ?u = "2 powi ulp_exp x :: rat"
  have "\<bar>of_int (round_even (x / ?u)) - x / ?u\<bar> * ?u \<le> \<bar>of_int k - x / ?u\<bar> * ?u"
    by (intro mult_right_mono round_even_nearest) simp
  moreover have "\<bar>of_int j - x / ?u\<bar> * ?u = \<bar>of_int j * ?u - x\<bar>" for j
  proof -
    have "\<bar>of_int j - x / ?u\<bar> * ?u = \<bar>(of_int j - x / ?u) * ?u\<bar>" by (simp add: abs_mult)
    also have "(of_int j - x / ?u) * ?u = of_int j * ?u - x" by (simp add: left_diff_distrib)
    finally show ?thesis .
  qed
  ultimately show ?thesis by (simp add: rnd_def)
qed

lemma rnd_nearest:
  assumes "is_double y"
  shows "\<bar>rnd x - x\<bar> \<le> \<bar>y - x\<bar>"
  using format_multiple_or_small [OF assms, of x]
proof (elim disjE exE conjE)
  fix k assume "y = of_int k * 2 powi ulp_exp x"
  then show ?thesis using rnd_nearest_multiple by simp
next
  let ?b = "2 powi rexp \<bar>x\<bar> :: rat"
  assume x: "x \<noteq> 0" and small: "\<bar>y\<bar> < ?b" and b: "?b = of_int (2 ^ 52) * 2 powi ulp_exp x"
  have "?b \<le> \<bar>x\<bar>" using x by (intro rexp_bounds) simp
  then have "\<bar>sgn x * ?b - x\<bar> \<le> \<bar>y - x\<bar>" using small by (auto simp: sgn_if abs_if split: if_splits)
  moreover have "sgn x * ?b = of_int ((if 0 < x then 1 else - 1) * 2 ^ 52) * 2 powi ulp_exp x"
    using x b by (cases "0 < x") (simp_all add: sgn_if)
  ultimately show ?thesis using rnd_nearest_multiple [of x] by (metis order_trans)
qed

interpretation dbl: nearest_rounding rnd is_double
  by unfold_locales (simp_all add: is_double_rnd rnd_nearest)

section \<open>Values of the format\<close>

lemma is_double_of_int: "\<bar>k\<bar> < 2 ^ 53 \<Longrightarrow> is_double (of_int k)"
  unfolding is_double_def by (intro exI [of _ k] exI [of _ 0]) simp

lemma is_double_simps [simp]: "is_double 0" "is_double 1"
  using is_double_of_int [of 0] is_double_of_int [of 1] by simp_all

lemma is_double_numeral: "(numeral n :: int) < 2 ^ 53 \<Longrightarrow> is_double (numeral n)"
  using is_double_of_int [of "numeral n"] by simp

text \<open>Subtracting one token is exact up to \<open>2 ^ 53\<close> tokens.\<close>

lemma is_double_minus_one:
  assumes "is_double y" and "1 \<le> y" and "y \<le> 2 ^ 53"
  shows "is_double (y - 1)"
proof -
  obtain m e where y: "y = of_int m * 2 powi e" "\<bar>m\<bar> < 2 ^ 53" "- 1074 \<le> e"
    using assms(1) by (auto simp: is_double_def)
  show ?thesis
  proof (cases "e \<le> 0")
    case True
    define n where "n = nat (- e)"
    have e: "(2 :: rat) powi e = 1 / 2 ^ n" using True by (simp add: n_def power_int_def power_one_over)
    have y1: "y - 1 = of_int (m - 2 ^ n) * 2 powi e" unfolding y(1) e by (simp add: field_simps)
    have "0 \<le> m - 2 ^ n"
      using assms(2) unfolding y(1) e by (simp add: field_simps)
    moreover have "m - 2 ^ n < 2 ^ 53"
      using y(2) by (smt (verit) zero_less_power)
    ultimately show ?thesis unfolding is_double_def using y1 y(3) by (intro exI conjI) (assumption, auto)
  next
    case False
    then have "(2 :: rat) powi e = of_int (2 ^ nat e)" by (simp add: power_int_def)
    then obtain k :: int where k: "y = of_int k" using y(1) by (metis of_int_mult)
    have "1 \<le> k" "k \<le> 2 ^ 53" using assms(2,3) k by simp_all
    then have "is_double (of_int (k - 1))" by (intro is_double_of_int) simp
    then show ?thesis by (simp add: k)
  qed
qed

lemma rnd_minus_one:
  "is_double y \<Longrightarrow> 1 \<le> y \<Longrightarrow> y \<le> 2 ^ 53 \<Longrightarrow> rnd (y - 1) = y - 1"
  by (intro dbl.exact is_double_minus_one)

section \<open>Rounding error\<close>

lemma round_even_error: "\<bar>of_int (round_even q) - q\<bar> \<le> 1 / 2"
proof -
  have "of_int \<lfloor>q\<rfloor> \<le> q" "q < of_int \<lfloor>q\<rfloor> + 1" using floor_correct [of q] by simp_all
  then show ?thesis by (auto simp: round_even_def Let_def)
qed

lemma rnd_error: "\<bar>rnd x - x\<bar> \<le> 2 powi ulp_exp x / 2"
proof -
  let ?u = "2 powi ulp_exp x :: rat"
  have "\<bar>rnd x - x\<bar> = \<bar>of_int (round_even (x / ?u)) - x / ?u\<bar> * ?u"
  proof -
    have "rnd x - x = (of_int (round_even (x / ?u)) - x / ?u) * ?u"
      by (simp add: rnd_def left_diff_distrib)
    then show ?thesis by (simp add: abs_mult)
  qed
  also have "\<dots> \<le> 1 / 2 * ?u" by (intro mult_right_mono round_even_error) simp
  finally show ?thesis by simp
qed

text \<open>Up to a capacity of at least one, rounding moves a value by at most the capacity's share of
  \<open>2 ^ 53\<close>.\<close>

lemma rnd_error_below:
  assumes "\<bar>x\<bar> \<le> c" and "1 \<le> c"
  shows "\<bar>rnd x - x\<bar> \<le> c / 2 ^ 53"
proof -
  have "2 powi ulp_exp x \<le> c / 2 ^ 52"
  proof (cases "ulp_exp x = - 1074")
    case True
    have "(2 :: rat) powi - 1074 \<le> 2 powi - 52" by (intro power_int_increasing) auto
    also have "\<dots> = 1 / 2 ^ 52" by (simp add: power_int_def power_one_over)
    also have "\<dots> \<le> c / 2 ^ 52" using assms(2) by simp
    finally show ?thesis using True by simp
  next
    case False
    then have x: "x \<noteq> 0" and u: "rexp \<bar>x\<bar> = ulp_exp x + int 52"
      by (auto simp: ulp_exp_def split: if_splits)
    have "2 powi rexp \<bar>x\<bar> \<le> \<bar>x\<bar>" using x by (intro rexp_bounds) simp
    then have "2 powi ulp_exp x * 2 ^ 52 \<le> c" using assms(1) unfolding u powi_split by simp
    then show ?thesis by simp
  qed
  then show ?thesis using rnd_error [of x] by simp
qed

end
