(* ===== verification/Rate_Limiter.thy ===== *)
theory Rate_Limiter
  imports Fnv_Hash Double_Arith "HOL-Library.AList"
begin

text \<open>
  The sharded token-bucket rate limiter of \<^verbatim>\<open>src/rate_limiter.{hpp,cpp}\<close>. A shard's
  \<^verbatim>\<open>unordered_map\<close> is an association list with distinct keys (its iteration order is
  irrelevant to every operation). Time points are nanosecond counts; token arithmetic is that
  of \<^verbatim>\<open>double\<close>s, every operation rounded. Each operation holds the mutex of the shard it works
  on, so an operation is atomic per shard; the reading of the clock is its argument \<open>now\<close>.
  \<open>allow\<close> returns \<open>None\<close> where the code divides by zero, with no shards.

  The results: the sharded limiter refines one flat map from clients to buckets; buckets stay
  within the capacity; the number of admitted requests is bounded by the capacity and the
  credited tokens; and reaping idle buckets is unobservable exactly when the idle threshold is
  long enough to refill a bucket.
\<close>

section \<open>State and operations\<close>

record bucket =
  tokens :: rat
  last_refill :: nanos

type_synonym shard = "(string \<times> bucket) list"

record rate_limiter =
  refill_rate_per_sec :: rat
  capacity :: rat
  shards :: "shard list"

definition new_limiter :: "rat \<Rightarrow> rat \<Rightarrow> nat \<Rightarrow> rate_limiter" where
  "new_limiter rate cap shard_count =
     \<lparr>refill_rate_per_sec = rate, capacity = cap, shards = replicate shard_count []\<rparr>"

definition limiter_hash_key :: "string \<Rightarrow> u64" where
  "limiter_hash_key key =
     (let h = foldl (\<lambda>h c. (h XOR of_char c) * 1099511628211) 14695981039346656037 key;
          h = h XOR drop_bit 33 h;
          h = h * 0xff51afd7ed558ccd;
          h = h XOR drop_bit 33 h;
          h = h * 0xc4ceb9fe1a85ec53;
          h = h XOR drop_bit 33 h
      in h)"

definition shard_index :: "string \<Rightarrow> rate_limiter \<Rightarrow> nat" where
  "shard_index client_ip rl = unat (limiter_hash_key client_ip) mod length (shards rl)"

text \<open>\<^verbatim>\<open>std::chrono::duration<double>(d).count()\<close>: the count converted and divided by \<open>10 ^ 9\<close>.\<close>

definition elapsed_sec :: "nanos \<Rightarrow> rat" where
  "elapsed_sec d = rnd (rnd (of_int d) / 1000000000)"

definition credit :: "rat \<Rightarrow> nanos \<Rightarrow> rat" where
  "credit rate d = rnd (elapsed_sec d * rate)"

text \<open>The body of \<^verbatim>\<open>allow\<close> on one bucket; \<open>None\<close> when the client has none yet.\<close>

definition bucket_allow :: "rat \<Rightarrow> rat \<Rightarrow> nanos \<Rightarrow> bucket option \<Rightarrow> bool \<times> bucket" where
  "bucket_allow rate cap now entry =
     (let b = (case entry of
                 None \<Rightarrow> \<lparr>tokens = cap, last_refill = now\<rparr>
               | Some b \<Rightarrow> \<lparr>tokens = min cap (rnd (tokens b + credit rate (now - last_refill b))),
                            last_refill = now\<rparr>)
      in if tokens b \<ge> 1 then (True, b\<lparr>tokens := rnd (tokens b - 1)\<rparr>) else (False, b))"

definition allow :: "nanos \<Rightarrow> string \<Rightarrow> rate_limiter \<Rightarrow> (bool \<times> rate_limiter) option" where
  "allow now client_ip rl =
     (if shards rl = [] then None
      else let i = shard_index client_ip rl;
               (ok, b) = bucket_allow (refill_rate_per_sec rl) (capacity rl) now
                           (map_of (shards rl ! i) client_ip)
           in Some (ok, rl\<lparr>shards := (shards rl)[i := AList.update client_ip b (shards rl ! i)]\<rparr>))"

fun reap_shard :: "nanos \<Rightarrow> nanos \<Rightarrow> shard \<Rightarrow> shard \<times> nat" where
  "reap_shard now idle_threshold [] = ([], 0)"
| "reap_shard now idle_threshold (e # es) =
     (let (kept, removed) = reap_shard now idle_threshold es
      in if now - last_refill (snd e) > idle_threshold then (kept, removed + 1) else (e # kept, removed))"

definition reap_idle :: "nanos \<Rightarrow> nanos \<Rightarrow> rate_limiter \<Rightarrow> nat \<times> rate_limiter" where
  "reap_idle now idle_threshold rl =
     (let rs = map (reap_shard now idle_threshold) (shards rl)
      in (sum_list (map snd rs), rl\<lparr>shards := map fst rs\<rparr>))"

definition shard_count :: "rate_limiter \<Rightarrow> nat" where
  "shard_count rl = length (shards rl)"

definition total_tracked_clients :: "rate_limiter \<Rightarrow> nat" where
  "total_tracked_clients rl = sum_list (map length (shards rl))"

section \<open>Specification: one flat map of buckets\<close>

definition flat :: "rate_limiter \<Rightarrow> string \<Rightarrow> bucket option" where
  "flat rl ip = map_of (shards rl ! shard_index ip rl) ip"

definition flat_allow ::
  "rat \<Rightarrow> rat \<Rightarrow> nanos \<Rightarrow> string \<Rightarrow> (string \<rightharpoonup> bucket) \<Rightarrow> bool \<times> (string \<rightharpoonup> bucket)" where
  "flat_allow rate cap now ip m =
     (let (ok, b) = bucket_allow rate cap now (m ip) in (ok, m(ip \<mapsto> b)))"

definition idle_at :: "nanos \<Rightarrow> nanos \<Rightarrow> bucket \<Rightarrow> bool" where
  "idle_at now idle_threshold b \<longleftrightarrow> now - last_refill b > idle_threshold"

text \<open>Every client's bucket is in the shard its hash selects, once.\<close>

definition shards_inv :: "rate_limiter \<Rightarrow> bool" where
  "shards_inv rl \<longleftrightarrow> shards rl \<noteq> [] \<and>
     (\<forall>i < length (shards rl). distinct (map fst (shards rl ! i)) \<and>
        (\<forall>ip \<in> fst ` set (shards rl ! i). shard_index ip rl = i))"

text \<open>Token counts are \<^verbatim>\<open>double\<close>s between zero and the capacity.\<close>

definition bucket_ok :: "rat \<Rightarrow> bucket \<Rightarrow> bool" where
  "bucket_ok cap b \<longleftrightarrow> is_double (tokens b) \<and> 0 \<le> tokens b \<and> tokens b \<le> cap"

definition limiter_ok :: "rate_limiter \<Rightarrow> bool" where
  "limiter_ok rl \<longleftrightarrow> shards_inv rl \<and> (\<forall>ip b. flat rl ip = Some b \<longrightarrow> bucket_ok (capacity rl) b)"

lemma limiter_hash_key_eq: "limiter_hash_key key = hash_key key"
proof -
  have "(\<lambda>h c. (h XOR of_char c) * 1099511628211) = fnv_step"
    by (simp add: fnv_step_def fnv_prime_def fun_eq_iff)
  then show ?thesis
    by (simp add: limiter_hash_key_def hash_key_def avalanche_def xorshift33_def fnv1a_def
        fnv_offset_basis_def Let_def)
qed

section \<open>Refinement of the flat map\<close>

lemma shard_index_less: "shards rl \<noteq> [] \<Longrightarrow> shard_index ip rl < length (shards rl)"
  by (simp add: shard_index_def)

lemma shard_index_cong:
  "length (shards rl') = length (shards rl) \<Longrightarrow> shard_index ip rl' = shard_index ip rl"
  by (simp add: shard_index_def)

lemma allow_total:
  assumes "shards rl \<noteq> []"
  shows "allow now ip rl =
    (let (ok, b) = bucket_allow (refill_rate_per_sec rl) (capacity rl) now (flat rl ip);
         i = shard_index ip rl
     in Some (ok, rl\<lparr>shards := (shards rl)[i := AList.update ip b (shards rl ! i)]\<rparr>))"
  using assms by (simp add: allow_def flat_def Let_def split_def)

lemma flat_update:
  fixes ip :: string
  assumes "shards rl \<noteq> []"
  defines "i \<equiv> shard_index ip rl"
  shows "flat (rl\<lparr>shards := (shards rl)[i := AList.update ip b (shards rl ! i)]\<rparr>) = (flat rl)(ip \<mapsto> b)"
proof
  fix jp
  let ?rl = "rl\<lparr>shards := (shards rl)[i := AList.update ip b (shards rl ! i)]\<rparr>"
  have idx: "shard_index jp ?rl = shard_index jp rl" by (rule shard_index_cong) simp
  have "shard_index ip rl = i" and "i < length (shards rl)"
    using assms by (simp_all add: shard_index_less)
  then show "flat ?rl jp = ((flat rl)(ip \<mapsto> b)) jp"
    by (cases "shard_index jp rl = i") (auto simp: flat_def idx update_conv')
qed

lemma shards_inv_update:
  fixes ip :: string
  assumes "shards_inv rl"
  defines "i \<equiv> shard_index ip rl"
  shows "shards_inv (rl\<lparr>shards := (shards rl)[i := AList.update ip b (shards rl ! i)]\<rparr>)"
proof -
  let ?rl = "rl\<lparr>shards := (shards rl)[i := AList.update ip b (shards rl ! i)]\<rparr>"
  have idx: "shard_index jp ?rl = shard_index jp rl" for jp by (rule shard_index_cong) simp
  have keys: "fst ` set (AList.update ip b (shards rl ! i)) = insert ip (fst ` set (shards rl ! i))"
    by (simp add: dom_update)
  have i: "i < length (shards rl)" using assms by (simp add: shards_inv_def shard_index_less)
  show ?thesis
    unfolding shards_inv_def idx
  proof (intro conjI allI impI)
    show "shards ?rl \<noteq> []" using assms(1) by (simp add: shards_inv_def)
    fix j assume "j < length (shards ?rl)"
    then have j: "j < length (shards rl)" by simp
    show "distinct (map fst (shards ?rl ! j))"
      using assms(1) j by (cases "j = i") (auto simp: shards_inv_def distinct_update)
    show "\<forall>jp \<in> fst ` set (shards ?rl ! j). shard_index jp rl = j"
      using assms(1) i j keys by (cases "j = i") (auto simp: shards_inv_def i_def)
  qed
qed

lemma shards_inv_new: "0 < n \<Longrightarrow> shards_inv (new_limiter rate cap n)"
  by (simp add: shards_inv_def new_limiter_def)

lemma new_limiter_sel [simp]:
  "refill_rate_per_sec (new_limiter rate cap n) = rate" "capacity (new_limiter rate cap n) = cap"
  by (simp_all add: new_limiter_def)

lemma flat_new: "0 < n \<Longrightarrow> flat (new_limiter rate cap n) = Map.empty"
  by (simp add: flat_def new_limiter_def shard_index_def fun_eq_iff)

lemma allow_refines_flat:
  assumes "shards_inv rl"
  shows "\<exists>ok rl'. allow now ip rl = Some (ok, rl') \<and>
    flat_allow (refill_rate_per_sec rl) (capacity rl) now ip (flat rl) = (ok, flat rl') \<and>
    shards_inv rl' \<and> refill_rate_per_sec rl' = refill_rate_per_sec rl \<and>
    capacity rl' = capacity rl \<and> length (shards rl') = length (shards rl)"
proof -
  have ne: "shards rl \<noteq> []" using assms by (simp add: shards_inv_def)
  obtain ok b where b: "bucket_allow (refill_rate_per_sec rl) (capacity rl) now (flat rl ip) = (ok, b)"
    by fastforce
  show ?thesis
    using flat_update [OF ne, of ip b] shards_inv_update [OF assms, of ip b]
    by (simp add: allow_total [OF ne] b flat_allow_def Let_def)
qed

lemma flat_allow_updates:
  "flat_allow rate cap now ip m = (ok, m') \<Longrightarrow>
   ok = fst (bucket_allow rate cap now (m ip)) \<and> m' = m(ip \<mapsto> snd (bucket_allow rate cap now (m ip)))"
  by (simp add: flat_allow_def Let_def split_def)

section \<open>Reaping\<close>

lemma reap_shard_filter:
  "reap_shard now thr es =
     (filter (\<lambda>e. \<not> idle_at now thr (snd e)) es, length (filter (\<lambda>e. idle_at now thr (snd e)) es))"
  by (induction es) (auto simp: idle_at_def)

lemma map_of_filter_distinct:
  "distinct (map fst es) \<Longrightarrow>
   map_of (filter (\<lambda>e. P (snd e)) es) k =
     (case map_of es k of None \<Rightarrow> None | Some v \<Rightarrow> if P v then Some v else None)"
proof (induction es)
  case (Cons e es)
  then show ?case
    by (cases e) (auto split: option.splits simp: map_of_eq_None_iff)
qed simp

lemma reap_idle_shards:
  "shards (snd (reap_idle now thr rl)) =
     map (filter (\<lambda>e. \<not> idle_at now thr (snd e))) (shards rl)"
  by (simp add: reap_idle_def Let_def reap_shard_filter)

lemma reap_idle_frame [simp]:
  "refill_rate_per_sec (snd (reap_idle now thr rl)) = refill_rate_per_sec rl"
  "capacity (snd (reap_idle now thr rl)) = capacity rl"
  by (simp_all add: reap_idle_def Let_def)

lemma flat_reap_idle:
  assumes "shards_inv rl"
  shows "flat (snd (reap_idle now thr rl)) ip =
    (case flat rl ip of None \<Rightarrow> None | Some b \<Rightarrow> if idle_at now thr b then None else Some b)"
proof -
  have idx: "shard_index ip (snd (reap_idle now thr rl)) = shard_index ip rl"
    by (rule shard_index_cong) (simp add: reap_idle_shards)
  have i: "shard_index ip rl < length (shards rl)"
    using assms by (simp add: shards_inv_def shard_index_less)
  then have "distinct (map fst (shards rl ! shard_index ip rl))"
    using assms by (simp add: shards_inv_def)
  then show ?thesis
    using i map_of_filter_distinct [of "shards rl ! shard_index ip rl" "\<lambda>b. \<not> idle_at now thr b" ip]
    by (auto simp: flat_def idx reap_idle_shards split: option.splits)
qed

lemma shards_inv_reap: "shards_inv rl \<Longrightarrow> shards_inv (snd (reap_idle now thr rl))"
proof -
  assume inv: "shards_inv rl"
  have idx: "shard_index ip (snd (reap_idle now thr rl)) = shard_index ip rl" for ip
    by (rule shard_index_cong) (simp add: reap_idle_shards)
  show ?thesis
    using inv unfolding shards_inv_def idx
    by (auto simp: reap_idle_shards distinct_map_filter)
qed

lemma reap_idle_removed:
  "fst (reap_idle now thr rl) =
     sum_list (map (\<lambda>es. length (filter (\<lambda>e. idle_at now thr (snd e)) es)) (shards rl))"
  by (simp add: reap_idle_def Let_def reap_shard_filter comp_def)

lemma reap_idle_counts:
  "fst (reap_idle now thr rl) + total_tracked_clients (snd (reap_idle now thr rl)) =
   total_tracked_clients rl"
  unfolding reap_idle_removed total_tracked_clients_def reap_idle_shards map_map sum_list_addf [symmetric]
  by (rule arg_cong [of _ _ sum_list]) (simp add: sum_length_filter_compl)

lemma shard_only:
  assumes "shards_inv rl" and "i < length (shards rl)" and "ip \<in> fst ` set (shards rl ! i)"
  shows "shard_index ip rl = i"
  using assms(1) [unfolded shards_inv_def, THEN conjunct2, rule_format, OF assms(2), THEN conjunct2,
      rule_format, OF assms(3)] .

lemma dom_flat:
  assumes "shards_inv rl"
  shows "dom (flat rl) = (\<Union>i < length (shards rl). fst ` set (shards rl ! i))"
proof -
  have here: "ip \<in> dom (flat rl) \<longleftrightarrow> ip \<in> fst ` set (shards rl ! shard_index ip rl)" for ip
    unfolding flat_def domIff map_of_eq_None_iff by simp
  have less: "shard_index ip rl < length (shards rl)" for ip
    using assms by (simp add: shards_inv_def shard_index_less)
  show ?thesis
  proof (rule set_eqI)
    fix ip
    show "ip \<in> dom (flat rl) \<longleftrightarrow> ip \<in> (\<Union>i < length (shards rl). fst ` set (shards rl ! i))"
    proof
      assume "ip \<in> dom (flat rl)"
      then show "ip \<in> (\<Union>i < length (shards rl). fst ` set (shards rl ! i))"
        using here less by blast
    next
      assume "ip \<in> (\<Union>i < length (shards rl). fst ` set (shards rl ! i))"
      then obtain i where i: "i < length (shards rl)" "ip \<in> fst ` set (shards rl ! i)" by blast
      then show "ip \<in> dom (flat rl)" using shard_only [OF assms i] here [of ip] by simp
    qed
  qed
qed

lemma total_tracked_is_card:
  assumes "shards_inv rl"
  shows "total_tracked_clients rl = card (dom (flat rl))"
proof -
  have "card (dom (flat rl)) = (\<Sum>i < length (shards rl). card (fst ` set (shards rl ! i)))"
    unfolding dom_flat [OF assms]
  proof (rule card_UN_disjoint)
    show "\<forall>i \<in> {..<length (shards rl)}. \<forall>j \<in> {..<length (shards rl)}. i \<noteq> j \<longrightarrow>
      fst ` set (shards rl ! i) \<inter> fst ` set (shards rl ! j) = {}"
      using shard_only [OF assms] by (metis disjoint_iff lessThan_iff)
  qed auto
  also have "\<dots> = (\<Sum>i < length (shards rl). length (shards rl ! i))"
  proof (rule sum.cong)
    fix i assume "i \<in> {..<length (shards rl)}"
    then have "distinct (map fst (shards rl ! i))" using assms by (simp add: shards_inv_def)
    then show "card (fst ` set (shards rl ! i)) = length (shards rl ! i)"
      by (metis distinct_card length_map set_map)
  qed simp
  finally show ?thesis
    by (simp add: total_tracked_clients_def sum_list_sum_nth atLeast0LessThan)
qed

section \<open>Token arithmetic\<close>

text \<open>
  What a bucket does, over any rounding to nearest: the client is the refill expression of
  \<^verbatim>\<open>allow\<close>, with \<open>x\<close> the tokens credited for the elapsed time.
\<close>

locale token_bucket = nearest_rounding +
  fixes cap :: rat
  assumes cap_format: "format cap" and zero_format: "format 0" and cap_nonneg: "0 \<le> cap"
begin

lemma refill_bounds: "0 \<le> t \<Longrightarrow> 0 \<le> x \<Longrightarrow> 0 \<le> min cap (round (t + x)) \<and> min cap (round (t + x)) \<le> cap"
  using round_ge [OF zero_format, of "t + x"] cap_nonneg by simp

lemma refill_format: "format (min cap (round (t + x)))"
  by (simp add: min_def cap_format round_format)

lemma refill_keeps: "format t \<Longrightarrow> t \<le> cap \<Longrightarrow> 0 \<le> x \<Longrightarrow> t \<le> min cap (round (t + x))"
  using round_ge [of t "t + x"] by simp

lemma refill_full: "0 \<le> t \<Longrightarrow> cap \<le> x \<Longrightarrow> min cap (round (t + x)) = cap"
  using round_ge [OF cap_format, of "t + x"] by simp

lemma refill_zero: "format t \<Longrightarrow> t \<le> cap \<Longrightarrow> min cap (round (t + 0)) = t"
  by (simp add: exact)

lemma refill_overshoot:
  assumes "0 \<le> t" and "0 \<le> x"
    and err: "\<And>y. \<bar>y\<bar> \<le> cap \<Longrightarrow> \<bar>round y - y\<bar> \<le> d" and "0 \<le> d"
  shows "min cap (round (t + x)) \<le> t + x + d"
proof (cases "t + x \<le> cap")
  case True
  then have "\<bar>round (t + x) - (t + x)\<bar> \<le> d" using assms by (intro err) simp
  then show ?thesis by linarith
qed (use assms(4) in simp)

end

lemma token_bucket_double: "is_double cap \<Longrightarrow> 0 \<le> cap \<Longrightarrow> token_bucket rnd is_double cap"
  by unfold_locales simp_all

text \<open>The capacity the proxy is started with.\<close>

interpretation main_bucket: token_bucket rnd is_double 20
  by (rule token_bucket_double) (simp_all add: is_double_numeral)

lemma elapsed_sec_mono: "c \<le> d \<Longrightarrow> elapsed_sec c \<le> elapsed_sec d"
  unfolding elapsed_sec_def by (intro dbl.mono divide_right_mono) simp_all

lemma elapsed_sec_0 [simp]: "elapsed_sec 0 = 0"
  by (simp add: elapsed_sec_def dbl.exact)

lemma elapsed_sec_nonneg: "0 \<le> d \<Longrightarrow> 0 \<le> elapsed_sec d"
  using elapsed_sec_mono [of 0 d] by simp

lemma credit_mono: "0 \<le> rate \<Longrightarrow> c \<le> d \<Longrightarrow> credit rate c \<le> credit rate d"
  unfolding credit_def by (intro dbl.mono mult_right_mono elapsed_sec_mono)

lemma credit_0 [simp]: "credit rate 0 = 0"
  by (simp add: credit_def dbl.exact)

lemma credit_nonneg: "0 \<le> rate \<Longrightarrow> 0 \<le> d \<Longrightarrow> 0 \<le> credit rate d"
  using credit_mono [of rate 0 d] by simp

text \<open>The bucket as it stands after the refill and before a token is taken.\<close>

definition refilled :: "rat \<Rightarrow> rat \<Rightarrow> nanos \<Rightarrow> bucket option \<Rightarrow> rat" where
  "refilled rate cap now entry =
     (case entry of None \<Rightarrow> cap | Some b \<Rightarrow> min cap (rnd (tokens b + credit rate (now - last_refill b))))"

lemma bucket_allow_refilled:
  "bucket_allow rate cap now entry =
     (if refilled rate cap now entry \<ge> 1
      then (True, \<lparr>tokens = rnd (refilled rate cap now entry - 1), last_refill = now\<rparr>)
      else (False, \<lparr>tokens = refilled rate cap now entry, last_refill = now\<rparr>))"
  by (cases entry) (simp_all add: bucket_allow_def refilled_def Let_def)

text \<open>A well-formed entry read at a time not before its last refill.\<close>

definition entry_ok :: "rat \<Rightarrow> nanos \<Rightarrow> bucket option \<Rightarrow> bool" where
  "entry_ok cap now entry \<longleftrightarrow>
     (case entry of None \<Rightarrow> True | Some b \<Rightarrow> bucket_ok cap b \<and> last_refill b \<le> now)"

lemma refilled_ok:
  assumes "is_double cap" and "0 \<le> cap" and "0 \<le> rate" and "entry_ok cap now entry"
  shows "is_double (refilled rate cap now entry) \<and> 0 \<le> refilled rate cap now entry \<and>
    refilled rate cap now entry \<le> cap"
  using assms token_bucket.refill_bounds [OF token_bucket_double [OF assms(1,2)]]
    token_bucket.refill_format [OF token_bucket_double [OF assms(1,2)]] credit_nonneg [OF assms(3)]
  by (auto simp: refilled_def entry_ok_def bucket_ok_def split: option.splits)

lemma bucket_allow_ok:
  assumes "is_double cap" and "0 \<le> cap" and "0 \<le> rate" and "entry_ok cap now entry"
  shows "bucket_ok cap (snd (bucket_allow rate cap now entry)) \<and>
    last_refill (snd (bucket_allow rate cap now entry)) = now"
  using refilled_ok [OF assms] dbl.round_ge [of 0 "refilled rate cap now entry - 1"]
    dbl.round_le [OF assms(1), of "refilled rate cap now entry - 1"]
  by (auto simp: bucket_allow_refilled bucket_ok_def is_double_rnd)

lemma allow_limiter_ok:
  assumes "is_double (capacity rl)" and "0 \<le> capacity rl" and "0 \<le> refill_rate_per_sec rl"
    and "limiter_ok rl" and "\<forall>jp b. flat rl jp = Some b \<longrightarrow> last_refill b \<le> now"
    and "allow now ip rl = Some (ok, rl')"
  shows "limiter_ok rl' \<and> (\<forall>jp b. flat rl' jp = Some b \<longrightarrow> last_refill b \<le> now)"
proof -
  have inv: "shards_inv rl" using assms(4) by (simp add: limiter_ok_def)
  obtain rl'': "shards_inv rl'" "capacity rl' = capacity rl"
    "flat_allow (refill_rate_per_sec rl) (capacity rl) now ip (flat rl) = (ok, flat rl')"
    using allow_refines_flat [OF inv, of now ip] assms(6) by auto
  have "entry_ok (capacity rl) now (flat rl ip)"
    using assms(4,5) by (auto simp: entry_ok_def limiter_ok_def split: option.splits)
  from bucket_allow_ok [OF assms(1-3) this]
  show ?thesis
    using rl''(1,2) flat_allow_updates [OF rl''(3)] assms(4,5)
    by (auto simp: limiter_ok_def split: if_splits)
qed

lemma allow_on:
  assumes "shards_inv rl"
  shows "\<exists>rl'. allow now ip rl = Some (fst (bucket_allow (refill_rate_per_sec rl) (capacity rl) now (flat rl ip)), rl') \<and>
    shards_inv rl' \<and> refill_rate_per_sec rl' = refill_rate_per_sec rl \<and> capacity rl' = capacity rl \<and>
    flat rl' = (flat rl)(ip \<mapsto> snd (bucket_allow (refill_rate_per_sec rl) (capacity rl) now (flat rl ip)))"
  using allow_refines_flat [OF assms, of now ip] flat_allow_updates by fastforce

section \<open>Runs of one client\<close>

fun bucket_run :: "rat \<Rightarrow> rat \<Rightarrow> nanos list \<Rightarrow> bucket option \<Rightarrow> bool list \<times> bucket option" where
  "bucket_run rate cap [] entry = ([], entry)"
| "bucket_run rate cap (t # ts) entry =
     (let (ok, b) = bucket_allow rate cap t entry;
          (oks, entry') = bucket_run rate cap ts (Some b)
      in (ok # oks, entry'))"

definition admitted :: "bool list \<Rightarrow> nat" where
  "admitted oks = length (filter (\<lambda>ok. ok) oks)"

text \<open>The tokens credited between consecutive times.\<close>

fun credits :: "rat \<Rightarrow> nanos \<Rightarrow> nanos list \<Rightarrow> rat" where
  "credits rate t [] = 0"
| "credits rate t (u # us) = credit rate (u - t) + credits rate u us"

lemma admitted_Cons [simp]: "admitted (ok # oks) = of_bool ok + admitted oks"
  by (simp add: admitted_def)

lemma bucket_allow_fresh:
  assumes "is_double cap"
  shows "bucket_allow rate cap now None = bucket_allow rate cap now (Some \<lparr>tokens = cap, last_refill = now\<rparr>)"
  using assms by (simp add: bucket_allow_refilled refilled_def dbl.exact)

lemma burst_run:
  assumes "is_double t" and "0 \<le> t" and "t \<le> cap" and "cap \<le> 2 ^ 53"
  shows "bucket_run rate cap (replicate n now) (Some \<lparr>tokens = t, last_refill = now\<rparr>) =
    (replicate (min n (nat \<lfloor>t\<rfloor>)) True @ replicate (n - nat \<lfloor>t\<rfloor>) False,
     Some \<lparr>tokens = t - of_nat (min n (nat \<lfloor>t\<rfloor>)), last_refill = now\<rparr>)"
  using assms
proof (induction n arbitrary: t)
  case (Suc n)
  have full: "refilled rate cap now (Some \<lparr>tokens = t, last_refill = now\<rparr>) = t"
    using Suc.prems by (simp add: refilled_def dbl.exact)
  show ?case
  proof (cases "1 \<le> t")
    case True
    have t1: "is_double (t - 1)" using True Suc.prems by (intro is_double_minus_one) auto
    have "1 \<le> \<lfloor>t\<rfloor>" using True by (simp add: le_floor_iff)
    moreover have "\<lfloor>t - 1\<rfloor> = \<lfloor>t\<rfloor> - 1" by simp
    ultimately have floor: "nat \<lfloor>t\<rfloor> = Suc (nat \<lfloor>t - 1\<rfloor>)" by linarith
    show ?thesis
      using Suc.IH [OF t1] Suc.prems True
      by (simp add: bucket_allow_refilled full dbl.exact [OF t1] floor split_def)
  next
    case False
    then have "nat \<lfloor>t\<rfloor> = 0" by linarith
    then show ?thesis
      using Suc.IH [OF Suc.prems] False
      by (simp add: bucket_allow_refilled full split_def)
  qed
qed simp

lemma burst_run_fresh:
  assumes "is_double cap" and "0 \<le> cap" and "cap \<le> 2 ^ 53" and "0 < n"
  shows "bucket_run rate cap (replicate n now) None =
    (replicate (min n (nat \<lfloor>cap\<rfloor>)) True @ replicate (n - nat \<lfloor>cap\<rfloor>) False,
     Some \<lparr>tokens = cap - of_nat (min n (nat \<lfloor>cap\<rfloor>)), last_refill = now\<rparr>)"
proof -
  have "bucket_run rate cap (replicate n now) None =
      bucket_run rate cap (replicate n now) (Some \<lparr>tokens = cap, last_refill = now\<rparr>)"
    using assms(4) by (cases n) (simp_all add: bucket_allow_fresh [OF assms(1)])
  then show ?thesis using burst_run [OF assms(1,2) order.refl assms(3), of rate n now] by simp
qed

lemma admitted_run:
  assumes "is_double cap" and "1 \<le> cap" and "cap \<le> 2 ^ 53" and "0 \<le> rate"
    and "bucket_ok cap b" and "sorted (last_refill b # ts)"
  shows "of_nat (admitted (fst (bucket_run rate cap ts (Some b)))) \<le>
    tokens b + credits rate (last_refill b) ts + of_nat (length ts) * (cap / 2 ^ 53)"
  using assms(5,6)
proof (induction ts arbitrary: b)
  case Nil
  then show ?case by (simp add: admitted_def bucket_ok_def)
next
  case (Cons t ts)
  have ok: "entry_ok cap t (Some b)" using Cons.prems by (simp add: entry_ok_def)
  let ?r = "refilled rate cap t (Some b)"
  have r: "is_double ?r" "0 \<le> ?r" "?r \<le> cap"
    using refilled_ok [OF assms(1) _ assms(4) ok] assms(2) by auto
  have cap0: "0 \<le> cap" using assms(2) by simp
  have "0 \<le> tokens b" "0 \<le> credit rate (t - last_refill b)"
    using Cons.prems assms(4) by (simp_all add: bucket_ok_def credit_nonneg)
  then have over: "?r \<le> tokens b + credit rate (t - last_refill b) + cap / 2 ^ 53"
    unfolding refilled_def option.case
    using token_bucket.refill_overshoot [OF token_bucket_double [OF assms(1) cap0]]
      rnd_error_below [OF _ assms(2)] cap0 by simp
  let ?b = "snd (bucket_allow rate cap t (Some b))"
  have b: "bucket_ok cap ?b" "last_refill ?b = t"
    using bucket_allow_ok [OF assms(1) _ assms(4) ok] assms(2) by auto
  have step: "of_bool (fst (bucket_allow rate cap t (Some b))) + tokens ?b = ?r"
    using r assms(3) by (simp add: bucket_allow_refilled rnd_minus_one)
  have "of_nat (admitted (fst (bucket_run rate cap ts (Some ?b)))) \<le>
      tokens ?b + credits rate t ts + of_nat (length ts) * (cap / 2 ^ 53)"
    using Cons.IH [OF b(1)] b(2) Cons.prems by simp
  then show ?case using step over by (simp add: split_def Let_def field_simps)
qed

lemma admitted_fresh:
  assumes "is_double cap" and "1 \<le> cap" and "cap \<le> 2 ^ 53" and "0 \<le> rate" and "sorted (t # ts)"
  shows "of_nat (admitted (fst (bucket_run rate cap (t # ts) None))) \<le>
    cap + credits rate t ts + of_nat (length ts + 1) * (cap / 2 ^ 53)"
proof -
  let ?full = "\<lparr>tokens = cap, last_refill = t\<rparr>"
  have "bucket_run rate cap (t # ts) None = bucket_run rate cap (t # ts) (Some ?full)"
    by (simp add: bucket_allow_fresh [OF assms(1)])
  moreover have "bucket_ok cap ?full" using assms(1,2) by (simp add: bucket_ok_def)
  ultimately show ?thesis using admitted_run [OF assms(1-4), of ?full "t # ts"] assms(5) by simp
qed

section \<open>Runs of the whole limiter\<close>

fun serve :: "(nanos \<times> string) list \<Rightarrow> rate_limiter \<Rightarrow> (bool list \<times> rate_limiter) option" where
  "serve [] rl = Some ([], rl)"
| "serve ((t, ip) # reqs) rl =
     (case allow t ip rl of
        None \<Rightarrow> None
      | Some (ok, rl1) \<Rightarrow>
          (case serve reqs rl1 of None \<Rightarrow> None | Some (oks, rl2) \<Rightarrow> Some (ok # oks, rl2)))"

text \<open>When a client's requests arrive, and what they are answered.\<close>

definition times_of :: "string \<Rightarrow> (nanos \<times> string) list \<Rightarrow> nanos list" where
  "times_of ip reqs = map fst (filter (\<lambda>r. snd r = ip) reqs)"

definition answers_to :: "string \<Rightarrow> (nanos \<times> string) list \<Rightarrow> bool list \<Rightarrow> bool list" where
  "answers_to ip reqs oks = map snd (filter (\<lambda>p. snd (fst p) = ip) (zip reqs oks))"

text \<open>Clients are isolated: what one gets is what its own bucket gives on its own requests.\<close>

lemma serve_client:
  assumes "shards_inv rl"
  shows "\<exists>oks rl'. serve reqs rl = Some (oks, rl') \<and> shards_inv rl' \<and> length oks = length reqs \<and>
    refill_rate_per_sec rl' = refill_rate_per_sec rl \<and> capacity rl' = capacity rl \<and>
    (\<forall>ip. answers_to ip reqs oks =
        fst (bucket_run (refill_rate_per_sec rl) (capacity rl) (times_of ip reqs) (flat rl ip)) \<and>
      flat rl' ip = snd (bucket_run (refill_rate_per_sec rl) (capacity rl) (times_of ip reqs) (flat rl ip)))"
  using assms
proof (induction reqs arbitrary: rl)
  case Nil
  then show ?case by (simp add: answers_to_def times_of_def)
next
  case (Cons r reqs)
  obtain t jp where r: "r = (t, jp)" by fastforce
  obtain ok rl1 where a: "allow t jp rl = Some (ok, rl1)"
    "flat_allow (refill_rate_per_sec rl) (capacity rl) t jp (flat rl) = (ok, flat rl1)"
    "shards_inv rl1" "refill_rate_per_sec rl1 = refill_rate_per_sec rl" "capacity rl1 = capacity rl"
    using allow_refines_flat [OF Cons.prems, of t jp] by blast
  note u = flat_allow_updates [OF a(2)]
  from Cons.IH [OF a(3)] obtain oks rl' where "serve reqs rl1 = Some (oks, rl')" "shards_inv rl'"
    "length oks = length reqs" "refill_rate_per_sec rl' = refill_rate_per_sec rl" "capacity rl' = capacity rl"
    "\<forall>ip. answers_to ip reqs oks =
        fst (bucket_run (refill_rate_per_sec rl) (capacity rl) (times_of ip reqs) (flat rl1 ip)) \<and>
      flat rl' ip = snd (bucket_run (refill_rate_per_sec rl) (capacity rl) (times_of ip reqs) (flat rl1 ip))"
    using a(4,5) by auto
  then show ?case
    using a(1) u r by (simp add: answers_to_def times_of_def split_def Let_def)
qed

lemma answers_to_replicate:
  "length oks = n \<Longrightarrow> answers_to ip (replicate n (t, ip)) oks = oks"
  by (simp add: answers_to_def zip_replicate1 comp_def)

lemma serve_one_client:
  assumes "shards_inv rl"
  shows "\<exists>rl'. serve (replicate n (t, ip)) rl =
      Some (fst (bucket_run (refill_rate_per_sec rl) (capacity rl) (replicate n t) (flat rl ip)), rl') \<and>
    shards_inv rl' \<and> refill_rate_per_sec rl' = refill_rate_per_sec rl \<and> capacity rl' = capacity rl \<and>
    flat rl' ip = snd (bucket_run (refill_rate_per_sec rl) (capacity rl) (replicate n t) (flat rl ip))"
proof -
  have "times_of ip (replicate n (t, ip)) = replicate n t" by (simp add: times_of_def)
  moreover obtain oks rl' where "serve (replicate n (t, ip)) rl = Some (oks, rl')" "length oks = n"
    "shards_inv rl'" "refill_rate_per_sec rl' = refill_rate_per_sec rl" "capacity rl' = capacity rl"
    "answers_to ip (replicate n (t, ip)) oks =
      fst (bucket_run (refill_rate_per_sec rl) (capacity rl) (times_of ip (replicate n (t, ip))) (flat rl ip))"
    "flat rl' ip =
      snd (bucket_run (refill_rate_per_sec rl) (capacity rl) (times_of ip (replicate n (t, ip))) (flat rl ip))"
    using serve_client [OF assms, of "replicate n (t, ip)"] by auto
  ultimately show ?thesis using answers_to_replicate [of oks n ip t] by simp
qed

text \<open>Two maps of buckets no request from time \<open>now\<close> on can tell apart.\<close>

definition same_from :: "rat \<Rightarrow> rat \<Rightarrow> nanos \<Rightarrow> (string \<rightharpoonup> bucket) \<Rightarrow> (string \<rightharpoonup> bucket) \<Rightarrow> bool" where
  "same_from rate cap now m m' \<longleftrightarrow>
     (\<forall>ip t. now \<le> t \<longrightarrow> refilled rate cap t (m ip) = refilled rate cap t (m' ip))"

lemma same_from_step:
  assumes "same_from rate cap now m m'" and "now \<le> t"
    and "flat_allow rate cap t ip m = (ok, n)" and "flat_allow rate cap t ip m' = (ok', n')"
  shows "ok = ok' \<and> same_from rate cap t n n'"
proof -
  have "bucket_allow rate cap t (m ip) = bucket_allow rate cap t (m' ip)"
    using assms(1,2) by (simp add: bucket_allow_refilled same_from_def)
  then show ?thesis
    using flat_allow_updates [OF assms(3)] flat_allow_updates [OF assms(4)] assms(1,2)
    by (simp add: same_from_def)
qed

lemma serve_same_from:
  assumes "shards_inv rl" and "shards_inv rl'"
    and "refill_rate_per_sec rl' = refill_rate_per_sec rl" and "capacity rl' = capacity rl"
    and "same_from (refill_rate_per_sec rl) (capacity rl) now (flat rl) (flat rl')"
    and "sorted (now # map fst reqs)"
  shows "map_option fst (serve reqs rl) = map_option fst (serve reqs rl') \<and> serve reqs rl \<noteq> None"
  using assms
proof (induction reqs arbitrary: rl rl' now)
  case (Cons r reqs)
  obtain t ip where r: "r = (t, ip)" by fastforce
  obtain ok rl1 where a: "allow t ip rl = Some (ok, rl1)"
    "flat_allow (refill_rate_per_sec rl) (capacity rl) t ip (flat rl) = (ok, flat rl1)"
    "shards_inv rl1" "refill_rate_per_sec rl1 = refill_rate_per_sec rl" "capacity rl1 = capacity rl"
    using allow_refines_flat [OF Cons.prems(1), of t ip] by blast
  obtain ok' rl1' where b: "allow t ip rl' = Some (ok', rl1')"
    "flat_allow (refill_rate_per_sec rl) (capacity rl) t ip (flat rl') = (ok', flat rl1')"
    "shards_inv rl1'" "refill_rate_per_sec rl1' = refill_rate_per_sec rl" "capacity rl1' = capacity rl"
    using allow_refines_flat [OF Cons.prems(2), of t ip] Cons.prems(3,4) by auto
  have t: "now \<le> t" "sorted (t # map fst reqs)" using Cons.prems(6) r by auto
  have s: "ok = ok'" "same_from (refill_rate_per_sec rl) (capacity rl) t (flat rl1) (flat rl1')"
    using same_from_step [OF Cons.prems(5) t(1) a(2) b(2)] by auto
  have "map_option fst (serve reqs rl1) = map_option fst (serve reqs rl1') \<and> serve reqs rl1 \<noteq> None"
    using Cons.IH [OF a(3) b(3) _ _ _ t(2)] a(4,5) b(4,5) s(2) by simp
  then obtain oks x y where "serve reqs rl1 = Some (oks, x)" "serve reqs rl1' = Some (oks, y)"
    by (auto simp: map_option_case split: option.splits)
  then show ?case using a(1) b(1) s(1) r by simp
qed simp

lemma refilled_after_idle:
  assumes "is_double cap" and "0 \<le> rate" and "bucket_ok cap b" and "cap \<le> credit rate thr"
    and "thr \<le> t - last_refill b"
  shows "refilled rate cap t (Some b) = cap"
proof -
  have "0 \<le> tokens b" "0 \<le> cap" using assms(3) by (auto simp: bucket_ok_def)
  moreover have "cap \<le> credit rate (t - last_refill b)"
    using assms(4) credit_mono [OF assms(2,5)] by simp
  ultimately show ?thesis
    using token_bucket.refill_full [OF token_bucket_double [OF assms(1)]] by (simp add: refilled_def)
qed

lemma reap_same_from:
  assumes "is_double (capacity rl)" and "0 \<le> refill_rate_per_sec rl" and "limiter_ok rl"
    and "capacity rl \<le> credit (refill_rate_per_sec rl) thr"
  shows "same_from (refill_rate_per_sec rl) (capacity rl) now (flat rl) (flat (snd (reap_idle now thr rl)))"
  unfolding same_from_def
proof (intro allI impI)
  fix ip t assume t: "now \<le> t"
  have inv: "shards_inv rl" using assms(3) by (simp add: limiter_ok_def)
  show "refilled (refill_rate_per_sec rl) (capacity rl) t (flat rl ip) =
    refilled (refill_rate_per_sec rl) (capacity rl) t (flat (snd (reap_idle now thr rl)) ip)"
  proof (cases "flat rl ip")
    case (Some b)
    have ok: "bucket_ok (capacity rl) b" using assms(3) Some by (auto simp: limiter_ok_def)
    show ?thesis
    proof (cases "idle_at now thr b")
      case True
      then have "thr \<le> t - last_refill b" using t by (simp add: idle_at_def)
      from refilled_after_idle [OF assms(1,2) ok assms(4) this]
      show ?thesis
        using True Some by (simp add: flat_reap_idle [OF inv]) (simp add: refilled_def)
    qed (use Some in \<open>simp add: flat_reap_idle [OF inv]\<close>)
  qed (simp add: flat_reap_idle [OF inv])
qed

section \<open>Properties\<close>

text \<open>C29: With at least one shard, \<^verbatim>\<open>allow\<close> always returns, gives the answer of a single map of
  buckets, and changes the bucket of the requesting client only: sharding is unobservable.\<close>

theorem allow_implements_flat:
  assumes "shards_inv rl"
  shows "\<exists>ok rl'. allow now ip rl = Some (ok, rl') \<and> shards_inv rl' \<and>
    flat_allow (refill_rate_per_sec rl) (capacity rl) now ip (flat rl) = (ok, flat rl') \<and>
    (\<forall>jp. jp \<noteq> ip \<longrightarrow> flat rl' jp = flat rl jp)"
proof -
  obtain ok rl' where r: "allow now ip rl = Some (ok, rl')" "shards_inv rl'"
    "flat_allow (refill_rate_per_sec rl) (capacity rl) now ip (flat rl) = (ok, flat rl')"
    using allow_refines_flat [OF assms] by metis
  moreover have "flat rl' = (flat rl)(ip \<mapsto> snd (bucket_allow (refill_rate_per_sec rl) (capacity rl) now (flat rl ip)))"
    using flat_allow_updates [OF r(3)] by simp
  ultimately show ?thesis by simp
qed

theorem allow_implements_flat_witness:
  "shards_inv (new_limiter 10 20 64) \<and>
   (\<exists>ok rl'. allow 0 ''10.0.0.1'' (new_limiter 10 20 64) = Some (ok, rl') \<and> flat rl' ''10.0.0.2'' = None)"
proof -
  have inv: "shards_inv (new_limiter 10 20 64)" by (simp add: shards_inv_new)
  have other: "flat (new_limiter 10 20 64) ''10.0.0.2'' = None" by (simp add: flat_new)
  have "''10.0.0.2'' \<noteq> ''10.0.0.1''" by simp
  then show ?thesis
    using allow_implements_flat [OF inv, of 0 "''10.0.0.1''"] inv other by metis
qed

text \<open>C30: A burst of a new client is granted exactly \<open>floor capacity\<close> requests, the first ones, for
  every capacity up to \<open>2 ^ 53\<close>, whatever the other clients send in between.\<close>

theorem burst_exact:
  assumes "shards_inv rl" and "is_double (capacity rl)" and "0 \<le> capacity rl" and "capacity rl \<le> 2 ^ 53"
    and "flat rl ip = None" and "times_of ip reqs = replicate n now"
  shows "\<exists>oks rl'. serve reqs rl = Some (oks, rl') \<and>
    answers_to ip reqs oks =
      replicate (min n (nat \<lfloor>capacity rl\<rfloor>)) True @ replicate (n - nat \<lfloor>capacity rl\<rfloor>) False"
proof -
  obtain oks rl' where s: "serve reqs rl = Some (oks, rl')"
    and a: "answers_to ip reqs oks =
      fst (bucket_run (refill_rate_per_sec rl) (capacity rl) (times_of ip reqs) (flat rl ip))"
    using serve_client [OF assms(1), of reqs] by metis
  show ?thesis
    using s a assms(5,6) burst_run_fresh [OF assms(2-4), of n "refill_rate_per_sec rl" now]
    by (cases "n = 0") simp_all
qed

theorem burst_exact_witness:
  "\<exists>oks rl'. serve [(7, ''a''), (7, ''a''), (8, ''b''), (7, ''a'')] (new_limiter 10 2 64) = Some (oks, rl') \<and>
     answers_to ''a'' [(7, ''a''), (7, ''a''), (8, ''b''), (7, ''a'')] oks = [True, True, False]"
proof -
  have inv: "shards_inv (new_limiter 10 2 64)" by (simp add: shards_inv_new)
  have "times_of ''a'' [(7, ''a''), (7, ''a''), (8, ''b''), (7, ''a'')] = replicate 3 7"
    by (simp add: times_of_def numeral_eq_Suc)
  from burst_exact [OF inv _ _ _ _ this] show ?thesis
    by (simp add: new_limiter_sel is_double_numeral flat_new numeral_eq_Suc del: serve.simps)
qed

text \<open>The requests admitted from a new client over any period are at most the capacity plus the
  tokens credited for the time between its requests plus one rounding error of the capacity per
  request.\<close>

lemma admitted_bounded:
  assumes "shards_inv rl" and "is_double (capacity rl)" and "1 \<le> capacity rl" and "capacity rl \<le> 2 ^ 53"
    and "0 \<le> refill_rate_per_sec rl" and "flat rl ip = None"
    and "times_of ip reqs = t # ts" and "sorted (t # ts)"
  shows "\<exists>oks rl'. serve reqs rl = Some (oks, rl') \<and>
    of_nat (admitted (answers_to ip reqs oks)) \<le>
      capacity rl + credits (refill_rate_per_sec rl) t ts + of_nat (length ts + 1) * (capacity rl / 2 ^ 53)"
proof -
  obtain oks rl' where "serve reqs rl = Some (oks, rl')"
    "answers_to ip reqs oks =
      fst (bucket_run (refill_rate_per_sec rl) (capacity rl) (times_of ip reqs) (flat rl ip))"
    using serve_client [OF assms(1), of reqs] by metis
  then show ?thesis using admitted_fresh [OF assms(2-5,8)] assms(6,7) by simp
qed

text \<open>C31: \<^verbatim>\<open>reap_idle\<close> removes exactly the clients whose bucket has been idle for longer than the
  threshold, leaves every other bucket as it is and returns how many it removed;
  \<^verbatim>\<open>total_tracked_clients\<close> counts the clients that are left.\<close>

theorem reap_idle_exact:
  assumes "shards_inv rl"
  shows "flat (snd (reap_idle now thr rl)) =
      (\<lambda>ip. case flat rl ip of None \<Rightarrow> None | Some b \<Rightarrow> if idle_at now thr b then None else Some b) \<and>
    fst (reap_idle now thr rl) = card {ip. \<exists>b. flat rl ip = Some b \<and> idle_at now thr b} \<and>
    total_tracked_clients (snd (reap_idle now thr rl)) =
      card {ip. \<exists>b. flat rl ip = Some b \<and> \<not> idle_at now thr b} \<and>
    shards_inv (snd (reap_idle now thr rl))"
proof -
  let ?idle = "{ip. \<exists>b. flat rl ip = Some b \<and> idle_at now thr b}"
  let ?kept = "{ip. \<exists>b. flat rl ip = Some b \<and> \<not> idle_at now thr b}"
  note inv' = shards_inv_reap [OF assms, of now thr]
  have kept: "dom (flat (snd (reap_idle now thr rl))) = ?kept"
    by (auto simp: flat_reap_idle [OF assms] split: option.splits if_splits)
  have fin: "finite (dom (flat rl))" by (simp add: dom_flat [OF assms])
  have "dom (flat rl) = ?idle \<union> ?kept" "?idle \<inter> ?kept = {}" by auto
  then have "card (dom (flat rl)) = card ?idle + card ?kept"
    using fin card_Un_disjoint [of ?idle ?kept] by simp
  then show ?thesis
    using reap_idle_counts [of now thr rl] total_tracked_is_card [OF assms]
      total_tracked_is_card [OF inv'] kept inv' by (auto simp: flat_reap_idle [OF assms])
qed

theorem reap_idle_exact_witness:
  "fst (reap_idle 400 300 \<lparr>refill_rate_per_sec = 10, capacity = 20,
      shards = [[(''a'', \<lparr>tokens = 1, last_refill = 50\<rparr>), (''b'', \<lparr>tokens = 1, last_refill = 100\<rparr>)]]\<rparr>) = 1 \<and>
   card {ip. \<exists>b. flat \<lparr>refill_rate_per_sec = 10, capacity = 20,
      shards = [[(''a'', \<lparr>tokens = 1, last_refill = 50\<rparr>), (''b'', \<lparr>tokens = 1, last_refill = 100\<rparr>)]]\<rparr> ip = Some b
      \<and> idle_at 400 300 b} = 1"
proof -
  let ?rl = "\<lparr>refill_rate_per_sec = 10, capacity = 20,
    shards = [[(''a'', \<lparr>tokens = 1, last_refill = 50\<rparr>), (''b'', \<lparr>tokens = 1, last_refill = 100\<rparr>)]]\<rparr>"
  have inv: "shards_inv ?rl" by (simp add: shards_inv_def shard_index_def)
  have "fst (reap_idle 400 300 ?rl) = 1" by (simp add: reap_idle_def)
  then show ?thesis using reap_idle_exact [OF inv, of 400 300] by simp
qed

text \<open>C32: When the idle threshold is long enough to fill a bucket, reaping is unobservable: any later
  sequence of requests, from any clients, gets the same answers with and without it.\<close>

theorem reap_unobservable:
  assumes "is_double (capacity rl)" and "0 \<le> refill_rate_per_sec rl" and "limiter_ok rl"
    and "capacity rl \<le> credit (refill_rate_per_sec rl) thr" and "sorted (now # map fst reqs)"
  shows "map_option fst (serve reqs (snd (reap_idle now thr rl))) = map_option fst (serve reqs rl) \<and>
    serve reqs rl \<noteq> None"
proof -
  have inv: "shards_inv rl" using assms(3) by (simp add: limiter_ok_def)
  show ?thesis
    using serve_same_from [OF inv shards_inv_reap [OF inv] _ _ reap_same_from [OF assms(1-4)] assms(5)]
    by simp
qed

theorem reap_unobservable_witness:
  "map_option fst (serve [(900000000000, ''a'')]
     (snd (reap_idle 800000000000 300000000000 \<lparr>refill_rate_per_sec = 10, capacity = 20,
        shards = [[(''a'', \<lparr>tokens = 0, last_refill = 0\<rparr>)]]\<rparr>))) =
   map_option fst (serve [(900000000000, ''a'')] \<lparr>refill_rate_per_sec = 10, capacity = 20,
        shards = [[(''a'', \<lparr>tokens = 0, last_refill = 0\<rparr>)]]\<rparr>)"
proof -
  let ?rl = "\<lparr>refill_rate_per_sec = 10, capacity = 20, shards = [[(''a'', \<lparr>tokens = 0, last_refill = 0\<rparr>)]]\<rparr>"
  have inv: "shards_inv ?rl" by (simp add: shards_inv_def shard_index_def)
  have ok: "limiter_ok ?rl"
    by (auto simp: limiter_ok_def inv flat_def shard_index_def bucket_ok_def split: if_splits)
  have "(20 :: rat) \<le> credit 10 300000000000" by code_simp
  then show ?thesis
    using reap_unobservable [of ?rl 300000000000 800000000000 "[(900000000000, ''a'')]"] ok
    by (simp add: is_double_numeral del: serve.simps)
qed

text \<open>C33: With a refill slower than the threshold allows for (one token in 64 seconds, capacity 20, the
  five minutes of \<^verbatim>\<open>reap_loop\<close>), a client that has spent its burst is handed a full bucket by
  being reaped: after 301 s it is granted 20 more requests, where its own bucket grants only 4.\<close>

theorem short_threshold_refunds:
  "\<exists>rl oks oks'. serve (replicate 20 (0, ''a'')) (new_limiter (1 / 64) 20 64) = Some (replicate 20 True, rl) \<and>
     map_option fst (serve (replicate 20 (301000000000, ''a'')) rl) = Some oks \<and> admitted oks = 4 \<and>
     map_option fst (serve (replicate 20 (301000000000, ''a'')) (snd (reap_idle 301000000000 300000000000 rl))) =
       Some oks' \<and> admitted oks' = 20"
proof -
  let ?spent = "Some \<lparr>tokens = 0, last_refill = 0\<rparr>"
  have inv: "shards_inv (new_limiter (1 / 64) 20 64)" by (simp add: shards_inv_new)
  have first: "bucket_run (1 / 64) 20 (replicate 20 0) None = (replicate 20 True, ?spent)"
    using burst_run_fresh [of 20 20 "1 / 64" 0] by (simp add: is_double_numeral)
  have four: "refilled (1 / 64) 20 301000000000 ?spent = 301 / 64" by code_simp
  have left: "rnd (301 / 64 - 1) = 237 / 64" by code_simp
  then have "is_double (237 / 64)" using is_double_rnd [of "301 / 64 - 1"] by (simp only:)
  moreover have "\<lfloor>237 / 64 :: rat\<rfloor> = 3" by (simp add: floor_eq_iff)
  ultimately have rest: "fst (bucket_run (1 / 64) 20 (replicate 19 301000000000)
      (Some \<lparr>tokens = 237 / 64, last_refill = 301000000000\<rparr>)) = replicate 3 True @ replicate 16 False"
    using burst_run [of "237 / 64" 20 "1 / 64" 19 301000000000] by simp
  have "bucket_allow (1 / 64) 20 301000000000 ?spent =
      (True, \<lparr>tokens = 237 / 64, last_refill = 301000000000\<rparr>)"
    unfolding bucket_allow_refilled four left by simp
  then have "fst (bucket_run (1 / 64) 20 (replicate (Suc 19) 301000000000) ?spent) =
      True # replicate 3 True @ replicate 16 False"
    unfolding replicate_Suc bucket_run.simps using rest by (simp add: split_def)
  then have again: "admitted (fst (bucket_run (1 / 64) 20 (replicate 20 301000000000) ?spent)) = 4"
    by (simp add: admitted_def)
  have fresh: "admitted (fst (bucket_run (1 / 64) 20 (replicate 20 301000000000) None)) = 20"
    using burst_run_fresh [of 20 20 "1 / 64" 301000000000] by (simp add: is_double_numeral admitted_def)
  obtain rl where rl: "serve (replicate 20 (0, ''a'')) (new_limiter (1 / 64) 20 64) = Some (replicate 20 True, rl)"
    "shards_inv rl" "refill_rate_per_sec rl = 1 / 64" "capacity rl = 20" "flat rl ''a'' = ?spent"
    using serve_one_client [OF inv, of 20 0 "''a''"] first by (auto simp: new_limiter_sel flat_new)
  have "flat (snd (reap_idle 301000000000 300000000000 rl)) ''a'' = None"
    by (simp add: flat_reap_idle [OF rl(2)] rl(5) idle_at_def)
  then obtain rl2 where two: "serve (replicate 20 (301000000000, ''a'')) (snd (reap_idle 301000000000 300000000000 rl)) =
      Some (fst (bucket_run (1 / 64) 20 (replicate 20 301000000000) None), rl2)"
    using serve_one_client [OF shards_inv_reap [OF rl(2)], of 20 301000000000 "''a''" 301000000000 300000000000]
      rl(3,4) by auto
  obtain rl1 where one: "serve (replicate 20 (301000000000, ''a'')) rl =
      Some (fst (bucket_run (1 / 64) 20 (replicate 20 301000000000) ?spent), rl1)"
    using serve_one_client [OF rl(2), of 20 301000000000 "''a''"] rl(3-5) by auto
  show ?thesis
    using rl(1) again fresh by (intro exI conjI) (assumption | simp only: one two option.map fst_conv)+
qed

end
