(* ===== verification/Proxy_Main.thy ===== *)
theory Proxy_Main
  imports Session_Views Http_Framing Ring_Certificate Rate_Limiter
begin

text \<open>
  The proxy process, \<^verbatim>\<open>src/main.cpp\<close>: the listener, the rejection of rate-limited clients, the
  reaper of idle buckets, the metrics endpoint, and start-up. \<^verbatim>\<open>listen\<close>, \<^verbatim>\<open>reap_loop\<close> and
  \<^verbatim>\<open>metrics_listen\<close> are cut at their suspension points, one function per iteration; the state
  of the process (\<open>proxy\<close>) holds the shared objects, the coroutines spawned so far and what was
  printed. \<open>proxy_step\<close> interleaves all coroutines on the one thread of the \<^verbatim>\<open>io_context\<close>.

  Asio's answers are arguments: the outcome of accepting, of setting an option, of asking for the
  peer's address, of waiting for a timer, of opening an acceptor. So is \<^verbatim>\<open>std::stod\<close>.
\<close>

section \<open>State\<close>

text \<open>Coroutines that write one response, half-close and drain, as \<^verbatim>\<open>send_429\<close> and
  \<^verbatim>\<open>serve_metrics\<close> do; the latter waits for a first read.\<close>

datatype responder_pc = Awaiting_Request | Sending string | Discarding | Closed

record responder =
  rs_pc :: responder_pc
  rs_sent :: string

record proxy =
  px_shared :: shared
  px_limiter :: rate_limiter
  px_counter :: u64
  px_sessions :: "session list"
  px_rejects :: "responder list"
  px_scrapes :: "responder list"
  px_out :: "log_line list"
  px_ids :: "string list" \<comment> \<open>the correlation ids handed out so far\<close>
  px_listening :: bool
  px_reaping :: bool
  px_serving :: bool

section \<open>Responses\<close>

definition rate_limit_body :: string where
  "rate_limit_body = ''Rate limit exceeded'' @ nl"

definition response_429 :: string where
  "response_429 =
     ''HTTP/1.1 429 Too Many Requests'' @ crlf @
     ''Content-Type: text/plain'' @ crlf @
     ''Content-Length: '' @ to_string (length rate_limit_body) @ crlf @
     ''Connection: close'' @ crlf @
     crlf @ rate_limit_body"

definition response_metrics :: "metrics_registry \<Rightarrow> string" where
  "response_metrics m =
     (let body = render_prometheus m in
      ''HTTP/1.1 200 OK'' @ crlf @
      ''Content-Type: text/plain; version=0.0.4'' @ crlf @
      ''Content-Length: '' @ to_string (length body) @ crlf @
      ''Connection: close'' @ crlf @
      crlf @ body)"

text \<open>The write, the half-close, and the loop that drains the socket.\<close>

definition respond_io :: "io \<Rightarrow> responder \<Rightarrow> responder option" where
  "respond_io ev w =
     (case rs_pc w of
        Sending response \<Rightarrow>
          (case ev of
             Wrote \<Rightarrow> Some (w\<lparr>rs_sent := rs_sent w @ response, rs_pc := Discarding\<rparr>)
           | Write_Failed k \<Rightarrow>
               if k \<le> length response
               then Some (w\<lparr>rs_sent := rs_sent w @ take k response, rs_pc := Discarding\<rparr>) else None
           | _ \<Rightarrow> None)
      | Discarding \<Rightarrow>
          (case ev of
             Read chunk \<Rightarrow> Some (if chunk = [] then w\<lparr>rs_pc := Closed\<rparr> else w)
           | Read_Failed \<Rightarrow> Some (w\<lparr>rs_pc := Closed\<rparr>)
           | _ \<Rightarrow> None)
      | _ \<Rightarrow> None)"

definition send_429 :: responder where
  "send_429 = \<lparr>rs_pc = Sending response_429, rs_sent = []\<rparr>"

text \<open>\<^verbatim>\<open>serve_metrics\<close> ignores how its first read ends and renders the registry of that moment.\<close>

definition serve_metrics :: "metrics_registry \<Rightarrow> io \<Rightarrow> responder \<Rightarrow> responder option" where
  "serve_metrics m ev w =
     (if rs_pc w = Awaiting_Request then
        case ev of
          Read _ \<Rightarrow> Some (w\<lparr>rs_pc := Sending (response_metrics m)\<rparr>)
        | Read_Failed \<Rightarrow> Some (w\<lparr>rs_pc := Sending (response_metrics m)\<rparr>)
        | _ \<Rightarrow> None
      else respond_io ev w)"

section \<open>The loops\<close>

text \<open>What one iteration of \<^verbatim>\<open>listen\<close> meets: the accepted connection, the socket option, the two
  clocks and the peer's address.\<close>

record arrival =
  ar_accept :: "unit result"
  ar_no_delay :: "unit result"
  ar_now_ms :: int
  ar_remote :: "string option"
  ar_now :: nanos

definition default_max_attempts :: int where
  "default_max_attempts = 3"

text \<open>An exception ends the coroutine, and nobody waits for it: the process stops accepting.
  \<open>None\<close> is the division by zero in \<^verbatim>\<open>allow\<close> without shards.\<close>

definition listen_once :: "arrival \<Rightarrow> proxy \<Rightarrow> proxy option" where
  "listen_once a x =
     (case ar_accept a of
        Inl e \<Rightarrow> Some (x\<lparr>px_listening := False\<rparr>)
      | Inr _ \<Rightarrow>
     (case ar_no_delay a of
        Inl e \<Rightarrow> Some (x\<lparr>px_listening := False\<rparr>)
      | Inr _ \<Rightarrow>
     (let (cid, counter) = generate (ar_now_ms a) (px_counter x);
          x = x\<lparr>px_counter := counter, px_ids := px_ids x @ [cid]\<rparr>
      in case ar_remote a of
           None \<Rightarrow> Some (x\<lparr>px_out := px_out x @ [Cerr (''cid='' @ cid @ '' event=remote_endpoint_failed'')]\<rparr>)
         | Some key \<Rightarrow>
             (case allow (ar_now a) key (px_limiter x) of
                None \<Rightarrow> None
              | Some (ok, limiter) \<Rightarrow>
                  let x = x\<lparr>px_limiter := limiter\<rparr> in
                  if \<not> ok then
                    Some (x\<lparr>px_shared := (px_shared x)\<lparr>sh_metrics := record_rate_limited (sh_metrics (px_shared x))\<rparr>,
                            px_out := px_out x @
                              [Cerr (''cid='' @ cid @ '' event=rate_limited client='' @ key)],
                            px_rejects := px_rejects x @ [send_429]\<rparr>)
                  else
                    Some (x\<lparr>px_sessions := px_sessions x @
                              [new_session key cid default_max_attempts]\<rparr>)))))"

definition reap_period_threshold :: nanos where
  "reap_period_threshold = 5 * 60 * 1000000000"

definition reap_once :: "unit result \<Rightarrow> nanos \<Rightarrow> proxy \<Rightarrow> proxy" where
  "reap_once wait now x =
     (case wait of
        Inl e \<Rightarrow> x\<lparr>px_reaping := False\<rparr>
      | Inr _ \<Rightarrow>
          (let (removed, limiter) = reap_idle now reap_period_threshold (px_limiter x);
               x = x\<lparr>px_limiter := limiter\<rparr>
           in if removed > 0 then
                x\<lparr>px_out := px_out x @
                  [Cout (''[rate-limiter] reaped '' @ to_string removed @ '' idle client buckets ('' @
                         to_string (total_tracked_clients limiter) @ '' remaining)'')]\<rparr>
              else x))"

definition metrics_listen_once :: "unit result \<Rightarrow> proxy \<Rightarrow> proxy" where
  "metrics_listen_once accepted x =
     (case accepted of
        Inl e \<Rightarrow> x\<lparr>px_serving := False\<rparr>
      | Inr _ \<Rightarrow> x\<lparr>px_scrapes := px_scrapes x @ [\<lparr>rs_pc = Awaiting_Request, rs_sent = []\<rparr>]\<rparr>)"

section \<open>Interleaving\<close>

text \<open>Every coroutine of the process may be the next one to run.\<close>

inductive proxy_step :: "proxy \<Rightarrow> proxy \<Rightarrow> bool" where
  accept: "px_listening x \<Longrightarrow> listen_once a x = Some x' \<Longrightarrow> proxy_step x x'"
| session: "i < length (px_sessions x) \<Longrightarrow>
    step e (px_shared x, px_sessions x ! i) = Some (sh, s) \<Longrightarrow>
    proxy_step x (x\<lparr>px_shared := sh, px_sessions := (px_sessions x)[i := s]\<rparr>)"
| reject: "i < length (px_rejects x) \<Longrightarrow> respond_io ev (px_rejects x ! i) = Some w \<Longrightarrow>
    proxy_step x (x\<lparr>px_rejects := (px_rejects x)[i := w]\<rparr>)"
| reap: "px_reaping x \<Longrightarrow> proxy_step x (reap_once wait now x)"
| scrape_accept: "px_serving x \<Longrightarrow> proxy_step x (metrics_listen_once accepted x)"
| scrape: "i < length (px_scrapes x) \<Longrightarrow>
    serve_metrics (sh_metrics (px_shared x)) ev (px_scrapes x ! i) = Some w \<Longrightarrow>
    proxy_step x (x\<lparr>px_scrapes := (px_scrapes x)[i := w]\<rparr>)"

inductive_cases proxy_stepE: "proxy_step x x'"

inductive proxy_reachable :: "proxy \<Rightarrow> proxy \<Rightarrow> bool" for x where
  start: "proxy_reachable x x"
| more: "proxy_reachable x y \<Longrightarrow> proxy_step y z \<Longrightarrow> proxy_reachable x z"

text \<open>The same steps as a function of what happens next.\<close>

datatype proxy_event =
    Accepts arrival
  | Session_Runs nat event
  | Reject_Runs nat io
  | Reaps "unit result" nanos
  | Scrape_Accepts "unit result"
  | Scrape_Runs nat io

fun proxy_exec :: "proxy_event \<Rightarrow> proxy \<Rightarrow> proxy option" where
  "proxy_exec (Accepts a) x = (if px_listening x then listen_once a x else None)"
| "proxy_exec (Session_Runs i e) x =
     (if i < length (px_sessions x) then
        map_option (\<lambda>(sh, s). x\<lparr>px_shared := sh, px_sessions := (px_sessions x)[i := s]\<rparr>)
          (step e (px_shared x, px_sessions x ! i))
      else None)"
| "proxy_exec (Reject_Runs i ev) x =
     (if i < length (px_rejects x) then
        map_option (\<lambda>w. x\<lparr>px_rejects := (px_rejects x)[i := w]\<rparr>) (respond_io ev (px_rejects x ! i))
      else None)"
| "proxy_exec (Reaps wait now) x = (if px_reaping x then Some (reap_once wait now x) else None)"
| "proxy_exec (Scrape_Accepts accepted) x = (if px_serving x then Some (metrics_listen_once accepted x) else None)"
| "proxy_exec (Scrape_Runs i ev) x =
     (if i < length (px_scrapes x) then
        map_option (\<lambda>w. x\<lparr>px_scrapes := (px_scrapes x)[i := w]\<rparr>)
          (serve_metrics (sh_metrics (px_shared x)) ev (px_scrapes x ! i))
      else None)"

fun exec_all :: "proxy_event list \<Rightarrow> proxy \<Rightarrow> proxy option" where
  "exec_all [] x = Some x"
| "exec_all (e # es) x = Option.bind (proxy_exec e x) (exec_all es)"

lemma proxy_exec_step: "proxy_exec e x = Some y \<Longrightarrow> proxy_step x y"
  by (cases e) (auto intro: proxy_step.intros split: if_splits)

lemma proxy_step_exec: "proxy_step x y \<Longrightarrow> \<exists>e. proxy_exec e x = Some y"
proof (induction rule: proxy_step.induct)
  case (accept x a x')
  then show ?case by (intro exI [of _ "Accepts a"]) simp
next
  case (session i x e sh s)
  then show ?case by (intro exI [of _ "Session_Runs i e"]) simp
next
  case (reject i x ev w)
  then show ?case by (intro exI [of _ "Reject_Runs i ev"]) simp
next
  case (reap x wait now)
  then show ?case by (intro exI [of _ "Reaps wait now"]) simp
next
  case (scrape_accept x accepted)
  then show ?case by (intro exI [of _ "Scrape_Accepts accepted"]) simp
next
  case (scrape i x ev w)
  then show ?case by (intro exI [of _ "Scrape_Runs i ev"]) simp
qed

lemma exec_all_append: "exec_all (es @ fs) x = Option.bind (exec_all es x) (exec_all fs)"
  by (induction es arbitrary: x) (auto split: bind_splits)

lemma proxy_reachable_exec: "proxy_reachable x y \<longleftrightarrow> (\<exists>es. exec_all es x = Some y)"
proof
  assume "proxy_reachable x y"
  then show "\<exists>es. exec_all es x = Some y"
  proof (induction rule: proxy_reachable.induct)
    case start
    show ?case by (intro exI [of _ "[]"]) simp
  next
    case (more y z)
    then obtain es e where "exec_all es x = Some y" "proxy_exec e y = Some z"
      using proxy_step_exec by blast
    then show ?case by (intro exI [of _ "es @ [e]"]) (simp add: exec_all_append)
  qed
next
  have "proxy_reachable x0 x \<Longrightarrow> exec_all es x = Some y \<Longrightarrow> proxy_reachable x0 y" for es x0 x
    by (induction es arbitrary: x) (auto split: bind_splits dest: proxy_exec_step proxy_reachable.more)
  then show "\<exists>es. exec_all es x = Some y \<Longrightarrow> proxy_reachable x y" using proxy_reachable.start by blast
qed

section \<open>Start-up\<close>

text \<open>\<^verbatim>\<open>std::stoi\<close> in base ten: blanks, a sign, digits; the rest of the string is ignored.\<close>

definition is_space :: "char \<Rightarrow> bool" where
  "is_space c \<longleftrightarrow> c = CHR '' '' \<or> (9 \<le> (of_char c :: nat) \<and> (of_char c :: nat) \<le> 13)"

definition stoi :: "string \<Rightarrow> int result" where
  "stoi s =
     (let s = dropWhile is_space s;
          neg = (take 1 s = ''-'');
          s = (if take 1 s = ''-'' \<or> take 1 s = ''+'' then drop 1 s else s);
          ds = takeWhile is_digit s
      in if ds = [] then Inl Invalid_Argument
         else let z = (if neg then - int (of_digits ds) else int (of_digits ds))
              in if - (2 ^ 31) \<le> z \<and> z < 2 ^ 31 then Inr z else Inl Out_Of_Range)"

definition main_backends :: "BackendConfig list" where
  "main_backends =
     [\<lparr>host = ''127.0.0.1'', port = ''9001'', min_pool_size = 4\<rparr>,
      \<lparr>host = ''127.0.0.1'', port = ''9002'', min_pool_size = 4\<rparr>,
      \<lparr>host = ''127.0.0.1'', port = ''9003'', min_pool_size = 4\<rparr>]"

text \<open>The objects \<^verbatim>\<open>main\<close> builds, before the pool is warmed.\<close>

definition initial_proxy :: "rat \<Rightarrow> rat \<Rightarrow> (nat \<Rightarrow> nanos) \<Rightarrow> proxy" where
  "initial_proxy refill_rate burst_capacity clk =
     \<lparr>px_shared = \<lparr>sh_pool = new_pool main_backends, sh_ring = main_ring (length main_backends),
        sh_breakers = replicate (length main_backends) (new_breaker 5 2 5000),
        sh_metrics = new_metrics (length main_backends), clock = clk, ticks = 0\<rparr>,
      px_limiter = new_limiter refill_rate burst_capacity 64, px_counter = 0,
      px_sessions = [], px_rejects = [], px_scrapes = [], px_out = [], px_ids = [],
      px_listening = False, px_reaping = False, px_serving = False\<rparr>"

text \<open>\<^verbatim>\<open>run\<close> up to the first wait for a connection: warm-up, then the background loops.\<close>

definition run :: "(nat \<Rightarrow> nat \<Rightarrow> net) \<Rightarrow> proxy \<Rightarrow> proxy" where
  "run envs x =
     (let (p, out) = warm_up envs (sh_pool (px_shared x))
      in x\<lparr>px_shared := (px_shared x)\<lparr>sh_pool := p\<rparr>, px_out := px_out x @ out,
           px_reaping := True, px_serving := True, px_listening := True\<rparr>)"

datatype startup =
    Terminated exn              \<comment> \<open>an exception leaves \<^verbatim>\<open>main\<close>\<close>
  | Exit_Failure string         \<comment> \<open>the \<^verbatim>\<open>catch\<close> block: the message printed, exit status 1\<close>
  | Running u16 u16 proxy       \<comment> \<open>the ports, and the process when \<^verbatim>\<open>io_context.run()\<close> begins\<close>

definition hash_ring_line :: "hash_ring \<Rightarrow> string" where
  "hash_ring_line r = ''[aegis] hash ring: '' @ to_string (backend_count r) @ '' backends, '' @
     to_string (vnode_count r) @ '' total vnodes''"

definition env_double :: "(string \<Rightarrow> rat result) \<Rightarrow> rat \<Rightarrow> string option \<Rightarrow> rat result" where
  "env_double stod dflt v = (case v of None \<Rightarrow> Inr dflt | Some s \<Rightarrow> stod s)"

definition main_start ::
  "(string \<Rightarrow> rat result) \<Rightarrow> (u16 \<Rightarrow> unit result) \<Rightarrow> (nat \<Rightarrow> nanos) \<Rightarrow>
   string list \<Rightarrow> string option \<Rightarrow> string option \<Rightarrow> startup" where
  "main_start stod open_acceptor clk args env_rps env_burst =
     (case (case args of [] \<Rightarrow> Inr 8080 | a # _ \<Rightarrow> bind_result (stoi a) (\<lambda>z. Inr (word_of_int z))) of
        Inl e \<Rightarrow> Terminated e
      | Inr listen_port \<Rightarrow>
          (let metrics_port = listen_port + 1
           in case
                bind_result (env_double stod 10 env_rps) (\<lambda>refill_rate.
                bind_result (env_double stod 20 env_burst) (\<lambda>burst_capacity.
                bind_result (open_acceptor listen_port) (\<lambda>_.
                bind_result (open_acceptor metrics_port) (\<lambda>_.
                  Inr (initial_proxy refill_rate burst_capacity clk)))))
              of
                Inl e \<Rightarrow> Exit_Failure (''[aegis] fatal: '' @ exn_what e)
              | Inr x \<Rightarrow> Running listen_port metrics_port
                  (x\<lparr>px_out :=
                     [Cout (hash_ring_line (sh_ring (px_shared x))),
                      Cout (''[aegis] listening on 0.0.0.0:'' @ to_string (unat listen_port)),
                      Cout (''[aegis] metrics on 0.0.0.0:'' @ to_string (unat metrics_port) @
                            '' (GET / for Prometheus text)'')]\<rparr>)))"

text \<open>The process from start to exit. The pool is warmed before anything else runs; the handler of
  \<^verbatim>\<open>SIGINT\<close> and \<^verbatim>\<open>SIGTERM\<close> stops the \<^verbatim>\<open>io_context\<close> at any time, after which no coroutine resumes and
  \<^verbatim>\<open>main\<close> returns 0.\<close>

datatype process =
    Aborted exn
  | Warming proxy
  | Serving proxy
  | Exited int

datatype process_event =
    Warmed "nat \<Rightarrow> nat \<Rightarrow> net"
  | Handles proxy_event
  | Signalled

definition main_process ::
  "(string \<Rightarrow> rat result) \<Rightarrow> (u16 \<Rightarrow> unit result) \<Rightarrow> (nat \<Rightarrow> nanos) \<Rightarrow>
   string list \<Rightarrow> string option \<Rightarrow> string option \<Rightarrow> process" where
  "main_process stod open_acceptor clk args env_rps env_burst =
     (case main_start stod open_acceptor clk args env_rps env_burst of
        Terminated e \<Rightarrow> Aborted e
      | Exit_Failure msg \<Rightarrow> Exited 1
      | Running listen_port metrics_port x \<Rightarrow> Warming x)"

fun process_exec :: "process_event \<Rightarrow> process \<Rightarrow> process option" where
  "process_exec (Warmed envs) (Warming x) = Some (Serving (run envs x))"
| "process_exec (Handles e) (Serving x) = map_option Serving (proxy_exec e x)"
| "process_exec Signalled (Warming x) = Some (Exited 0)"
| "process_exec Signalled (Serving x) = Some (Exited 0)"
| "process_exec _ _ = None"

fun process_all :: "process_event list \<Rightarrow> process \<Rightarrow> process option" where
  "process_all [] p = Some p"
| "process_all (e # es) p = Option.bind (process_exec e p) (process_all es)"

section \<open>The invariant of the process\<close>

text \<open>\<open>p\<close> is the pool after warm-up; the sockets in use are those the sessions hold.\<close>

definition held_sockets :: "session list \<Rightarrow> nat multiset" where
  "held_sockets ss = sum_list (map holds ss)"

definition proxy_inv :: "nat \<Rightarrow> hash_ring \<Rightarrow> connection_pool \<Rightarrow> proxy \<Rightarrow> bool" where
  "proxy_inv n r p x \<longleftrightarrow>
     env_ok n r p (held_sockets (px_sessions x)) (px_shared x) \<and>
     list_all (session_inv n r) (px_sessions x) \<and> shards_inv (px_limiter x)"

text \<open>A sum over all sessions, with one of them taken out.\<close>

lemma sum_list_split:
  fixes f :: "session \<Rightarrow> 'a :: comm_monoid_add"
  shows "i < length ss \<Longrightarrow> \<exists>H. \<forall>s. sum_list (map f (ss[i := s])) = H + f s"
proof (induction ss arbitrary: i)
  case (Cons t ss)
  show ?case
  proof (cases i)
    case 0
    then show ?thesis by (intro exI [of _ "sum_list (map f ss)"]) (simp add: add.commute)
  next
    case (Suc j)
    then obtain H where "\<forall>s. sum_list (map f (ss[j := s])) = H + f s" using Cons by auto
    then show ?thesis using Suc by (intro exI [of _ "f t + H"]) (simp add: add.assoc)
  qed
qed simp

lemma held_sockets_split:
  "i < length ss \<Longrightarrow> \<exists>H. \<forall>s. held_sockets (ss[i := s]) = H + holds s"
  unfolding held_sockets_def by (rule sum_list_split)

lemma session_inv_new: "session_inv n r (new_session key cid k)"
  by (simp add: session_inv_def new_session_def loop_inv_def core_inv_def history_inv_def untouched_def new_buffer_def)

lemma holds_new [simp]: "holds (new_session key cid k) = {#}"
  by (simp add: holds_def new_session_def)

lemma proxy_inv_listen:
  assumes "proxy_inv n r p x" and "listen_once a x = Some x'"
  shows "proxy_inv n r p x'"
proof -
  have inv: "shards_inv (px_limiter x)" using assms(1) by (simp add: proxy_inv_def)
  have "env_ok n r p H (sh\<lparr>sh_metrics := record_rate_limited (sh_metrics sh)\<rparr>)" if "env_ok n r p H sh" for H sh
    using that by (simp add: env_ok_def shared_ok_def metrics_ok_def record_rate_limited_def)
  moreover have "shards_inv l" if "allow t k (px_limiter x) = Some (ok, l)" for t k ok l
    using allow_refines_flat [OF inv, of t k] that by auto
  ultimately show ?thesis
    using assms
    by (auto simp: proxy_inv_def listen_once_def split_def Let_def session_inv_new held_sockets_def
        split: sum.splits option.splits if_splits)
qed

lemma proxy_inv_session:
  assumes "proxy_inv n r p x" and "i < length (px_sessions x)"
    and "step e (px_shared x, px_sessions x ! i) = Some (sh, s)"
  shows "proxy_inv n r p (x\<lparr>px_shared := sh, px_sessions := (px_sessions x)[i := s]\<rparr>)"
proof -
  obtain H where H: "\<And>t. held_sockets ((px_sessions x)[i := t]) = H + holds t"
    using held_sockets_split [OF assms(2)] by blast
  have "held_sockets (px_sessions x) = H + holds (px_sessions x ! i)"
    using H [of "px_sessions x ! i"] by simp
  then have "good n r p H (px_shared x, px_sessions x ! i)"
    using assms(1) by (simp add: good_def proxy_inv_def)
  moreover have "session_inv n r (px_sessions x ! i)"
    using assms(1,2) by (simp add: proxy_inv_def list_all_length)
  ultimately have "good n r p H (sh, s)" "session_inv n r s"
    using step_ok [OF _ _ assms(3)] by simp_all
  then show ?thesis
    using assms(1) H by (auto simp: proxy_inv_def good_def list_all_iff
        dest: set_update_subset_insert [THEN subsetD])
qed

lemma proxy_inv_step:
  assumes "proxy_inv n r p x" and "proxy_step x x'"
  shows "proxy_inv n r p x'"
  using assms(2)
proof cases
  case (accept a)
  then show ?thesis using proxy_inv_listen [OF assms(1)] by blast
next
  case (session i e sh s)
  then show ?thesis using proxy_inv_session [OF assms(1)] by blast
next
  case (reap wait now)
  then show ?thesis
    using assms(1) shards_inv_reap [of "px_limiter x" now reap_period_threshold]
    by (auto simp: proxy_inv_def reap_once_def split_def Let_def split: sum.splits)
qed (use assms(1) in \<open>auto simp: proxy_inv_def metrics_listen_once_def split: sum.splits\<close>)

lemma proxy_inv_reachable:
  assumes "proxy_reachable x y" and "proxy_inv n r p x"
  shows "proxy_inv n r p y"
  using assms by (induction rule: proxy_reachable.induct) (auto intro: proxy_inv_step)

text \<open>The process \<^verbatim>\<open>main\<close> starts.\<close>

abbreviation warmed :: "(nat \<Rightarrow> nat \<Rightarrow> net) \<Rightarrow> connection_pool" where
  "warmed envs \<equiv> fst (warm_up envs (new_pool main_backends))"

lemma warmed_frame:
  "pool_ok (warmed envs)" "length (backends (warmed envs)) = 3" "active_counts (warmed envs) = [0, 0, 0]"
proof -
  have k: "length (backends (new_pool main_backends)) = 3" by (simp add: new_pool_def main_backends_def)
  note w = warm_fold_pool [OF pool_ok_new, of 3 main_backends envs]
  show "pool_ok (warmed envs)" "length (backends (warmed envs)) = 3"
    using w k by (simp_all add: warm_up_def)
  have "active_counts (warmed envs) = active_counts (new_pool main_backends)"
    using w k by (simp add: warm_up_def)
  then show "active_counts (warmed envs) = [0, 0, 0]" by (simp add: new_pool_def main_backends_def)
qed

lemma proxy_inv_start:
  "proxy_inv 3 (main_ring 3) (warmed envs) (run envs ((initial_proxy rate cap clk)\<lparr>px_out := out\<rparr>))"
proof -
  have bal: "pc.balanced (warmed envs) {#}"
    using warmed_frame [of envs] by (simp add: pc.balanced_def less_Suc_eq numeral_3_eq_3)
  have "length main_backends = 3" by (simp add: main_backends_def)
  then show ?thesis
    using warmed_frame [of envs] main_ring_inv [of 3] main_ring_frame [of 3] bal
    by (simp add: proxy_inv_def run_def initial_proxy_def split_def Let_def env_ok_def shared_ok_def
        held_sockets_def shards_inv_new drained_from_def list_all_iff)
qed

text \<open>The states of a process that came through start-up, with any arguments and environment.\<close>

definition deployed :: "(nat \<Rightarrow> nat \<Rightarrow> net) \<Rightarrow> proxy \<Rightarrow> bool" where
  "deployed envs x \<longleftrightarrow>
     (\<exists>stod open_acceptor clk args env_rps env_burst listen_port metrics_port x0.
        main_start stod open_acceptor clk args env_rps env_burst = Running listen_port metrics_port x0 \<and>
        proxy_reachable (run envs x0) x)"

lemma main_start_Running:
  assumes "main_start stod oa clk args env_rps env_burst = Running lp mp x"
  shows "\<exists>rate cap out. x = (initial_proxy rate cap clk)\<lparr>px_out := out\<rparr> \<and> mp = lp + 1"
  using assms
  by (fastforce simp: main_start_def Let_def split: sum.splits list.splits simp: bind_result_eq_Inr)

lemma deployed_inv: "deployed envs x \<Longrightarrow> proxy_inv 3 (main_ring 3) (warmed envs) x"
  unfolding deployed_def using main_start_Running proxy_inv_reachable [OF _ proxy_inv_start] by metis

lemma deployed_session:
  assumes "deployed envs x" and "s \<in> set (px_sessions x)"
  shows "session_inv 3 (main_ring 3) s"
  using deployed_inv [OF assms(1)] assms(2) by (simp add: proxy_inv_def list_all_iff)

lemma deployed_start:
  "main_start stod oa clk args er eb = Running lp mp x0 \<Longrightarrow> deployed envs (run envs x0)"
  unfolding deployed_def using proxy_reachable.start by blast

lemma deployed_more: "deployed envs x \<Longrightarrow> proxy_step x y \<Longrightarrow> deployed envs y"
  unfolding deployed_def by (meson proxy_reachable.more)

text \<open>Invariants of the reachable states of a deployed process.\<close>

lemma deployed_induct [consumes 1, case_names start step]:
  assumes "deployed envs x"
    and "\<And>rate cap clk out. P (run envs ((initial_proxy rate cap clk)\<lparr>px_out := out\<rparr>))"
    and "\<And>y z. deployed envs y \<Longrightarrow> P y \<Longrightarrow> proxy_step y z \<Longrightarrow> P z"
  shows "P x"
proof -
  obtain stod oa clk args er eb lp mp x0 where
    start: "main_start stod oa clk args er eb = Running lp mp x0" and reach: "proxy_reachable (run envs x0) x"
    using assms(1) unfolding deployed_def by blast
  from reach have "deployed envs x \<and> P x"
  proof (induction rule: proxy_reachable.induct)
    case start
    have "deployed envs (run envs x0)" using \<open>main_start _ _ _ _ _ _ = _\<close> by (rule deployed_start)
    then show ?case using assms(2) main_start_Running [OF \<open>main_start _ _ _ _ _ _ = _\<close>] by blast
  next
    case (more y z)
    then show ?case using assms(3) deployed_more by blast
  qed
  then show ?thesis ..
qed

text \<open>A process serves in deployed states only, and exits with 1 when start-up failed and with 0 when it was
  signalled.\<close>

definition lifecycle ::
  "(string \<Rightarrow> rat result) \<Rightarrow> (u16 \<Rightarrow> unit result) \<Rightarrow> (nat \<Rightarrow> nanos) \<Rightarrow>
   string list \<Rightarrow> string option \<Rightarrow> string option \<Rightarrow> process_event list \<Rightarrow> process \<Rightarrow> bool" where
  "lifecycle stod oa clk args rps burst es p \<longleftrightarrow>
     (case p of
        Aborted e \<Rightarrow> main_start stod oa clk args rps burst = Terminated e
      | Warming x \<Rightarrow> \<exists>lp mp. main_start stod oa clk args rps burst = Running lp mp x
      | Serving x \<Rightarrow> \<exists>envs. deployed envs x
      | Exited k \<Rightarrow> k = 1 \<and> (\<exists>msg. main_start stod oa clk args rps burst = Exit_Failure msg) \<or> k = 0 \<and> Signalled \<in> set es)"

lemma lifecycle_exec:
  assumes "lifecycle stod oa clk args rps burst es p" and "process_exec e p = Some q"
  shows "lifecycle stod oa clk args rps burst (es @ [e]) q"
  using assms
proof (induction e p rule: process_exec.induct)
  case (1 envs x)
  then show ?case using deployed_start by (auto simp: lifecycle_def) blast
next
  case (2 e x)
  then show ?case using proxy_exec_step deployed_more by (auto simp: lifecycle_def) blast
qed (auto simp: lifecycle_def)

lemma process_lifecycle:
  "process_all es (main_process stod oa clk args rps burst) = Some p \<Longrightarrow> lifecycle stod oa clk args rps burst es p"
proof -
  have "lifecycle stod oa clk args rps burst fs q \<Longrightarrow> process_all es q = Some p \<Longrightarrow>
      lifecycle stod oa clk args rps burst (fs @ es) p" for fs q
  proof (induction es arbitrary: fs q)
    case (Cons e es)
    then obtain r where r: "process_exec e q = Some r" "process_all es r = Some p" by (auto split: bind_splits)
    from Cons.IH [OF lifecycle_exec [OF Cons.prems(1) r(1)] r(2)] show ?case by simp
  qed simp
  moreover have "lifecycle stod oa clk args rps burst [] (main_process stod oa clk args rps burst)"
    by (auto simp: lifecycle_def main_process_def split: startup.splits)
  ultimately show "process_all es (main_process stod oa clk args rps burst) = Some p \<Longrightarrow>
      lifecycle stod oa clk args rps burst es p" by fastforce
qed

lemma deployed_session_step:
  assumes "deployed envs x" and "px_sessions x = [s]" and "step e (px_shared x, s) = Some (sh', s')"
  shows "deployed envs (x\<lparr>px_shared := sh', px_sessions := [s']\<rparr>)"
  using deployed_more [OF assms(1) proxy_step.session [of 0 x e sh' s']] assms(2,3) by simp

lemma deployed_connects:
  assumes "deployed envs x" and "px_sessions x = [s]" and "connects es (px_shared x, s) = Some (sh', s')"
  shows "deployed envs (x\<lparr>px_shared := sh', px_sessions := [s']\<rparr>)"
  using assms
proof (induction es arbitrary: x s)
  case Nil
  then have "x\<lparr>px_shared := sh', px_sessions := [s']\<rparr> = x" by (cases x) auto
  then show ?case using Nil.prems(1) by (simp only:)
next
  case (Cons env es)
  then obtain sh1 s1 where one: "step (Connected env) (px_shared x, s) = Some (sh1, s1)"
    "connects es (sh1, s1) = Some (sh', s')"
    by (auto split: option.splits)
  from Cons.IH [OF deployed_session_step [OF Cons.prems(1,2) one(1)]] one(2) show ?case by simp
qed

lemma main_ring_owners: "b < 3 \<Longrightarrow> \<exists>k. (k, b) \<in> set (ring (main_ring 3))"
proof -
  assume "b < 3"
  have "b \<in> active_backends (main_ring 3)" "0 < num_vnodes_per_backend (main_ring 3)"
    using \<open>b < 3\<close> main_ring_frame [of 3] by (auto simp: default_vnodes_def)
  then have "map_of (ring (main_ring 3)) (vnode_hash b 0) = Some b"
    using main_ring_inv [of 3] by (simp add: ring_full_def)
  then show ?thesis by (auto dest: map_of_SomeD)
qed

section \<open>Identities\<close>

text \<open>The ids handed out are the successive values of the generator; every session got one of them,
  in order, is as it was created in its key and bounds, and logs under its id.\<close>

definition ids_inv :: "proxy \<Rightarrow> bool" where
  "ids_inv x \<longleftrightarrow>
     (\<exists>ts. px_ids x = generate_all ts 0 \<and> px_counter x = of_nat (length ts)) \<and>
     subseq (map correlation_id (px_sessions x)) (px_ids x) \<and>
     (\<forall>s \<in> set (px_sessions x). traced (client_key s, correlation_id s, default_max_attempts) s)"

lemma traced_new: "traced (key, cid, k) (new_session key cid k)"
  by (simp add: traced_def ident_def new_session_def)

lemma subseq_snoc: "subseq xs ys \<Longrightarrow> subseq (xs @ [z]) (ys @ [z])" "subseq xs ys \<Longrightarrow> subseq xs (ys @ [z])"
  by (simp_all add: list_emb_append_mono list_emb_prefix)

lemma distinct_subseq: "subseq xs ys \<Longrightarrow> distinct ys \<Longrightarrow> distinct xs"
  by (auto simp: subseq_conv_nths intro: distinct_nthsI)

lemma ids_inv_listen:
  assumes "ids_inv x" and "listen_once a x = Some x'"
  shows "ids_inv x'"
proof -
  obtain ts where ts: "px_ids x = generate_all ts 0" "px_counter x = of_nat (length ts)"
    using assms(1) by (auto simp: ids_inv_def)
  let ?g = "generate (ar_now_ms a) (px_counter x)"
  have ids: "px_ids x @ [fst ?g] = generate_all (ts @ [ar_now_ms a]) 0"
    and counter: "snd ?g = of_nat (length (ts @ [ar_now_ms a]))"
    using ts by (simp_all add: generate_all_snoc generate_def)
  have new: "traced (client_key s, correlation_id s, default_max_attempts) s"
    if "s = new_session key cid default_max_attempts" for s key cid
    using traced_new [of key cid default_max_attempts] that by (simp add: new_session_def)
  consider "px_ids x' = px_ids x" "px_counter x' = px_counter x" "px_sessions x' = px_sessions x"
    | "px_ids x' = px_ids x @ [fst ?g]" "px_counter x' = snd ?g" "px_sessions x' = px_sessions x"
    | key where "px_ids x' = px_ids x @ [fst ?g]" "px_counter x' = snd ?g"
        "px_sessions x' = px_sessions x @ [new_session key (fst ?g) default_max_attempts]"
    using assms(2)
    by (auto simp: listen_once_def split_def Let_def split: sum.splits option.splits if_splits)
  then show ?thesis
  proof cases
    case 1
    then show ?thesis using assms(1) by (simp add: ids_inv_def)
  next
    case 2
    then show ?thesis using assms(1) ids counter subseq_snoc(2) unfolding ids_inv_def by metis
  next
    case 3
    have "correlation_id (new_session key (fst ?g) default_max_attempts) = fst ?g"
      by (simp add: new_session_def)
    moreover have "subseq (map correlation_id (px_sessions x) @ [fst ?g]) (px_ids x @ [fst ?g])"
      using assms(1) subseq_snoc(1) by (simp add: ids_inv_def)
    ultimately show ?thesis
      using assms(1) 3 ids counter new unfolding ids_inv_def by (auto simp del: of_nat_Suc) metis
  qed
qed

lemma ids_inv_session:
  assumes "ids_inv x" and "i < length (px_sessions x)"
    and "step e (px_shared x, px_sessions x ! i) = Some (sh, s)" and "\<And>e. pc s \<noteq> Died e"
  shows "ids_inv (x\<lparr>px_shared := sh, px_sessions := (px_sessions x)[i := s]\<rparr>)"
proof -
  let ?t = "px_sessions x ! i"
  have "traced (client_key ?t, correlation_id ?t, default_max_attempts) ?t"
    using assms(1,2) by (auto simp: ids_inv_def)
  then have tr: "traced (client_key ?t, correlation_id ?t, default_max_attempts) s"
    using tr.R_every_step [OF assms(3)] assms(4) by (simp add: keeps_trace_def)
  then have "client_key s = client_key ?t" "correlation_id s = correlation_id ?t"
    by (simp_all add: traced_def ident_def)
  moreover from this have "map correlation_id ((px_sessions x)[i := s]) = map correlation_id (px_sessions x)"
    using assms(2) by (simp add: map_update list_update_same_conv)
  ultimately show ?thesis
    using assms(1) tr by (auto simp: ids_inv_def dest!: set_update_subset_insert [THEN subsetD])
qed

lemma deployed_alive:
  assumes "deployed envs x" and "s \<in> set (px_sessions x)"
  shows "pc s \<noteq> Died e"
  using deployed_session [OF assms] by (auto simp: session_inv_def)

text \<open>Invariants of the shared objects: beside the sessions, only the rejection of a client touches them.\<close>

lemma deployed_shared [consumes 1, case_names start rejected session]:
  assumes "deployed envs x"
    and "\<And>rate cap clk out. P (px_shared (run envs ((initial_proxy rate cap clk)\<lparr>px_out := out\<rparr>)))"
    and "\<And>sh. P sh \<Longrightarrow> P (sh\<lparr>sh_metrics := record_rate_limited (sh_metrics sh)\<rparr>)"
    and "\<And>e sh s sh' s'. P sh \<Longrightarrow> step e (sh, s) = Some (sh', s') \<Longrightarrow> (\<And>x. pc s' \<noteq> Died x) \<Longrightarrow> P sh'"
  shows "P (px_shared x)"
  using assms(1)
proof (induction rule: deployed_induct)
  case (step y z)
  from \<open>proxy_step y z\<close> show ?case
  proof cases
    case (accept a)
    then show ?thesis
      using \<open>P (px_shared y)\<close> assms(3)
      by (auto simp: listen_once_def split_def Let_def split: sum.splits option.splits if_splits)
  next
    case (session i e sh s)
    have "s \<in> set (px_sessions z)" using session(1,2) by (simp add: set_update_memI)
    then have "pc s \<noteq> Died e" for e
      using deployed_alive [OF deployed_more [OF \<open>deployed envs y\<close> \<open>proxy_step y z\<close>]] by blast
    then show ?thesis using assms(4) [OF \<open>P (px_shared y)\<close> session(3)] session(1) by simp
  qed (use \<open>P (px_shared y)\<close> in \<open>auto simp: metrics_listen_once_def reap_once_def split_def Let_def split: sum.splits\<close>)
qed (rule assms(2))

lemma ids_inv_step:
  assumes "deployed envs x" and "ids_inv x" and "proxy_step x x'"
  shows "ids_inv x'"
  using assms(3)
proof cases
  case (accept a)
  then show ?thesis using ids_inv_listen [OF assms(2)] by blast
next
  case (session i e sh s)
  have "s \<in> set (px_sessions x')" using session(1,2) by (simp add: set_update_memI)
  then have "pc s \<noteq> Died e" for e using deployed_alive [OF deployed_more [OF assms(1,3)]] by blast
  then show ?thesis using ids_inv_session [OF assms(2)] session by blast
qed (use assms(2) in \<open>auto simp: ids_inv_def metrics_listen_once_def reap_once_def split_def Let_def
      split: sum.splits\<close>)

lemma deployed_ids:
  assumes "deployed envs x"
  shows "ids_inv x"
  using assms
proof (induction rule: deployed_induct)
  case (start rate cap clk out)
  show ?case
    by (auto simp: ids_inv_def run_def initial_proxy_def split_def Let_def intro!: exI [of _ "[]"])
qed (rule ids_inv_step)

lemma deployed_max_attempts:
  "deployed envs x \<Longrightarrow> s \<in> set (px_sessions x) \<Longrightarrow> max_attempts s = 3"
  using deployed_ids by (auto simp: ids_inv_def traced_def ident_def default_max_attempts_def)

section \<open>The end of a listener\<close>

lemma silent_listener_step:
  assumes "\<not> px_listening x" and "proxy_step x x'"
  shows "\<not> px_listening x' \<and> px_ids x' = px_ids x \<and> length (px_sessions x') = length (px_sessions x)"
  using assms(2,1)
  by cases (auto simp: metrics_listen_once_def reap_once_def split_def Let_def split: sum.splits)

lemma silent_listener:
  assumes "proxy_reachable x y" and "\<not> px_listening x"
  shows "\<not> px_listening y \<and> px_ids y = px_ids x \<and> length (px_sessions y) = length (px_sessions x)"
  using assms
proof (induction rule: proxy_reachable.induct)
  case (more y z)
  then show ?case using silent_listener_step [of y z] by simp
qed simp

section \<open>Sample runs\<close>

text \<open>A network on which every connect succeeds, and one on which every connect is refused.\<close>

definition up_net :: "nat \<Rightarrow> nat \<Rightarrow> net" where
  "up_net i n = \<lparr>async_resolve = \<lambda>h p. Inr [h],
     async_connect = \<lambda>eps. Inr \<lparr>sock_id = 4 * i + n, sock_open = True\<rparr>, set_no_delay = \<lambda>s. Inr ()\<rparr>"

definition down_net :: "nat \<Rightarrow> nat \<Rightarrow> net" where
  "down_net i n = \<lparr>async_resolve = \<lambda>h p. Inr [h],
     async_connect = \<lambda>eps. Inl (System_Error ''Connection refused''), set_no_delay = \<lambda>s. Inr ()\<rparr>"

lemma warmed_free:
  "b < 3 \<Longrightarrow> free_sockets (warmed envs) ! b = warm_successes (new_pool main_backends) b (map (envs b) [0..<4])"
  using warm_fold_pool [OF pool_ok_new, of 3 main_backends envs]
  by (auto simp: warm_up_def new_pool_def main_backends_def less_Suc_eq numeral_3_eq_3)

lemma warmed_up: "b < 3 \<Longrightarrow> free_sockets (warmed up_net) ! b \<noteq> []"
  by (subst warmed_free, assumption) (auto simp: warm_successes_def connect_def up_net_def new_pool_def main_backends_def
      less_Suc_eq numeral_3_eq_3 upt_rec)

lemma warmed_down: "b < 3 \<Longrightarrow> free_sockets (warmed down_net) ! b = []"
  by (subst warmed_free, assumption) (auto simp: warm_successes_def connect_def down_net_def new_pool_def main_backends_def
      less_Suc_eq numeral_3_eq_3 upt_rec)

definition sample_proxy :: proxy where
  "sample_proxy = (case main_start (\<lambda>_. Inl Invalid_Argument) (\<lambda>_. Inr ()) (\<lambda>_. 0) [] None None of
     Running lp mp x \<Rightarrow> x | _ \<Rightarrow> undefined)"

lemma sample_start:
  "main_start (\<lambda>_. Inl Invalid_Argument) (\<lambda>_. Inr ()) (\<lambda>_. 0) [] None None = Running 8080 8081 sample_proxy"
  "\<exists>out. sample_proxy = (initial_proxy 10 20 (\<lambda>_. 0))\<lparr>px_out := out\<rparr>"
  by (simp_all add: sample_proxy_def main_start_def env_double_def) blast

definition sample_arrival :: arrival where
  "sample_arrival =
     \<lparr>ar_accept = Inr (), ar_no_delay = Inr (), ar_now_ms = 1700, ar_remote = Some ''10.0.0.1'', ar_now = 0\<rparr>"

lemma sample_accepted:
  "\<exists>x cid. deployed envs x \<and> px_shared x = px_shared (run envs sample_proxy) \<and>
     px_sessions x = [new_session ''10.0.0.1'' cid 3] \<and> length (px_ids x) = 1 \<and>
     proxy_exec (Accepts sample_arrival) (run envs sample_proxy) = Some x"
proof -
  let ?x = "run envs sample_proxy"
  obtain out where x: "sample_proxy = (initial_proxy 10 20 (\<lambda>_. 0))\<lparr>px_out := out\<rparr>"
    using sample_start(2) by blast
  have dep: "deployed envs ?x" using sample_start(1) by (rule deployed_start)
  have frame: "px_listening ?x" "px_limiter ?x = new_limiter 10 20 64" "px_sessions ?x = []" "px_ids ?x = []"
    by (simp_all add: x run_def split_def Let_def initial_proxy_def)
  have "fst (bucket_allow 10 20 0 None)" by (simp add: bucket_allow_def Let_def)
  then obtain limiter where ok: "allow 0 ''10.0.0.1'' (new_limiter 10 20 64) = Some (True, limiter)"
    using allow_refines_flat [OF shards_inv_new, of 64 0 "''10.0.0.1''" 10 20] flat_allow_updates
    by (fastforce simp: flat_new)
  obtain cid counter where g: "generate 1700 (px_counter ?x) = (cid, counter)" by fastforce
  obtain y where y: "listen_once sample_arrival ?x = Some y" "px_shared y = px_shared ?x"
    "px_sessions y = [new_session ''10.0.0.1'' cid 3]" "length (px_ids y) = 1"
    using ok g frame by (simp add: sample_arrival_def listen_once_def Let_def default_max_attempts_def)
  then have "proxy_exec (Accepts sample_arrival) ?x = Some y" using frame(1) by simp
  moreover from this have "deployed envs y" using deployed_more [OF dep proxy_exec_step] by blast
  ultimately show ?thesis using y by blast
qed

lemma sample_shared:
  "sh_pool (px_shared (run envs sample_proxy)) = warmed envs"
  "b < 3 \<Longrightarrow> cb_state (sh_breakers (px_shared (run envs sample_proxy)) ! b) = CLOSED"
proof -
  obtain out where x: "sample_proxy = (initial_proxy 10 20 (\<lambda>_. 0))\<lparr>px_out := out\<rparr>"
    using sample_start(2) by blast
  have len: "length main_backends = 3" by (simp add: main_backends_def)
  show "sh_pool (px_shared (run envs sample_proxy)) = warmed envs"
    by (simp add: x run_def split_def Let_def initial_proxy_def)
  show "b < 3 \<Longrightarrow> cb_state (sh_breakers (px_shared (run envs sample_proxy)) ! b) = CLOSED"
    by (simp add: x run_def split_def Let_def initial_proxy_def len new_breaker_def)
qed

text \<open>With all backends up, the first request is being relayed.\<close>

lemma main_ring_picks: "\<exists>b < 3. get_backend (main_ring 3) key = Some b"
proof -
  have inv: "ring_inv (main_ring 3)" using main_ring_inv [of 3] by simp
  have "hash_key (vnode_key 0 0) \<in> dom (map_of (ring (main_ring 3)))"
    unfolding main_ring_positions [of 3, simplified] by force
  then have "ring (main_ring 3) \<noteq> []" by auto
  then obtain b where b: "get_backend (main_ring 3) key = Some b" by (auto simp: get_backend_def Let_def)
  then have "b \<in> active_backends (main_ring 3)"
    using inv get_backend_iff [OF ring_inv_sorted [OF inv]] by (fastforce simp: ring_inv_def)
  with b show ?thesis using main_ring_frame [of 3] by auto
qed

lemma sample_relaying:
  "\<exists>x s. deployed up_net x \<and> px_sessions x = [s] \<and> pc s = Relaying Reading Reading \<and>
     backend_socket s \<noteq> None \<and> backend_index s < 3 \<and> reached s = [backend_index s] \<and>
     grants s = [backend_index s] \<and> \<not> response_started s \<and> received s = [] \<and>
     exec_all [Accepts sample_arrival, Session_Runs 0 Start] (run up_net sample_proxy) = Some x"
proof -
  let ?key = "''10.0.0.1''"
  obtain x cid where x: "deployed up_net x" "px_shared x = px_shared (run up_net sample_proxy)"
    "px_sessions x = [new_session ?key cid 3]"
    "proxy_exec (Accepts sample_arrival) (run up_net sample_proxy) = Some x"
    using sample_accepted by blast
  have ok: "shared_ok 3 (main_ring 3) (px_shared x)"
    using deployed_inv [OF x(1)] by (simp add: proxy_inv_def env_ok_def)
  obtain b where b: "b < 3" "get_backend (main_ring 3) ?key = Some b" using main_ring_picks by blast
  have "free_sockets (sh_pool (px_shared x)) ! b \<noteq> []" using warmed_up [OF b(1)] by (simp add: x(2) sample_shared)
  then obtain fs sock where "free_sockets (sh_pool (px_shared x)) ! b = fs @ [sock]" by (metis rev_exhaust)
  moreover have "allow_request (clock (px_shared x) (ticks (px_shared x))) (sh_breakers (px_shared x) ! b) =
      (True, sh_breakers (px_shared x) ! b)"
    using sample_shared(2) [OF b(1)] x(2) by (simp add: allow_request_def)
  ultimately obtain sh' l
    where st: "step Start (px_shared x, new_session ?key cid 3) = Some (sh', (new_session ?key cid 3)
      \<lparr>backend_index := b, grants := [b], backend_socket := Some sock, reached := [b], log := l,
       pc := Relaying Reading Reading\<rparr>)"
    using granted_start [OF ok b(2)] by (metis zero_less_numeral)
  then have "exec_all [Accepts sample_arrival, Session_Runs 0 Start] (run up_net sample_proxy) =
      Some (x\<lparr>px_shared := sh', px_sessions := [(new_session ?key cid 3)
      \<lparr>backend_index := b, grants := [b], backend_socket := Some sock, reached := [b], log := l,
       pc := Relaying Reading Reading\<rparr>]\<rparr>)"
    using x(3,4) by (simp del: step.simps proxy_exec.simps(1))
  with deployed_session_step [OF x(1,3) st] b(1) show ?thesis
    by (intro exI conjI) (assumption | simp add: new_session_def)+
qed

text \<open>With all backends down, the first request is about to be answered with a 503.\<close>

lemma sample_unavailable:
  "\<exists>x s. deployed down_net x \<and> px_sessions x = [s] \<and> pc s = Sending_Status"
proof -
  obtain x cid where x: "deployed down_net x" "px_shared x = px_shared (run down_net sample_proxy)"
    "px_sessions x = [new_session ''10.0.0.1'' cid 3]"
    using sample_accepted by blast
  have "good 3 (main_ring 3) (warmed down_net) {#} (px_shared x, new_session ''10.0.0.1'' cid 3)"
    using deployed_inv [OF x(1)] x(3) by (simp add: proxy_inv_def good_def held_sockets_def)
  moreover have "no_idle 3 (px_shared x)" using warmed_down by (simp add: no_idle_def x(2) sample_shared)
  ultimately obtain c m sh' s' where c: "step Start (px_shared x, new_session ''10.0.0.1'' cid 3) = Some c"
    "connects (map (down_net 0) [0..<m]) c = Some (sh', s')" "pc s' = Sending_Status"
    using outage_start [of 3 "main_ring 3" "warmed down_net" "{#}" "px_shared x" "''10.0.0.1''" cid 3 "down_net 0"]
    by (auto simp: refuses_def down_net_def)
  obtain sh1 s1 where "c = (sh1, s1)" by fastforce
  with c deployed_session_step [OF x(1,3)]
  have "deployed down_net (x\<lparr>px_shared := sh1, px_sessions := [s1]\<rparr>)" by blast
  from deployed_connects [OF this] c \<open>c = (sh1, s1)\<close>
  have "deployed down_net (x\<lparr>px_shared := sh1, px_sessions := [s1]\<rparr>\<lparr>px_shared := sh', px_sessions := [s']\<rparr>)" by simp
  with c(3) show ?thesis by (intro exI conjI) (assumption | simp)+
qed

section \<open>Arguments\<close>

lemma stoi_range: "stoi s = Inr z \<Longrightarrow> - (2 ^ 31) \<le> z \<and> z < 2 ^ 31"
  by (auto simp: stoi_def Let_def split: if_splits)

lemma main_start_ports:
  assumes "main_start stod oa clk (a # args) env_rps env_burst = Running lp mp x"
  shows "\<exists>z. stoi a = Inr z \<and> lp = word_of_int z \<and> mp = lp + 1"
  using assms main_start_Running [OF assms]
  by (cases "stoi a") (auto simp: main_start_def Let_def split: sum.splits)

lemma main_start_Terminated:
  "main_start stod oa clk (a # args) env_rps env_burst = Terminated e \<longleftrightarrow> stoi a = Inl e"
  by (cases "stoi a") (auto simp: main_start_def Let_def split: sum.splits)

end
