(* ===== verification/Session_Progress.thy ===== *)
theory Session_Progress
  imports Session_Safety
begin

text \<open>
  Sessions end. A potential (\<open>rank\<close>) is read off the suspension point and the attempts left;
  every completion a session waits for lowers it by one, except that a chunk of bytes read may
  raise it by one. So the number of steps of a session is bounded by a constant and twice the
  number of chunks its peers send, whatever the other sessions do to the shared state in
  between. A session that has not ended is never stuck.
\<close>

section \<open>The potential\<close>

definition remaining :: "session \<Rightarrow> nat" where
  "remaining s = nat (max_attempts s - attempts s)"

fun leg_rank :: "relay_pc \<Rightarrow> nat" where
  "leg_rank Reading = 1"
| "leg_rank (Writing chunk) = 2"
| "leg_rank Returned = 0"

fun pc_rank :: "nat \<Rightarrow> session_pc \<Rightarrow> nat" where
  "pc_rank r Started = 8 + 4 * r"
| "pc_rank r Acquiring = 7 + 4 * r"
| "pc_rank r Replaying = 6 + 4 * r"
| "pc_rank r (Relaying up down) = 3 + leg_rank up + leg_rank down + 4 * r"
| "pc_rank r Sending_Status = 2"
| "pc_rank r Draining = 1"
| "pc_rank r Finished = 0"
| "pc_rank r (Died e) = 0"

definition rank :: "session \<Rightarrow> nat" where
  "rank s = pc_rank (remaining s) (pc s)"

lemma remaining_frame [simp]:
  "remaining (s\<lparr>pc := l\<rparr>) = remaining s" "remaining (s\<lparr>backend_index := b\<rparr>) = remaining s"
  "remaining (s\<lparr>grants := bs\<rparr>) = remaining s" "remaining (s\<lparr>backend_socket := sk\<rparr>) = remaining s"
  "remaining (s\<lparr>to_backend := t\<rparr>) = remaining s" "remaining (s\<lparr>reached := bs\<rparr>) = remaining s"
  "remaining (s\<lparr>response_started := x\<rparr>) = remaining s" "remaining (s\<lparr>req_buf := rb\<rparr>) = remaining s"
  "remaining (s\<lparr>received := t\<rparr>) = remaining s" "remaining (s\<lparr>to_client := t\<rparr>) = remaining s"
  "remaining (s\<lparr>from_backend := t\<rparr>) = remaining s"
  by (simp_all add: remaining_def)

text \<open>What the retry loop can still cost when \<open>r\<close> attempts are left.\<close>

definition loop_rank :: "nat \<Rightarrow> nat" where
  "loop_rank r = (if r = 0 then 2 else 7 + 4 * r)"

text \<open>A stretch that leaves at most \<open>k\<close>, and at no suspension point where both relays have
  returned.\<close>

fun within :: "nat \<Rightarrow> flow \<Rightarrow> bool" where
  "within k (Continue c) \<longleftrightarrow> loop_rank (remaining (snd c)) \<le> k"
| "within k (Break c) \<longleftrightarrow> 2 \<le> k"
| "within k (Suspend c) \<longleftrightarrow> rank (snd c) \<le> k \<and> pc (snd c) \<noteq> Relaying Returned Returned"
| "within k (Return c) \<longleftrightarrow> True"
| "within k (Throw e c) \<longleftrightarrow> True"

lemma within_mono: "within k fl \<Longrightarrow> k \<le> k' \<Longrightarrow> within k' fl"
  by (cases fl) auto

section \<open>The stretches\<close>

lemma quiet_remaining: "quiet f \<Longrightarrow> f c = Inr c' \<Longrightarrow> remaining (snd c') = remaining (snd c)"
  unfolding quiet_def remaining_def by metis

lemma within_perform:
  assumes "list_all quiet fs" and "remaining (snd c) = r"
    and "\<And>c'. remaining (snd c') = r \<Longrightarrow> within k (g c')"
  shows "within k (perform fs g c)"
  using assms
proof (induction fs arbitrary: c)
  case (Cons f fs)
  then show ?case by (cases "f c") (auto dest: quiet_remaining)
qed simp

lemma give_up_remaining:
  "give_up_on b c = Inr c' \<Longrightarrow> remaining (snd c') = remaining (snd c) - 1"
  by (auto simp: give_up_on_def remaining_def split_def)

lemma within_give_up:
  assumes "list_all quiet fs" and "remaining (snd c) = r"
    and "\<And>c'. remaining (snd c') = r - 1 \<Longrightarrow> within k (g c')"
  shows "within k (perform (fs @ [give_up_on b]) g c)"
  unfolding perform_append
proof (rule within_perform [OF assms(1,2)])
  fix c' :: conf assume "remaining (snd c') = r"
  then show "within k (perform [give_up_on b] g c')"
    using assms(3) by (auto simp: dest: give_up_remaining split: sum.splits)
qed

lemma within_start_relays: "within (5 + 4 * remaining (snd c)) (start_relays c)"
  by (simp add: start_relays_def split_def rank_def)

lemma within_acquired: "within (6 + 4 * remaining (snd c)) (acquired b sock c)"
  unfolding acquired_def Let_def split_def
proof (rule within_perform)
  fix c' :: conf assume "remaining (snd c') = remaining (snd c)"
  then show "within (6 + 4 * remaining (snd c))
      (if data (req_buf (snd c')) \<noteq> [] then Suspend (goto Replaying c') else start_relays c')"
    using within_mono [OF within_start_relays [of c']] by (simp add: goto_def split_def rank_def)
qed simp_all

lemma within_connect_failed: "within (loop_rank (remaining (snd c) - 1)) (connect_failed b e c)"
  using within_give_up [of "log_event ''connect_failed'' (fields2 ''backend'' (to_string b) ''error'' (exn_what e))
      # record_failed_attempt b" c _ _ Continue b]
  by (simp add: connect_failed_def del: perform.simps)

lemma loop_rank_less: "loop_rank (r - 1) \<le> 3 + 4 * r"
  by (auto simp: loop_rank_def)

lemma within_gated: "within (7 + 4 * remaining (snd c)) (gated b c)"
proof -
  let ?k = "7 + 4 * remaining (snd c)"
  have low: "loop_rank (remaining (snd c) - 1) \<le> ?k" using loop_rank_less [of "remaining (snd c)"] by simp
  have skip: "within ?k (perform [log_event name fs, give_up_on b] Continue d)"
    if "remaining (snd d) = remaining (snd c)" for d name fs
    using within_give_up [of "[log_event name fs]" d _ ?k Continue b] that low by simp
  have failed: "within ?k (connect_failed b e d)" if "remaining (snd d) = remaining (snd c)" for d e
    using within_mono [OF within_connect_failed low [folded that]] that by metis
  have got: "within ?k (acquired b sock d)" if "remaining (snd d) = remaining (snd c)" for d sock
    using within_mono [OF within_acquired] that by simp
  show ?thesis
    unfolding gated_def Let_def split_def
    by (auto intro!: skip failed got simp: goto_def rank_def simp del: perform.simps
        split: sum.splits option.splits)
qed

lemma within_loop_body: "within (7 + 4 * remaining (snd c)) (loop_body c)"
  unfolding loop_body_def Let_def split_def
proof (split option.split, intro conjI allI impI)
  fix b
  have "within (7 + 4 * remaining (snd c)) (gated b c')" if "remaining (snd c') = remaining (snd c)" for c'
    using within_gated [of c' b] that by simp
  then show "within (7 + 4 * remaining (snd c)) (perform [show_breaker b] (gated b) c)"
    by (intro within_perform) simp_all
qed (auto intro: within_perform simp del: perform.simps)

lemma within_retry_loop:
  "within (loop_rank (remaining (snd c))) (retry_loop c) \<and> (\<forall>c'. retry_loop c \<noteq> Continue c')"
proof (induction c rule: retry_loop.induct)
  case (1 c)
  show ?case
  proof (cases "attempts (snd c) < max_attempts (snd c)")
    case True
    then have pos: "0 < remaining (snd c)" by (simp add: remaining_def)
    have body: "within (loop_rank (remaining (snd c))) (loop_body c)"
      using within_loop_body [of c] pos by (simp add: loop_rank_def)
    show ?thesis
    proof (cases "loop_body c")
      case (Continue c')
      then show ?thesis
        using 1 [OF True Continue] body True within_mono by (auto simp: retry_loop.simps [of c])
    qed (use body True in \<open>simp_all add: retry_loop.simps [of c]\<close>)
  qed (simp add: retry_loop.simps [of c] loop_rank_def)
qed

lemma within_fall_back: "within 2 (fall_back c) \<and> (\<exists>c'. fall_back c = Suspend c')"
  by (simp add: fall_back_def on_metrics_def log_event_def split_def rank_def goto_def)

lemma rank_resume:
  assumes "within k fl"
  shows "rank (snd (resume fl)) \<le> k \<and> pc (snd (resume fl)) \<noteq> Relaying Returned Returned"
proof -
  let ?fl = "case fl of Continue c \<Rightarrow> retry_loop c | fl \<Rightarrow> fl"
  have loop: "within k ?fl \<and> (\<forall>c. ?fl \<noteq> Continue c)"
    using assms within_retry_loop within_mono by (cases fl) (simp_all, blast)
  let ?gl = "case ?fl of Break c \<Rightarrow> fall_back c | fl \<Rightarrow> fl"
  have "within k ?gl \<and> (\<forall>c. ?gl \<noteq> Continue c) \<and> (\<forall>c. ?gl \<noteq> Break c)"
  proof (cases ?fl)
    case (Break c)
    then show ?thesis
      using loop within_fall_back [of c] within_mono [of 2 "fall_back c" k] by auto
  qed (use loop in auto)
  then show ?thesis
    unfolding resume_def finish_def
    by (cases ?gl) (auto simp: goto_def split_def rank_def)
qed

lemma within_after_connect: "within (6 + 4 * remaining (snd c)) (after_connect env c)"
proof -
  let ?k = "6 + 4 * remaining (snd c)"
  have failed: "within ?k (connect_failed b e c)" for b e
    using within_mono [OF within_connect_failed, of c ?k] loop_rank_less [of "remaining (snd c)"] by simp
  have got: "within ?k (acquired b sock (sh, snd c))" for b sock sh
    using within_acquired [of "(sh, snd c)"] by simp
  show ?thesis
    unfolding after_connect_def Let_def split_def
    by (auto intro!: failed got split: sum.splits)
qed

lemma within_after_replay: "within (5 + 4 * remaining (snd c)) (after_replay ec c)"
proof -
  let ?b = "backend_index (snd c)"
  have "loop_rank (remaining (snd c) - 1) \<le> 5 + 4 * remaining (snd c)"
    using loop_rank_less [of "remaining (snd c)"] by simp
  then show ?thesis
    using within_start_relays [of c]
      within_give_up [of "log_event ''replay_failed'' (fields ''backend'' (to_string ?b)) # record_failed_attempt ?b
        @ [release_unhealthy ?b]" c _ _ Continue ?b]
    by (simp add: after_replay_def Let_def del: perform.simps)
qed

lemma within_settle: "within (3 + 4 * remaining (snd c)) (settle b ok c)"
proof -
  let ?k = "3 + 4 * remaining (snd c)"
  have "within ?k (retry_unless_capped d)" if "remaining (snd d) = remaining (snd c) - 1" for d
    using that loop_rank_less [of "remaining (snd c)"] by (simp add: retry_unless_capped_def log_event_def split_def)
  then have "within ?k (perform (record_failed_attempt b @
      [log_event ''backend_failed_no_response'' (fields ''backend'' (to_string b)), give_up_on b]) retry_unless_capped c)"
    using within_give_up [of "record_failed_attempt b @
      [log_event ''backend_failed_no_response'' (fields ''backend'' (to_string b))]" c _ ?k retry_unless_capped b]
    by (simp del: perform.simps)
  then show ?thesis
    unfolding settle_def by (auto intro!: within_perform simp del: perform.simps)
qed

lemma within_after_relays: "within (3 + 4 * remaining (snd c)) (after_relays c)"
proof -
  have "within (3 + 4 * remaining (snd c)) (settle b ok d)" if "remaining (snd d) = remaining (snd c)" for b ok d
    using within_settle [of d b ok] that by simp
  then show ?thesis
    unfolding after_relays_def Let_def by (intro within_perform) simp_all
qed

section \<open>The steps\<close>

text \<open>Completions that bring bytes.\<close>

fun reads_chunk :: "event \<Rightarrow> bool" where
  "reads_chunk (Client_Leg (Read chunk)) = True"
| "reads_chunk (Backend_Leg (Read chunk)) = True"
| "reads_chunk (Drain (Read chunk)) = True"
| "reads_chunk _ = False"

lemma rank_relay:
  "relay cancelled ev up = Some (up', got, put) \<Longrightarrow>
   Suc (leg_rank up') \<le> leg_rank up + (if (\<exists>chunk. ev = Read chunk) then 2 else 0)"
  by (cases "(cancelled, ev, up)" rule: relay.cases) (auto split: if_splits)

lemma rank_after_leg:
  assumes "pc s = Relaying up down" and "Suc (leg_rank up + leg_rank down) \<le> k"
  shows "rank (snd (after_leg (sh, s))) + 1 \<le> 3 + k + 4 * remaining s \<and>
    pc (snd (after_leg (sh, s))) \<noteq> Relaying Returned Returned"
proof (cases "up = Returned \<and> down = Returned")
  case True
  then show ?thesis
    using rank_resume [OF within_after_relays [of "(sh, s)"]] assms by (simp add: after_leg_def)
next
  case False
  then show ?thesis using assms by (auto simp: after_leg_def rank_def)
qed

lemma rank_leg:
  assumes "pc s = Relaying up down" and "pc t = Relaying up' down'" and "remaining t = remaining s"
    and "Suc (leg_rank up' + leg_rank down') \<le> leg_rank up + leg_rank down + (if reads_chunk e then 2 else 0)"
  shows "rank (snd (after_leg (sh, t))) + 1 \<le> rank s + (if reads_chunk e then 2 else 0) \<and>
    pc (snd (after_leg (sh, t))) \<noteq> Relaying Returned Returned"
  using rank_after_leg [OF assms(2,4), of sh] assms(1,3) by (simp add: rank_def [of s])

lemma rank_step:
  assumes "step e (sh, s) = Some (sh', s')"
  shows "rank s' + 1 \<le> rank s + (if reads_chunk e then 2 else 0) \<and> pc s' \<noteq> Relaying Returned Returned"
proof -
  have "rank (snd c) + 1 \<le> rank s + (if reads_chunk e then 2 else 0) \<and> pc (snd c) \<noteq> Relaying Returned Returned"
    if c: "step e (sh, s) = Some c" for c
  proof (cases e)
    case Start
    have "within (7 + 4 * remaining s) (perform [log_event ''request_received'' (fields ''client'' (client_key s)),
        on_metrics (\<lambda>m. Inr (record_request_received m))] Continue (sh, s))"
      by (rule within_perform) (auto simp: loop_rank_def)
    from rank_resume [OF this] show ?thesis
      using Start c by (auto simp: handle_client_def rank_def simp del: perform.simps split: if_splits)
  next
    case (Connected env)
    then show ?thesis
      using c rank_resume [OF within_after_connect [of "(sh, s)" env]]
      by (auto simp: rank_def split: if_splits)
  next
    case (Replayed ev)
    then show ?thesis
      using c rank_resume [OF within_after_replay [of "(sh, s\<lparr>to_backend := _\<rparr>)"]]
      by (auto simp: rank_def [of s] split: if_splits io.splits)
  next
    case (Client_Leg ev)
    then obtain up down up' got put where pc: "pc s = Relaying up down"
      and leg: "relay (down = Returned) ev up = Some (up', got, put)"
      and c': "c = after_leg (sh, s\<lparr>req_buf := (if got = [] then req_buf s else rb_append got (req_buf s)),
        received := received s @ got, to_backend := to_backend s @ put, pc := Relaying up' down\<rparr>)" (is "_ = after_leg (sh, ?t)")
      using c by (auto split: session_pc.splits option.splits)
    have "reads_chunk e \<longleftrightarrow> (\<exists>chunk. ev = Read chunk)" using Client_Leg by (cases ev) auto
    then show ?thesis unfolding c' using rank_relay [OF leg] pc by (intro rank_leg [of s up down ?t up' down]) simp_all
  next
    case (Backend_Leg ev)
    then obtain up down down' got put where pc: "pc s = Relaying up down"
      and leg: "relay (up = Returned) ev down = Some (down', got, put)"
      and c': "c = after_leg (sh, s\<lparr>response_started := (response_started s \<or> got \<noteq> []),
        from_backend := from_backend s @ got, to_client := to_client s @ put, pc := Relaying up down'\<rparr>)" (is "_ = after_leg (sh, ?t)")
      using c by (auto split: session_pc.splits option.splits)
    have "reads_chunk e \<longleftrightarrow> (\<exists>chunk. ev = Read chunk)" using Backend_Leg by (cases ev) auto
    then show ?thesis unfolding c' using rank_relay [OF leg] pc by (intro rank_leg [of s up down ?t up down']) simp_all
  next
    case (Status ev)
    then show ?thesis using c by (auto simp: rank_def goto_def split: if_splits io.splits)
  next
    case (Drain ev)
    then show ?thesis using c by (cases ev) (auto simp: rank_def goto_def split: if_splits)
  qed
  from this [OF assms(1)] show ?thesis by simp
qed

section \<open>Runs\<close>

text \<open>The steps of one session, with any shared state in between: what the other coroutines of the
  process do is not restricted.\<close>

inductive session_run :: "event list \<Rightarrow> session \<Rightarrow> session \<Rightarrow> bool" where
  none: "session_run [] s s"
| more: "session_run es s t \<Longrightarrow> step e (sh, t) = Some (sh', t') \<Longrightarrow> session_run (es @ [e]) s t'"

lemma session_run_bound:
  "session_run es s t \<Longrightarrow> rank t + length es \<le> rank s + 2 * length (filter reads_chunk es)"
proof (induction rule: session_run.induct)
  case (more es s t e sh sh' t')
  then show ?case using rank_step [OF more.hyps(2)] by (simp split: if_splits)
qed simp

lemma session_run_awake:
  "session_run es s t \<Longrightarrow> pc s \<noteq> Relaying Returned Returned \<Longrightarrow> pc t \<noteq> Relaying Returned Returned"
  by (induction rule: session_run.induct) (auto dest: rank_step)

lemma leg_not_stuck:
  "up \<noteq> Returned \<Longrightarrow> \<exists>ev r. relay cancelled ev up = Some r \<and> (\<forall>chunk. ev \<noteq> Read chunk)"
proof (cases up)
  case (Writing chunk)
  then show ?thesis by (intro exI [of _ "Write_Failed 0"] exI [of _ "(Returned, [], [])"]) simp
qed (auto intro: exI [of _ Read_Failed])

lemma not_reads_chunk [simp]:
  "\<forall>chunk. ev \<noteq> Read chunk \<Longrightarrow> \<not> reads_chunk (Client_Leg ev)"
  "\<forall>chunk. ev \<noteq> Read chunk \<Longrightarrow> \<not> reads_chunk (Backend_Leg ev)"
  by (cases ev; simp)+

lemma never_stuck:
  assumes "pc s \<noteq> Finished" and "\<And>e. pc s \<noteq> Died e" and "pc s \<noteq> Relaying Returned Returned"
  shows "\<exists>e c. \<not> reads_chunk e \<and> step e (sh, s) = Some c"
proof (cases "pc s")
  case (Relaying up down)
  show ?thesis
  proof (cases "up = Returned")
    case False
    then obtain ev r where "relay (down = Returned) ev up = Some r" "\<forall>chunk. ev \<noteq> Read chunk"
      using leg_not_stuck by blast
    then show ?thesis using Relaying by (intro exI [of _ "Client_Leg ev"]) (cases r; simp)
  next
    case True
    then obtain ev r where "relay (up = Returned) ev down = Some r" "\<forall>chunk. ev \<noteq> Read chunk"
      using leg_not_stuck [of down] assms(3) Relaying by blast
    then show ?thesis using Relaying by (intro exI [of _ "Backend_Leg ev"]) (cases r; simp)
  qed
next
  case Started
  then show ?thesis by (intro exI [of _ Start]) simp
next
  case Acquiring
  then show ?thesis by (intro exI [of _ "Connected undefined"]) simp
next
  case Replaying
  then show ?thesis by (intro exI [of _ "Replayed Wrote"]) simp
next
  case Sending_Status
  then show ?thesis by (intro exI [of _ "Status Wrote"]) simp
next
  case Draining
  then show ?thesis by (intro exI [of _ "Drain Read_Failed"]) simp
qed (use assms in simp_all)

text \<open>A session of the invariant, with three attempts allowed, is at most twenty quiet steps from its
  end.\<close>

lemma leg_rank_le: "leg_rank l \<le> 2"
  by (cases l) simp_all

lemma rank_bound:
  assumes "session_inv n r s" and "max_attempts s = 3"
  shows "rank s \<le> 20"
proof -
  have left: "core_inv s \<Longrightarrow> remaining s \<le> 3"
    using assms(2) by (auto simp: core_inv_def remaining_def)
  have legs: "leg_rank up + leg_rank down \<le> 5" for up down
    using leg_rank_le [of up] leg_rank_le [of down] by simp
  have "rank s \<le> 8 + 4 * remaining s"
    by (cases "pc s") (simp_all add: rank_def legs)
  moreover have "core_inv s \<or> rank s \<le> 2"
    using assms(1) by (cases "pc s") (auto simp: rank_def session_inv_def loop_inv_def busy_inv_def)
  ultimately show ?thesis using left by linarith
qed

end
