(* ===== verification/Session_Ledger.thy ===== *)
theory Session_Ledger
  imports Session_Safety
begin

text \<open>
  What a session books in the metrics registry. The counters, less what the session itself
  accounts for (that it has started, that it fell back to the 503, the backend that served it,
  the reports it made), are not changed by any of its steps. Summed over all sessions this
  says what the numbers of a scrape mean.
\<close>

section \<open>The counters during a stretch\<close>

text \<open>The counters with the reports of the session taken out.\<close>

type_synonym ledger = "u64 \<times> u64 \<times> u64 \<times> u64 list \<times> (nat \<Rightarrow> u64)"

definition ledger :: "conf \<Rightarrow> ledger" where
  "ledger c =
     (let m = sh_metrics (fst c) in
      (total_requests m, rate_limited m, fallback_503 m, backend_success m,
       \<lambda>b. backend_success m ! b + backend_failure m ! b - of_nat (count_list (reports (snd c)) b)))"

definition books :: "conf \<Rightarrow> ledger \<times> bool \<times> nat" where
  "books c = (ledger c, response_started (snd c), backend_index (snd c))"

definition keeps_books :: "stmt \<Rightarrow> bool" where
  "keeps_books f \<longleftrightarrow> (\<forall>c c'. f c = Inr c' \<longrightarrow> books c' = books c)"

lemmas books_defs = books_def ledger_def

lemma keeps_books_stmts:
  "keeps_books (log_event name fs)" "keeps_books (show_breaker b)" "keeps_books (show_pool_active b)"
  "keeps_books (show_pool_idle b)" "keeps_books (release_unhealthy b)" "keeps_books (give_up_on b)"
  by (auto simp: keeps_books_def books_defs stmt_defs on_metrics_eq_Inr metrics_defs split_def Let_def
      bind_result_eq_Inr split: option.splits)

text \<open>A report to the breaker and the count of it go together.\<close>

lemma report_failure_books:
  assumes "breaker_failure b c = Inr c'" and "on_metrics (record_backend_failure b) c' = Inr c''"
  shows "books c'' = books c"
proof -
  obtain sh s where c: "c = (sh, s)" by fastforce
  show ?thesis
    using assms unfolding c
    by (auto simp: breaker_failure_def record_backend_failure_def on_metrics_eq_Inr bind_result_eq_Inr
        vec_modify_eq_Inr books_defs nth_list_update Let_def fun_eq_iff)
qed

lemma report_success_books:
  assumes "breaker_success b c = Inr c'" and "on_metrics (record_backend_success b) c' = Inr c''"
    and "ledger c = (t, l, f, S, R)"
  shows "b < length S \<and> ledger c'' = (t, l, f, S[b := S ! b + 1], R) \<and>
    response_started (snd c'') = response_started (snd c) \<and> backend_index (snd c'') = backend_index (snd c)"
proof -
  obtain sh s where c: "c = (sh, s)" by fastforce
  show ?thesis
    using assms unfolding c
    by (auto simp: breaker_success_def record_backend_success_def on_metrics_eq_Inr bind_result_eq_Inr
        vec_modify_eq_Inr ledger_def Let_def nth_list_update)
qed

text \<open>How a stretch that began with the counters \<open>L\<close> leaves them.\<close>

fun served :: "nat \<Rightarrow> ledger \<Rightarrow> ledger" where
  "served b (t, l, f, S, R) = (t, l, f, S[b := S ! b + 1], R)"

fun fallen :: "ledger \<Rightarrow> ledger" where
  "fallen (t, l, f, S, R) = (t, l, f + 1, S, R)"

fun successes :: "ledger \<Rightarrow> u64 list" where
  "successes (t, l, f, S, R) = S"

fun working :: "session_pc \<Rightarrow> bool" where
  "working Acquiring = True"
| "working Replaying = True"
| "working (Relaying up down) = True"
| "working _ = False"

fun booked :: "ledger \<Rightarrow> flow \<Rightarrow> bool" where
  "booked L (Continue c) \<longleftrightarrow> ledger c = L"
| "booked L (Break c) \<longleftrightarrow> ledger c = L"
| "booked L (Suspend c) \<longleftrightarrow> ledger c = L \<and> working (pc (snd c))"
| "booked L (Return c) \<longleftrightarrow> response_started (snd c) \<and> backend_index (snd c) < length (successes L) \<and>
     ledger c = served (backend_index (snd c)) L"
| "booked L (Throw e c) \<longleftrightarrow> True"

lemma booked_perform:
  assumes "list_all keeps_books fs" and "\<And>c'. books c' = books c \<Longrightarrow> booked L (k c')"
  shows "booked L (perform fs k c)"
  using assms
proof (induction fs arbitrary: c)
  case (Cons f fs)
  show ?case
  proof (cases "f c")
    case (Inr d)
    then have "books d = books c" using Cons.prems(1) unfolding keeps_books_def list.pred_inject by blast
    then show ?thesis using Cons Inr by simp
  qed simp
qed simp

lemma booked_failed:
  assumes "\<And>c'. books c' = books c \<Longrightarrow> booked L (k c')"
  shows "booked L (perform (record_failed_attempt b) k c)"
proof -
  have "booked L (perform [show_breaker b] k d)" if "books d = books c" for d
    using that assms by (intro booked_perform) (simp_all add: keeps_books_stmts)
  then show ?thesis
    using report_failure_books [of b c] by (simp add: record_failed_attempt_def split: sum.splits)
qed

section \<open>The stretches\<close>

lemma ledger_frame [simp]:
  "ledger (sh\<lparr>sh_pool := p\<rparr>, s) = ledger (sh, s)" "ledger (sh\<lparr>sh_breakers := brs\<rparr>, s) = ledger (sh, s)"
  "ledger (sh\<lparr>ticks := n\<rparr>, s) = ledger (sh, s)" "ledger (sh, s\<lparr>pc := l\<rparr>) = ledger (sh, s)"
  "ledger (sh, s\<lparr>response_started := x\<rparr>) = ledger (sh, s)" "ledger (sh, s\<lparr>backend_socket := sk\<rparr>) = ledger (sh, s)"
  "ledger (sh, s\<lparr>to_backend := t\<rparr>) = ledger (sh, s)" "ledger (sh, s\<lparr>reached := bs\<rparr>) = ledger (sh, s)"
  "ledger (sh, s\<lparr>backend_index := b\<rparr>) = ledger (sh, s)" "ledger (sh, s\<lparr>grants := bs\<rparr>) = ledger (sh, s)"
  "ledger (sh, s\<lparr>req_buf := rb\<rparr>) = ledger (sh, s)" "ledger (sh, s\<lparr>received := t\<rparr>) = ledger (sh, s)"
  "ledger (sh, s\<lparr>to_client := t\<rparr>) = ledger (sh, s)" "ledger (sh, s\<lparr>from_backend := t\<rparr>) = ledger (sh, s)"
  by (simp_all add: ledger_def Let_def)

lemma books_ledger: "books c' = books c \<Longrightarrow> ledger c' = ledger c"
  by (simp add: books_def)

text \<open>The two rules for stretches that end in none of the session's own fields.\<close>

lemma booked_rules:
  assumes "ledger c = L" and "\<And>d. ledger d = L \<Longrightarrow> booked L (k d)"
  shows "list_all keeps_books fs \<Longrightarrow> booked L (perform fs k c)"
    and "booked L (perform (record_failed_attempt b) k c)"
proof -
  have k: "booked L (k d)" if "books d = books c" for d
    using assms books_ledger [OF that] by simp
  show "list_all keeps_books fs \<Longrightarrow> booked L (perform fs k c)" by (rule booked_perform [OF _ k])
  show "booked L (perform (record_failed_attempt b) k c)" using k by (rule booked_failed)
qed

lemma perform_split:
  "perform (fs @ gs) k = perform fs (perform gs k)"
  by (rule ext) (rule perform_append)

lemma booked_start_relays: "ledger c = L \<Longrightarrow> booked L (start_relays c)"
  by (simp add: start_relays_def split_def)

lemma booked_acquired:
  assumes "ledger c = L"
  shows "booked L (acquired b sock c)"
  unfolding acquired_def Let_def split_def
proof (rule booked_perform)
  fix c' assume "books c' = books (fst c, (snd c)\<lparr>backend_socket := Some sock, to_backend := [],
    reached := reached (snd c) @ [b]\<rparr>)"
  then have "ledger c' = L" using assms by (auto dest: books_ledger)
  then show "booked L (if data (req_buf (snd c')) \<noteq> [] then Suspend (goto Replaying c') else start_relays c')"
    using booked_start_relays [of c' L] by (simp add: goto_def split_def)
qed (simp add: keeps_books_stmts)

lemma booked_connect_failed:
  assumes "ledger c = L"
  shows "booked L (connect_failed b e c)"
proof -
  have "booked L (perform [log_event name fs] (perform (record_failed_attempt b) (perform [give_up_on b] Continue)) c)"
    for name fs
    by (rule booked_rules(1) [OF assms booked_rules(2) [OF _ booked_rules(1)]]) (simp_all add: keeps_books_stmts)
  then show ?thesis
    unfolding connect_failed_def by (subst perform_Cons) (simp only: perform_split)
qed

lemma booked_gated:
  assumes "ledger c = L"
  shows "booked L (gated b c)"
proof -
  have skip: "booked L (perform [log_event name fs, give_up_on b] Continue d)" if "ledger d = L" for d name fs
    using that by (intro booked_perform) (auto simp: keeps_books_stmts dest: books_ledger)
  show ?thesis
    unfolding gated_def Let_def split_def
    by (auto intro!: skip booked_connect_failed booked_acquired simp: assms simp del: perform.simps
        split: sum.splits option.splits)
qed

lemma booked_loop_body:
  assumes "ledger c = L"
  shows "booked L (loop_body c)"
  unfolding loop_body_def Let_def split_def
  by (auto intro!: booked_perform booked_gated simp: assms keeps_books_stmts dest: books_ledger
      simp del: perform.simps split: option.splits)

lemma booked_retry_loop: "ledger c = L \<Longrightarrow> booked L (retry_loop c) \<and> (\<forall>c'. retry_loop c \<noteq> Continue c')"
proof (induction c rule: retry_loop.induct)
  case (1 c)
  then show ?case
    using booked_loop_body [OF "1.prems"]
    by (subst (1 2) retry_loop.simps) (auto split: flow.splits)
qed

lemma booked_after_connect:
  assumes "ledger c = L"
  shows "booked L (after_connect env c)"
  unfolding after_connect_def Let_def split_def
  by (auto intro!: booked_connect_failed booked_acquired simp: assms split: sum.splits)

lemma booked_after_replay:
  assumes "ledger c = L"
  shows "booked L (after_replay ec c)"
proof -
  let ?b = "backend_index (snd c)"
  have "booked L (perform [log_event name fs]
      (perform (record_failed_attempt ?b) (perform [release_unhealthy ?b, give_up_on ?b] Continue)) c)" for name fs
    by (rule booked_rules(1) [OF assms booked_rules(2) [OF _ booked_rules(1)]]) (simp_all add: keeps_books_stmts)
  then show ?thesis
    using booked_start_relays [OF assms] unfolding after_replay_def Let_def
    by (subst perform_Cons) (simp add: perform_split del: perform.simps)
qed

lemma booked_settle_success:
  assumes "ledger c = L" and "response_started (snd c)" and "backend_index (snd c) = b"
  shows "booked L (settle b True c)"
proof -
  obtain t l f S R where L: "L = (t, l, f, S, R)" by (cases L)
  let ?fs = "[show_breaker b, log_event ''request_succeeded'' (fields ''backend'' (to_string b))]"
  have "booked L (perform ?fs Return d)"
    if "response_started (snd d)" "backend_index (snd d) = b" "b < length S" "ledger d = served b L" for d
    using that by (intro booked_perform) (auto simp: keeps_books_stmts books_def L)
  then show ?thesis
    using assms report_success_books [of b c] unfolding settle_def
    by (simp add: L del: perform.simps(2)) (auto simp: L split: sum.splits simp del: perform.simps(2)
        simp: perform.simps(2) [of "breaker_success b"] perform.simps(2) [of "on_metrics (record_backend_success b)"])
qed

lemma booked_settle_failure:
  assumes "ledger c = L"
  shows "booked L (settle b False c)"
proof -
  have "booked L (retry_unless_capped d)" if "ledger d = L" for d
    unfolding retry_unless_capped_def using that
    by (auto intro!: booked_rules(1) simp: keeps_books_stmts simp del: perform.simps)
  then have "booked L (perform (record_failed_attempt b) (perform
      [log_event ''backend_failed_no_response'' (fields ''backend'' (to_string b)), give_up_on b] retry_unless_capped) c)"
    by (intro booked_rules(2) [OF assms booked_rules(1)]) (simp_all add: keeps_books_stmts)
  then show ?thesis by (simp add: settle_def perform_split del: perform.simps)
qed

lemma booked_after_relays:
  assumes "ledger c = L"
  shows "booked L (after_relays c)"
  unfolding after_relays_def Let_def
proof (rule booked_perform)
  fix d assume "books d = books c"
  then show "booked L (settle (backend_index (snd c)) (response_started (snd c)) d)"
    using assms booked_settle_success [of d L] booked_settle_failure [of d L]
    by (cases "response_started (snd c)") (auto simp: books_def)
qed (simp add: keeps_books_stmts)

section \<open>Every step\<close>

text \<open>What a session accounts for.\<close>

definition fell_back :: "session \<Rightarrow> bool" where
  "fell_back s \<longleftrightarrow> pc s = Sending_Status \<or> pc s = Draining \<or> pc s = Finished \<and> \<not> response_started s"

definition served_by :: "nat \<Rightarrow> session \<Rightarrow> bool" where
  "served_by b s \<longleftrightarrow> pc s = Finished \<and> response_started s \<and> backend_index s = b"

text \<open>How a resumed coroutine that began with the counters \<open>L\<close> leaves them.\<close>

definition settled :: "ledger \<Rightarrow> conf \<Rightarrow> bool" where
  "settled L c \<longleftrightarrow> (\<exists>e. pc (snd c) = Died e) \<or> ledger c = L \<and> working (pc (snd c)) \<or>
     ledger c = fallen L \<and> pc (snd c) = Sending_Status \<or>
     booked L (Return c) \<and> pc (snd c) = Finished"

lemma fall_back_settled:
  assumes "ledger c = L"
  shows "\<exists>c'. fall_back c = Suspend c' \<and> ledger c' = fallen L \<and> pc (snd c') = Sending_Status"
  using assms
  by (cases c) (auto simp: fall_back_def on_metrics_def log_event_def goto_def ledger_def Let_def
      record_fallback_503_def)

lemma resume_settled:
  assumes "booked L fl"
  shows "settled L (resume fl)"
proof -
  let ?fl = "case fl of Continue c \<Rightarrow> retry_loop c | fl \<Rightarrow> fl"
  have loop: "booked L ?fl \<and> (\<forall>c. ?fl \<noteq> Continue c)"
    using assms booked_retry_loop [of _ L] by (cases fl) simp_all
  show ?thesis
  proof (cases ?fl)
    case (Break c)
    then show ?thesis using loop fall_back_settled [of c L] by (auto simp: resume_def finish_def settled_def)
  next
    case (Return c)
    then show ?thesis
      using loop by (cases c) (simp add: resume_def finish_def settled_def goto_def)
  qed (use loop in \<open>auto simp: resume_def finish_def settled_def goto_def split_def\<close>)
qed

text \<open>The counters with everything taken out that the session accounts for.\<close>

fun account_of :: "ledger \<Rightarrow> session \<Rightarrow> u64 \<times> u64 \<times> u64 \<times> (nat \<Rightarrow> u64) \<times> (nat \<Rightarrow> u64)" where
  "account_of (t, l, f, S, R) s =
     (t - of_bool (pc s \<noteq> Started), l, f - of_bool (fell_back s), \<lambda>b. S ! b - of_bool (served_by b s), R)"

definition accounts :: "conf \<Rightarrow> u64 \<times> u64 \<times> u64 \<times> (nat \<Rightarrow> u64) \<times> (nat \<Rightarrow> u64)" where
  "accounts c = account_of (ledger c) (snd c)"

fun opened :: "ledger \<Rightarrow> u64 \<times> u64 \<times> u64 \<times> (nat \<Rightarrow> u64) \<times> (nat \<Rightarrow> u64)" where
  "opened (t, l, f, S, R) = (t - 1, l, f, \<lambda>b. S ! b, R)"

lemma working_accounts:
  "working (pc s) \<Longrightarrow> account_of L s = opened L"
  by (cases L, cases "pc s") (auto simp: fell_back_def served_by_def)

lemma settled_accounts:
  assumes "settled L c" and "\<And>e. pc (snd c) \<noteq> Died e"
  shows "accounts c = opened L"
proof -
  consider "ledger c = L" "working (pc (snd c))" | "ledger c = fallen L" "pc (snd c) = Sending_Status"
    | "booked L (Return c)" "pc (snd c) = Finished"
    using assms by (auto simp: settled_def)
  then show ?thesis
  proof cases
    case 1
    then show ?thesis by (simp add: accounts_def working_accounts)
  next
    case 2
    then show ?thesis by (cases L) (simp add: accounts_def fell_back_def served_by_def)
  next
    case 3
    then show ?thesis
      by (cases L) (auto simp: accounts_def fell_back_def served_by_def nth_list_update fun_eq_iff)
  qed
qed

lemma start_settled:
  "settled (case ledger (sh, s) of (t, l, f, S, R) \<Rightarrow> (t + 1, l, f, S, R)) (handle_client (sh, s))"
proof -
  let ?L = "case ledger (sh, s) of (t, l, f, S, R) \<Rightarrow> (t + 1, l, f, S, R)"
  have "booked ?L (perform [log_event ''request_received'' (fields ''client'' (client_key s)),
      on_metrics (\<lambda>m. Inr (record_request_received m))] Continue (sh, s))"
    by (simp add: log_event_def on_metrics_def record_request_received_def ledger_def Let_def)
  then show ?thesis
    unfolding handle_client_def snd_conv by (rule resume_settled)
qed

lemma leg_accounts:
  assumes "pc s = Relaying up down" and "pc t = Relaying up' down'" and "ledger (sh, t) = ledger (sh, s)"
    and "\<And>e. pc (snd (after_leg (sh, t))) \<noteq> Died e"
  shows "accounts (after_leg (sh, t)) = accounts (sh, s)"
proof (cases "pc t = Relaying Returned Returned")
  case True
  then have "settled (ledger (sh, s)) (after_leg (sh, t))"
    using resume_settled [OF booked_after_relays [OF assms(3)]] by (simp add: after_leg_def)
  then show ?thesis
    using settled_accounts assms(1,4) by (simp add: accounts_def [of "(sh, s)"] working_accounts)
next
  case False
  then show ?thesis using assms(1-3) by (auto simp: after_leg_def accounts_def working_accounts)
qed

lemma accounts_step:
  assumes "step e (sh, s) = Some c" and "session_inv n r s" and "\<And>e. pc (snd c) \<noteq> Died e"
  shows "accounts c = accounts (sh, s)"
proof -
  have resumed: "accounts c = accounts (sh, s)" if "c = resume fl" "booked (ledger (sh, s)) fl" "working (pc s)" for fl
    using settled_accounts [OF resume_settled [OF that(2)]] assms(3) that(1,3)
    by (simp add: accounts_def [of "(sh, s)"] working_accounts)
  show ?thesis
  proof (cases e)
    case Start
    then have c: "c = handle_client (sh, s)" "pc s = Started" using assms(1) by (auto split: if_splits)
    then show ?thesis
      using settled_accounts [OF start_settled] assms(3)
      by (cases "ledger (sh, s)") (simp add: accounts_def [of "(sh, s)"] fell_back_def served_by_def)
  next
    case (Connected env)
    then show ?thesis
      using assms(1) by (intro resumed [OF _ booked_after_connect]) (auto split: if_splits)
  next
    case (Replayed ev)
    then obtain ec bs where "c = resume (after_replay ec (sh, s\<lparr>to_backend := bs\<rparr>))" "pc s = Replaying"
      using assms(1) by (auto split: if_splits io.splits)
    then show ?thesis
      using booked_after_replay [of "(sh, s\<lparr>to_backend := bs\<rparr>)" "ledger (sh, s)" ec] by (intro resumed) simp_all
  next
    case (Client_Leg ev)
    then show ?thesis
      using assms(1,3) by (auto intro!: leg_accounts split: session_pc.splits option.splits)
  next
    case (Backend_Leg ev)
    then show ?thesis
      using assms(1,3) by (auto intro!: leg_accounts split: session_pc.splits option.splits)
  next
    case (Status ev)
    then show ?thesis
      using assms(1) by (cases "ledger (sh, s)") (auto simp: accounts_def goto_def fell_back_def served_by_def
          split: if_splits io.splits)
  next
    case (Drain ev)
    then show ?thesis
      using assms(1,2) by (cases "ledger (sh, s)") (auto simp: accounts_def goto_def fell_back_def served_by_def
          session_inv_def split: if_splits io.splits)
  qed
qed

end
