(* ===== verification/Proxy_Accounts.thy ===== *)
theory Proxy_Accounts
  imports Proxy_Main Session_Progress Session_Ledger
begin

text \<open>
  Progress and accounting of the whole process: the history of every session is a run in the sense
  of \<open>Session_Progress\<close>, and the counters of the registry are the sums over all sessions of what
  \<open>Session_Ledger\<close> lets each account for.
\<close>

section \<open>Histories\<close>

lemma listen_once_sessions:
  assumes "listen_once a x = Some x'"
  shows "px_sessions x' = px_sessions x \<or>
    (\<exists>key cid. px_sessions x' = px_sessions x @ [new_session key cid default_max_attempts])"
  using assms by (auto simp: listen_once_def split_def Let_def split: sum.splits option.splits if_splits) blast

definition has_history :: "session \<Rightarrow> bool" where
  "has_history s \<longleftrightarrow> (\<exists>es key cid. session_run es (new_session key cid default_max_attempts) s)"

lemma has_history_step:
  assumes "proxy_step x x'" and "list_all has_history (px_sessions x)"
  shows "list_all has_history (px_sessions x')"
  using assms(1)
proof cases
  case (accept a)
  moreover have "has_history (new_session key cid default_max_attempts)" for key cid
    unfolding has_history_def using session_run.none by blast
  ultimately show ?thesis using listen_once_sessions [of a x x'] assms(2) by auto
next
  case (session i e sh s)
  then have "has_history (px_sessions x ! i)" using assms(2) by (simp add: list_all_length)
  then have "has_history s" unfolding has_history_def using session(3) session_run.more by blast
  then show ?thesis
    using session assms(2) by (auto simp: list_all_iff dest!: set_update_subset_insert [THEN subsetD])
qed (use assms(2) in \<open>auto simp: metrics_listen_once_def reap_once_def split_def Let_def split: sum.splits\<close>)

lemma run_frame:
  "px_sessions (run envs ((initial_proxy rate cap clk)\<lparr>px_out := out\<rparr>)) = []"
  "px_rejects (run envs ((initial_proxy rate cap clk)\<lparr>px_out := out\<rparr>)) = []"
  "sh_metrics (px_shared (run envs ((initial_proxy rate cap clk)\<lparr>px_out := out\<rparr>))) = new_metrics 3"
  by (simp_all add: run_def initial_proxy_def split_def Let_def main_backends_def numeral_3_eq_3)

lemma deployed_history:
  assumes "deployed envs x" and "s \<in> set (px_sessions x)"
  shows "has_history s"
proof -
  have "list_all has_history (px_sessions x)"
    using assms(1) by (induction rule: deployed_induct) (simp_all add: run_frame has_history_step)
  then show ?thesis using assms(2) by (simp add: list_all_iff)
qed

lemma deployed_awake: "deployed envs x \<Longrightarrow> s \<in> set (px_sessions x) \<Longrightarrow> pc s \<noteq> Relaying Returned Returned"
  using deployed_history [of envs x s] session_run_awake by (fastforce simp: has_history_def new_session_def)

section \<open>Sums over all sessions\<close>

definition total :: "(session \<Rightarrow> u64) \<Rightarrow> session list \<Rightarrow> u64" where
  "total f ss = sum_list (map f ss)"

lemma total_update: "i < length ss \<Longrightarrow> total f (ss[i := s]) = total f ss - f (ss ! i) + f s"
proof (induction ss arbitrary: i)
  case (Cons t ss)
  then show ?case by (cases i) (simp_all add: total_def algebra_simps)
qed simp

lemma total_filter: "total (\<lambda>s. of_bool (P s)) ss = of_nat (length (filter P ss))"
  by (induction ss) (simp_all add: total_def)

lemma total_of_nat: "total (\<lambda>s. of_nat (f s)) ss = of_nat (sum_list (map f ss))"
  by (induction ss) (simp_all add: total_def)

definition books_inv :: "proxy \<Rightarrow> bool" where
  "books_inv x \<longleftrightarrow>
     (let m = sh_metrics (px_shared x); ss = px_sessions x in
      total_requests m = total (\<lambda>s. of_bool (pc s \<noteq> Started)) ss \<and>
      rate_limited m = of_nat (length (px_rejects x)) \<and>
      fallback_503 m = total (\<lambda>s. of_bool (fell_back s)) ss \<and>
      (\<forall>b < 3. backend_success m ! b = total (\<lambda>s. of_bool (served_by b s)) ss) \<and>
      (\<forall>b < 3. backend_success m ! b + backend_failure m ! b = total (\<lambda>s. of_nat (count_list (reports s) b)) ss))"

lemma books_inv_listen:
  assumes "books_inv x" and "listen_once a x = Some x'"
  shows "books_inv x'"
  using assms
  by (auto simp: books_inv_def listen_once_def split_def Let_def total_def new_session_def fell_back_def
      served_by_def record_rate_limited_def split: sum.splits option.splits if_splits)

lemma books_inv_session:
  assumes "books_inv x" and "i < length (px_sessions x)" and "session_inv 3 r (px_sessions x ! i)"
    and "step e (px_shared x, px_sessions x ! i) = Some (sh, s)" and "\<And>e. pc s \<noteq> Died e"
  shows "books_inv (x\<lparr>px_shared := sh, px_sessions := (px_sessions x)[i := s]\<rparr>)"
proof -
  let ?s = "px_sessions x ! i" and ?m = "sh_metrics (px_shared x)"
  have "accounts (sh, s) = accounts (px_shared x, ?s)"
    using accounts_step [OF assms(4,3)] assms(5) by simp
  then have eqs:
    "total_requests (sh_metrics sh) - of_bool (pc s \<noteq> Started) = total_requests ?m - of_bool (pc ?s \<noteq> Started)"
    "rate_limited (sh_metrics sh) = rate_limited ?m"
    "fallback_503 (sh_metrics sh) - of_bool (fell_back s) = fallback_503 ?m - of_bool (fell_back ?s)"
    "backend_success (sh_metrics sh) ! b - of_bool (served_by b s) = backend_success ?m ! b - of_bool (served_by b ?s)"
    "backend_success (sh_metrics sh) ! b + backend_failure (sh_metrics sh) ! b - of_nat (count_list (reports s) b) =
      backend_success ?m ! b + backend_failure ?m ! b - of_nat (count_list (reports ?s) b)" for b
    by (simp_all only: accounts_def ledger_def Let_def account_of.simps fst_conv snd_conv prod.inject fun_eq_iff)
  have move: "y' = y - u + u'" if "y' - u' = y - u" for y y' u u' :: u64
    using that by (metis diff_add_cancel)
  note sums = assms(1) [unfolded books_inv_def Let_def] and moved = eqs(1,3-5) [THEN move]
  have "backend_success (sh_metrics sh) ! b + backend_failure (sh_metrics sh) ! b =
      total (\<lambda>s. of_nat (count_list (reports s) b)) ((px_sessions x)[i := s])" if "b < 3" for b
    using sums that unfolding moved(4) total_update [OF assms(2)] by metis
  moreover have "backend_success (sh_metrics sh) ! b = total (\<lambda>s. of_bool (served_by b s)) ((px_sessions x)[i := s])"
    if "b < 3" for b
    using sums that unfolding moved(3) total_update [OF assms(2)] by simp
  moreover have "total_requests (sh_metrics sh) = total (\<lambda>s. of_bool (pc s \<noteq> Started)) ((px_sessions x)[i := s])"
    "fallback_503 (sh_metrics sh) = total (\<lambda>s. of_bool (fell_back s)) ((px_sessions x)[i := s])"
    using sums unfolding moved(1,2) total_update [OF assms(2)] by simp_all
  ultimately show ?thesis using sums eqs(2) by (simp add: books_inv_def Let_def)
qed

lemma deployed_books:
  assumes "deployed envs x"
  shows "books_inv x"
  using assms
proof (induction rule: deployed_induct)
  case (start rate cap clk out)
  show ?case by (simp add: books_inv_def run_frame Let_def new_metrics_def total_def)
next
  case (step y z)
  have later: "deployed envs z" using deployed_more step by blast
  have inv: "books_inv y" using step by blast
  from \<open>proxy_step y z\<close> show ?case
  proof cases
    case (accept a)
    then show ?thesis using books_inv_listen inv by blast
  next
    case (session i e sh s)
    have "session_inv 3 (main_ring 3) (px_sessions y ! i)"
      using deployed_session [OF \<open>deployed envs y\<close>] session(2) by simp
    moreover have "s \<in> set (px_sessions z)" using session(1,2) by (simp add: set_update_memI)
    then have "pc s \<noteq> Died e" for e using deployed_session [OF later, of s] by (auto simp: session_inv_def)
    ultimately show ?thesis unfolding session(1) using books_inv_session inv session(2,3) by blast
  qed (use inv in \<open>auto simp: books_inv_def metrics_listen_once_def reap_once_def split_def Let_def split: sum.splits\<close>)
qed

end
