(* ===== verification/Request_Spec.thy ===== *)
theory Request_Spec
  imports Session_Views
begin

text \<open>
  What \<^verbatim>\<open>handle_client\<close> promises about one request, as an abstract machine without breakers, pools,
  buffers or coroutines, and the proof that every step of a session is a run of it. A request is
  tried on one backend after the other, each at most once and at most \<open>k\<close> in all, whether or not the
  backend can be connected to; a connection starts with nothing forwarded and is forwarded a growing prefix of what the
  client has sent; it can be given up until the first byte of its backend's response, and never after;
  the client is handed a growing prefix of that response, or of the 503 if no backend has responded.
\<close>

section \<open>The machine\<close>

datatype phase = Idle | Connecting | Attempting | Committed | Rejecting | Answered | Rejected

record request =
  rq_phase :: phase
  rq_received :: string
  rq_forwarded :: string \<comment> \<open>on the current connection\<close>
  rq_response :: string
  rq_returned :: string
  rq_tried :: "nat list"

definition request_init :: request where
  "request_init = \<lparr>rq_phase = Idle, rq_received = [], rq_forwarded = [], rq_response = [], rq_returned = [], rq_tried = []\<rparr>"

inductive request_step :: "nat \<Rightarrow> request \<Rightarrow> request \<Rightarrow> bool" for k where
  Try: "rq_phase q = Idle \<Longrightarrow> b \<notin> set (rq_tried q) \<Longrightarrow> length (rq_tried q) < k \<Longrightarrow>
    request_step k q (q\<lparr>rq_phase := Connecting, rq_tried := rq_tried q @ [b]\<rparr>)"
| Connect: "rq_phase q = Connecting \<Longrightarrow> request_step k q (q\<lparr>rq_phase := Attempting\<rparr>)"
| Receive: "rq_phase q \<in> {Attempting, Committed} \<Longrightarrow>
    request_step k q (q\<lparr>rq_received := rq_received q @ chunk\<rparr>)"
| Forward: "rq_phase q \<in> {Attempting, Committed} \<Longrightarrow> prefix (rq_forwarded q @ bytes) (rq_received q) \<Longrightarrow>
    request_step k q (q\<lparr>rq_forwarded := rq_forwarded q @ bytes\<rparr>)"
| Give_Up: "rq_phase q \<in> {Connecting, Attempting} \<Longrightarrow>
    request_step k q (q\<lparr>rq_phase := Idle, rq_forwarded := []\<rparr>)"
| Respond: "rq_phase q \<in> {Attempting, Committed} \<Longrightarrow> chunk \<noteq> [] \<Longrightarrow>
    request_step k q (q\<lparr>rq_phase := Committed, rq_response := rq_response q @ chunk\<rparr>)"
| Deliver: "rq_phase q = Committed \<Longrightarrow> prefix (rq_returned q @ bytes) (rq_response q) \<Longrightarrow>
    request_step k q (q\<lparr>rq_returned := rq_returned q @ bytes\<rparr>)"
| Finish: "rq_phase q = Committed \<Longrightarrow> request_step k q (q\<lparr>rq_phase := Answered, rq_forwarded := []\<rparr>)"
| Reject: "rq_phase q = Idle \<Longrightarrow> request_step k q (q\<lparr>rq_phase := Rejecting\<rparr>)"
| Refuse: "rq_phase q = Rejecting \<Longrightarrow> prefix bytes unavailable_response \<Longrightarrow>
    request_step k q (q\<lparr>rq_phase := Rejected, rq_returned := rq_returned q @ bytes\<rparr>)"

abbreviation request_run :: "nat \<Rightarrow> request \<Rightarrow> request \<Rightarrow> bool" where
  "request_run k \<equiv> (request_step k)\<^sup>*\<^sup>*"

text \<open>What the machine guarantees.\<close>

definition request_inv :: "nat \<Rightarrow> request \<Rightarrow> bool" where
  "request_inv k q \<longleftrightarrow> distinct (rq_tried q) \<and> length (rq_tried q) \<le> k \<and>
     (rq_phase q \<in> {Idle, Connecting, Attempting, Rejecting} \<longrightarrow> rq_returned q = []) \<and>
     (rq_phase q \<in> {Committed, Answered} \<longleftrightarrow> rq_response q \<noteq> []) \<and>
     (rq_phase q \<in> {Committed, Answered} \<longrightarrow> prefix (rq_returned q) (rq_response q)) \<and>
     (rq_phase q = Rejected \<longrightarrow> prefix (rq_returned q) unavailable_response) \<and>
     (rq_phase q \<notin> {Idle, Rejecting, Rejected} \<longrightarrow> rq_tried q \<noteq> []) \<and>
     (rq_phase q \<notin> {Attempting, Committed} \<longrightarrow> rq_forwarded q = []) \<and>
     prefix (rq_forwarded q) (rq_received q)"

lemma request_run_inv: "request_run k request_init q \<Longrightarrow> request_inv k q"
proof (induction rule: rtranclp_induct)
  case base
  then show ?case by (simp add: request_inv_def request_init_def)
next
  case (step q q')
  from step(2,3) show ?case
    by cases (cases "rq_phase q"; auto simp: request_inv_def)+
qed

section \<open>Abstraction\<close>

definition phase_of :: "session \<Rightarrow> phase" where
  "phase_of s =
     (case pc s of
        Started \<Rightarrow> Idle
      | Acquiring \<Rightarrow> Connecting
      | Replaying \<Rightarrow> Attempting
      | Relaying _ _ \<Rightarrow> if response_started s then Committed else Attempting
      | Sending_Status \<Rightarrow> Rejecting
      | Draining \<Rightarrow> Rejected
      | _ \<Rightarrow> if response_started s then Answered else Rejected)"

definition forwarded :: "session \<Rightarrow> string" where
  "forwarded s = (if backend_socket s = None then [] else to_backend s)"

definition request_of :: "session \<Rightarrow> request" where
  "request_of s = \<lparr>rq_phase = phase_of s, rq_received = received s, rq_forwarded = forwarded s,
     rq_response = from_backend s, rq_returned = to_client s, rq_tried = grants s\<rparr>"

lemma request_of_new: "request_of (new_session key cid k) = request_init"
  by (simp add: request_of_def phase_of_def forwarded_def new_session_def request_init_def)

section \<open>Between two suspension points\<close>

text \<open>A stretch leaves alone what client and backend have been sent, unless it gets a new socket.\<close>

definition stretches :: "conf \<Rightarrow> conf \<Rightarrow> bool" where
  "stretches c d \<longleftrightarrow> (let s = snd c; t = snd d in
     received t = received s \<and> from_backend t = from_backend s \<and> to_client t = to_client s \<and>
     max_attempts t = max_attempts s \<and> (response_started t \<longrightarrow> response_started s) \<and>
     prefix (grants s) (grants t) \<and> prefix (reached s) (reached t) \<and>
     (if reached t = reached s
      then to_backend t = to_backend s \<and> (backend_socket t = None \<or> backend_socket t = backend_socket s)
      else to_backend t = []))"

lemmas stretches_simps = stretches_def Let_def

interpretation st: stretch_relation stretches
proof unfold_locales
  fix c d e assume "stretches c d" "stretches d e"
  moreover from this have "reached (snd e) = reached (snd c) \<Longrightarrow> reached (snd d) = reached (snd c)"
    by (auto simp: stretches_simps intro: prefix_order.order_antisym)
  ultimately show "stretches c e"
    by (cases "reached (snd e) = reached (snd d)") (auto simp: stretches_simps intro: prefix_order.order_trans split: if_splits)
qed (auto simp: stretches_simps seq_simps split: option.splits)

lemma stretches_connected:
  "seq (selected b s) (sh', with_socket b sock s) = Inr d \<Longrightarrow> stretches (sh, s) d"
  by (auto simp: stretches_simps seq_simps)

section \<open>Simulation\<close>

text \<open>What the phase says of a session.\<close>

definition phase_inv :: "session \<Rightarrow> bool" where
  "phase_inv s \<longleftrightarrow> distinct (grants s) \<and> distinct (reached s) \<and> length (grants s) \<le> nat (max_attempts s) \<and>
     (phase_of s = Idle \<longrightarrow> grants s = []) \<and>
     (phase_of s = Connecting \<longrightarrow> grants s \<noteq> [] \<and> last (grants s) \<notin> set (reached s)) \<and>
     (phase_of s = Attempting \<longrightarrow> grants s \<noteq> [] \<and> reached s \<noteq> [] \<and> last (reached s) = last (grants s)) \<and>
     (backend_socket s = None \<longleftrightarrow> phase_of s \<notin> {Attempting, Committed})"

lemma phase_invI:
  assumes "session_inv n r s"
  shows "phase_inv s"
  unfolding phase_inv_def
proof (intro conjI impI)
  show "distinct (grants s)" "distinct (reached s)"
    using session_history [OF assms] by (simp_all add: history_inv_def)
  show "length (grants s) \<le> nat (max_attempts s)"
    using assms grants_bounded [of n s] loop_grants_bounded [of s]
    by (cases "pc s") (auto simp: session_inv_def max_def split: if_splits)
  show "backend_socket s = None \<longleftrightarrow> phase_of s \<notin> {Attempting, Committed}"
    using assms by (cases "pc s") (auto simp: session_inv_def loop_inv_def holding_def phase_of_def)
qed (use assms in \<open>cases "pc s"; auto simp: session_inv_def busy_inv_def holding_def phase_of_def split: if_splits\<close>)+

lemma phase_facts:
  assumes "phase_inv s"
  shows "distinct (grants s)" and "distinct (reached s)" and "length (grants s) \<le> nat (max_attempts s)"
    and "phase_of s = Idle \<Longrightarrow> grants s = []"
    and "phase_of s = Connecting \<Longrightarrow> grants s \<noteq> [] \<and> last (grants s) \<notin> set (reached s)"
    and "phase_of s = Attempting \<Longrightarrow> grants s \<noteq> [] \<and> reached s \<noteq> [] \<and> last (reached s) = last (grants s)"
    and "backend_socket s = None \<longleftrightarrow> phase_of s \<notin> {Attempting, Committed}"
  using assms by (simp_all add: phase_inv_def)

lemma phase_inv_frame [simp]: "phase_inv (s\<lparr>to_backend := bs\<rparr>) = phase_inv s"
  by (simp add: phase_inv_def phase_of_def)

lemma forwarded_silent: "phase_inv s \<Longrightarrow> phase_of s \<notin> {Attempting, Committed} \<Longrightarrow> forwarded s = []"
  using phase_facts(7) [of s] by (simp add: forwarded_def)

text \<open>Phases the machine can pass through without anything being sent.\<close>

lemma give_up_run:
  assumes "rq_phase q \<in> {Idle, Connecting, Attempting}" and "rq_phase q = Idle \<Longrightarrow> rq_forwarded q = []"
    and "x \<in> {Idle, Rejecting, Rejected}"
  shows "request_run k q (q\<lparr>rq_phase := x, rq_forwarded := []\<rparr>)"
proof -
  let ?q = "\<lambda>x. q\<lparr>rq_phase := x, rq_forwarded := []\<rparr>"
  have idle: "request_run k q (?q Idle)"
  proof (cases "rq_phase q = Idle")
    case True
    then have "?q Idle = q" using assms(2) by (cases q) simp
    then show ?thesis by simp
  qed (use assms(1) request_step.Give_Up [of q k] in auto)
  have "request_step k (?q Idle) (?q Rejecting)" using request_step.Reject [of "?q Idle" k] by (cases q) simp
  moreover have "request_step k (?q Rejecting) (?q Rejected)"
    using request_step.Refuse [of "?q Rejecting" "[]" k] by (cases q) simp
  ultimately show ?thesis
    using assms(3) idle by (auto intro: rtranclp.rtrancl_into_rtrancl)
qed

lemma tries_run:
  assumes "rq_phase q = Idle" and "rq_forwarded q = []"
    and "bs \<noteq> []" and "distinct (rq_tried q @ bs)" and "length (rq_tried q @ bs) \<le> k"
  shows "request_run k q (q\<lparr>rq_phase := Connecting, rq_tried := rq_tried q @ bs\<rparr>)"
  using assms(3-)
proof (induction bs rule: rev_induct)
  case (snoc b bs)
  let ?r = "q\<lparr>rq_phase := Connecting, rq_tried := rq_tried q @ bs\<rparr>" and ?q = "q\<lparr>rq_tried := rq_tried q @ bs\<rparr>"
  have "request_run k q ?q"
  proof (cases "bs = []")
    case False
    have "request_run k q ?r" using snoc False by simp
    moreover have "request_step k ?r ?q" using request_step.Give_Up [of ?r k] assms(1,2) by (cases q) simp
    ultimately show ?thesis by (rule rtranclp.rtrancl_into_rtrancl)
  qed (cases q; simp)
  moreover have "request_step k ?q (q\<lparr>rq_phase := Connecting, rq_tried := rq_tried q @ bs @ [b]\<rparr>)"
    using request_step.Try [of ?q b k] snoc.prems assms(1) by simp
  ultimately show ?case by (rule rtranclp.rtrancl_into_rtrancl)
qed simp

text \<open>A stretch that turns to new backends ends while it connects, with a new connection, or with none.\<close>

lemma turn_run:
  assumes "rq_phase q \<in> {Idle, Connecting, Attempting}" and "rq_phase q = Idle \<Longrightarrow> rq_forwarded q = []"
    and "bs \<noteq> []" and "distinct (rq_tried q @ bs)" and "length (rq_tried q @ bs) \<le> k"
    and "x \<in> {Idle, Connecting, Attempting, Rejecting, Rejected}"
  shows "request_run k q (q\<lparr>rq_phase := x, rq_forwarded := [], rq_tried := rq_tried q @ bs\<rparr>)"
proof -
  let ?q = "\<lambda>x. q\<lparr>rq_phase := x, rq_forwarded := [], rq_tried := rq_tried q @ bs\<rparr>"
  have "request_run k q (q\<lparr>rq_phase := Idle, rq_forwarded := []\<rparr>)" using assms(1,2) by (intro give_up_run) auto
  also have "request_run k \<dots> (?q Connecting)"
    using tries_run [of "q\<lparr>rq_phase := Idle, rq_forwarded := []\<rparr>" bs k] assms(3-5) by (cases q) simp
  finally have connecting: "request_run k q (?q Connecting)" .
  moreover have "request_step k (?q Connecting) (?q Attempting)" using request_step.Connect [of "?q Connecting" k] by (cases q) simp
  moreover have "request_run k (?q Connecting) (?q x)" if "x \<in> {Idle, Rejecting, Rejected}"
    using give_up_run [of "?q Connecting" x k] that by (cases q) simp
  ultimately show ?thesis
    using assms(6) by (auto intro: rtranclp.rtrancl_into_rtrancl rtranclp_trans)
qed

text \<open>A connection to a backend tried since then is new.\<close>

lemma same_attempt_new:
  assumes st: "stretches (sh, s) (sh', t)" and inv: "phase_inv s" "phase_inv t"
    and s: "phase_of s \<in> {Idle, Connecting, Attempting}" and t: "phase_of t = Attempting"
    and bs: "grants t = grants s @ bs" "bs \<noteq> []"
  shows "forwarded t = []"
proof -
  note fs = phase_facts [OF inv(1)] and ft = phase_facts [OF inv(2)]
  have "reached t \<noteq> reached s"
  proof
    assume eq: "reached t = reached s"
    then have "backend_socket s \<noteq> None" using st ft(7) t by (auto simp: stretches_simps)
    then have "phase_of s = Attempting" using fs(7) s by auto
    then have "last (grants t) \<in> set (grants s)" using fs(6) ft(6) [OF t] eq by (metis last_in_set)
    moreover have "last (grants t) \<in> set bs" using bs by simp
    ultimately show False using ft(1) bs(1) by auto
  qed
  then show ?thesis using st by (simp add: stretches_simps forwarded_def)
qed

text \<open>With the same backends tried, the connection is the same or the one that was being made.\<close>

lemma same_attempt:
  assumes st: "stretches (sh, s) (sh', t)" and inv: "phase_inv s" "phase_inv t"
    and s: "phase_of s \<in> {Idle, Connecting, Attempting}" and t: "phase_of t \<in> {Connecting, Attempting}"
    and same: "grants t = grants s"
  shows "phase_of t = phase_of s \<and> forwarded t = forwarded s \<or>
    phase_of s = Connecting \<and> phase_of t = Attempting \<and> forwarded t = []"
proof -
  note fs = phase_facts [OF inv(1)] and ft = phase_facts [OF inv(2)]
  obtain us where us: "reached t = reached s @ us" using st by (auto simp: stretches_simps prefix_def)
  have new: "us = []" if "phase_of s = Attempting"
    using fs(6) [OF that] last_in_set [of "reached s"] ft(2,5,6) t us same by (cases us rule: rev_cases) auto
  have "phase_of s \<noteq> Idle" using fs(4) ft(5,6) t same by auto
  then consider "phase_of s = Connecting" | "phase_of s = Attempting" "us = []" using s new by blast
  then show ?thesis
  proof cases
    case 1
    have "us \<noteq> []" if "phase_of t = Attempting" using fs(5) [OF 1] ft(6) [OF that] last_in_set [of "reached t"] us same by auto
    then show ?thesis
      using 1 t us st forwarded_silent [OF inv(1)] forwarded_silent [OF inv(2)]
      by (auto simp: stretches_simps forwarded_def)
  next
    case 2
    then have "phase_of t = Attempting" using fs(6) ft(5) last_in_set [of "reached s"] t us same by auto
    then show ?thesis
      using 2 us st fs(7) ft(7) by (auto simp: stretches_simps forwarded_def)
  qed
qed

text \<open>A stretch that starts before the commit point.\<close>

lemma stretch_sim:
  assumes st: "stretches (sh, s) (sh', t)" and inv: "phase_inv s" "phase_inv t"
    and s: "phase_of s \<in> {Idle, Connecting, Attempting}" "\<not> response_started s"
  shows "request_run (nat (max_attempts s)) (request_of s) (request_of t)"
proof -
  let ?k = "nat (max_attempts s)" and ?q = "request_of s"
  have eq: "received t = received s" "from_backend t = from_backend s" "to_client t = to_client s"
    "max_attempts t = max_attempts s" "\<not> response_started t"
    using st s(2) by (auto simp: stretches_simps)
  have t: "phase_of t \<in> {Idle, Connecting, Attempting, Rejecting, Rejected}"
    using eq(5) by (auto simp: phase_of_def split: session_pc.splits)
  obtain bs where bs: "grants t = grants s @ bs" using st by (auto simp: stretches_simps prefix_def)
  have silent: "rq_phase ?q = Idle \<Longrightarrow> rq_forwarded ?q = []"
    using forwarded_silent [OF inv(1)] by (simp add: request_of_def)
  have q: "rq_phase ?q \<in> {Idle, Connecting, Attempting}" using s(1) by (simp add: request_of_def)
  show ?thesis
  proof (cases "bs = []")
    case False
    have "forwarded t = []"
      using same_attempt_new [OF st inv s(1)] False bs t forwarded_silent [OF inv(2)] by auto
    then show ?thesis
      using turn_run [OF q silent False, of ?k "phase_of t"] phase_facts(1,3) [OF inv(2)] bs t eq
      by (simp add: request_of_def)
  next
    case True
    show ?thesis
    proof (cases "phase_of t \<in> {Connecting, Attempting}")
      case True
      then show ?thesis
        using same_attempt [OF st inv s(1)] \<open>bs = []\<close> bs eq request_step.Connect [of ?q ?k] forwarded_silent [OF inv(1)]
        by (auto simp: request_of_def)
    next
      case False
      then show ?thesis
        using give_up_run [OF q silent, of "phase_of t" ?k] t forwarded_silent [OF inv(2)] \<open>bs = []\<close> bs eq
        by (auto simp: request_of_def)
    qed
  qed
qed

text \<open>After the commit point the relays end the session.\<close>

lemma committed_finishes:
  assumes "response_started s" and "\<And>e. pc (snd (resume (after_relays (sh, s)))) \<noteq> Died e"
  shows "\<exists>sh' t. resume (after_relays (sh, s)) = (sh', t) \<and> pc t = Finished \<and> response_started t \<and>
    received t = received s \<and> backend_socket t = None \<and> from_backend t = from_backend s \<and> to_client t = to_client s \<and> grants t = grants s"
proof -
  let ?b = "backend_index s"
  let ?fs = "[release_unhealthy ?b, show_pool_active ?b, show_pool_idle ?b, breaker_success ?b, on_metrics (record_backend_success ?b),
    show_breaker ?b, log_event ''request_succeeded'' (Session.fields ''backend'' (to_string ?b))]"
  have eq: "after_relays (sh, s) = perform ?fs Return (sh, s)"
    using assms(1) by (simp add: after_relays_def settle_def Let_def split: sum.split)
  obtain d where d: "seq ?fs (sh, s) = Inr d"
  proof (cases "seq ?fs (sh, s)")
    case (Inl e)
    then show ?thesis
      using perform_seq_Inl [OF Inl, of Return] assms(2) [of e] eq by (auto simp: resume_def finish_def goto_def split_def)
  qed (use that in blast)
  have "after_relays (sh, s) = Return d" unfolding eq by (rule perform_seq [OF d])
  then have "resume (after_relays (sh, s)) = goto Finished d" by (simp add: resume_def finish_def)
  moreover have "response_started (snd d) \<and> received (snd d) = received s \<and> backend_socket (snd d) = None \<and>
      from_backend (snd d) = from_backend s \<and> to_client (snd d) = to_client s \<and> grants (snd d) = grants s"
    using d assms(1) by (auto simp: seq_simps split: option.splits)
  ultimately show ?thesis by (cases d) simp
qed

lemma request_forwards:
  assumes "phase_of s \<in> {Attempting, Committed}" and "phase_of t = phase_of s"
    and "received t = received s @ got" and "forwarded t = forwarded s @ put" and "prefix (forwarded t) (received t)"
    and "from_backend t = from_backend s" and "to_client t = to_client s" and "grants t = grants s"
  shows "request_run k (request_of s) (request_of t)"
proof -
  let ?q = "request_of s" and ?r = "(request_of s)\<lparr>rq_received := received s @ got\<rparr>"
  have "request_step k ?q ?r" using request_step.Receive [of ?q k got] assms(1) by (simp add: request_of_def)
  moreover have "request_step k ?r (request_of t)"
    using request_step.Forward [of ?r put k] assms by (simp add: request_of_def)
  ultimately show ?thesis by (meson r_into_rtranclp rtranclp_trans)
qed

lemma relay_put:
  assumes "relay cancelled ev l = Some (l', got, put)"
  shows "got = [] \<or> put = []" and "put \<noteq> [] \<Longrightarrow> \<exists>c. l = Writing c \<and> prefix put c"
  using assms by (cases "(cancelled, ev, l)" rule: relay.cases; auto simp: take_is_prefix split: if_splits)+

text \<open>When a relay has moved: either the session waits, or both have returned and the stretch after
  them runs.\<close>

lemma after_leg_sim:
  assumes s: "session_inv n r s" and inv: "session_inv n r (snd (after_leg (sh, s)))" and pc: "pc s = Relaying up down"
  shows "request_run (nat (max_attempts s)) (request_of s) (request_of (snd (after_leg (sh, s))))"
proof (cases "pc s = Relaying Returned Returned")
  case False
  then show ?thesis by (simp add: after_leg_def)
next
  case True
  then have eq: "after_leg (sh, s) = resume (after_relays (sh, s))" by (simp add: after_leg_def)
  have alive: "pc (snd (resume (after_relays (sh, s)))) \<noteq> Died e" for e using inv by (auto simp: eq session_inv_def)
  obtain sh' t where t: "resume (after_relays (sh, s)) = (sh', t)" by fastforce
  show ?thesis
  proof (cases "response_started s")
    case False
    have "stretches (sh, s) (sh', t)" using st.R_resume [OF st.related_after_relays alive] t by simp
    then show ?thesis
      using stretch_sim [of sh s sh' t] phase_invI s inv False pc by (simp add: eq t phase_of_def)
  next
    case True
    have "request_step (nat (max_attempts s)) (request_of s) (request_of t)"
      using committed_finishes [OF True alive] t True pc request_step.Finish [of "request_of s"]
      by (auto simp: request_of_def phase_of_def forwarded_def)
    then show ?thesis by (simp add: eq t)
  qed
qed

lemma client_leg_sim:
  assumes s: "session_inv n r s" and t: "session_inv n r (snd c)" and step: "step (Client_Leg ev) (sh, s) = Some c"
  shows "request_run (nat (max_attempts s)) (request_of s) (request_of (snd c))"
proof -
  obtain up down up' got put where pc: "pc s = Relaying up down"
    and relay: "relay (down = Returned) ev up = Some (up', got, put)"
    and c: "c = after_leg (sh, s\<lparr>req_buf := (if got = [] then req_buf s else rb_append got (req_buf s)),
      received := received s @ got, to_backend := to_backend s @ put, pc := Relaying up' down\<rparr>)" (is "_ = after_leg (sh, ?s)")
    using step by (auto split: session_pc.splits option.splits)
  have inv: "session_inv n r ?s" using client_leg_inv [OF s pc relay] .
  have "prefix (to_backend ?s) (received ?s)" "forwarded s = to_backend s" "forwarded ?s = to_backend ?s"
    using inv by (cases up'; auto simp: session_inv_def holding_def forwarded_def intro: prefixI [OF sym])+
  then have "request_run (nat (max_attempts s)) (request_of s) (request_of ?s)"
    using pc by (intro request_forwards [where got = got and put = put]) (simp_all add: phase_of_def)
  also have "request_run (nat (max_attempts s)) (request_of ?s) (request_of (snd c))"
    using after_leg_sim [OF inv, of sh up' down] t unfolding c by simp
  finally show ?thesis .
qed

lemma backend_leg_sim:
  assumes s: "session_inv n r s" and t: "session_inv n r (snd c)" and step: "step (Backend_Leg ev) (sh, s) = Some c"
  shows "request_run (nat (max_attempts s)) (request_of s) (request_of (snd c))"
proof -
  let ?k = "nat (max_attempts s)"
  obtain up down down' got put where pc: "pc s = Relaying up down"
    and relay: "relay (up = Returned) ev down = Some (down', got, put)"
    and c: "c = after_leg (sh, s\<lparr>response_started := (response_started s \<or> got \<noteq> []),
      from_backend := from_backend s @ got, to_client := to_client s @ put, pc := Relaying up down'\<rparr>)" (is "_ = after_leg (sh, ?s)")
    using step by (auto split: session_pc.splits option.splits)
  have inv: "session_inv n r ?s" using backend_leg_inv [OF s pc relay] .
  have "request_run ?k (request_of s) (request_of ?s)"
  proof (cases "put = []")
    case True
    then show ?thesis
      using pc request_step.Respond [of "request_of s" got ?k]
      by (cases "got = []") (auto simp: request_of_def phase_of_def forwarded_def)
  next
    case False
    then obtain chunk where "got = []" "down = Writing chunk" "prefix put chunk" using relay_put [OF relay] by auto
    moreover from this have "response_started s" "prefix (to_client s @ put) (from_backend s)"
      using s pc by (auto simp: session_inv_def prefix_def) (metis append.assoc)+
    ultimately show ?thesis
      using pc request_step.Deliver [of "request_of s" put ?k]
      by (auto simp: request_of_def phase_of_def forwarded_def)
  qed
  also have "request_run ?k (request_of ?s) (request_of (snd c))"
    using after_leg_sim [OF inv, of sh up down'] t unfolding c by simp
  finally show ?thesis .
qed

lemma replayed_sim:
  assumes s: "session_inv n r s" and t: "session_inv n r (snd c)" and step: "step (Replayed ev) (sh, s) = Some c"
  shows "request_run (nat (max_attempts s)) (request_of s) (request_of (snd c))"
proof -
  let ?k = "nat (max_attempts s)"
  obtain ec bs where pc: "pc s = Replaying" and c: "c = resume (after_replay ec (sh, s\<lparr>to_backend := bs\<rparr>))" (is "_ = resume (after_replay ec (sh, ?s))")
    and bs: "prefix bs (data (req_buf s))"
    using step by (auto simp: take_is_prefix split: if_splits io.splits)
  have inv: "to_backend s = []" "data (req_buf s) = received s" "\<not> response_started s" "forwarded s = to_backend s"
    "forwarded ?s = bs"
    using s pc by (auto simp: session_inv_def busy_inv_def core_inv_def untouched_def holding_def forwarded_def)
  have "request_run ?k (request_of s) (request_of ?s)"
    using pc inv bs by (intro request_forwards [where got = "[]" and put = bs]) (simp_all add: phase_of_def)
  also have "request_run ?k (request_of ?s) (request_of (snd c))"
  proof -
    have "stretches (sh, ?s) c"
      unfolding c by (rule st.R_resume [OF st.related_after_replay]) (use t c in \<open>auto simp: session_inv_def\<close>)
    then show ?thesis
      using stretch_sim [of sh ?s "fst c" "snd c"] phase_invI [OF s] phase_invI [OF t] pc inv(3) by (simp add: phase_of_def)
  qed
  finally show ?thesis .
qed

text \<open>Every step of a session is a run of the machine.\<close>

lemma step_sim:
  assumes g: "good n r p H (sh, s)" and s: "session_inv n r s" and step: "step e (sh, s) = Some c"
  shows "request_run (nat (max_attempts s)) (request_of s) (request_of (snd c))"
proof -
  have t: "session_inv n r (snd c)" using step_ok [OF g s step] by blast
  then have alive: "pc (snd c) \<noteq> Died x" for x by (auto simp: session_inv_def)
  have sim: "request_run (nat (max_attempts s)) (request_of s) (request_of (snd c))"
    if "stretches (sh, s) c" "phase_of s \<in> {Idle, Connecting}" "\<not> response_started s"
    using stretch_sim [of sh s "fst c" "snd c"] that phase_invI [OF s] phase_invI [OF t] by auto
  show ?thesis
  proof (cases e)
    case Start
    then show ?thesis
      using step s st.R_start [of "(sh, s)"] alive
      by (intro sim) (auto simp: session_inv_def loop_inv_def untouched_def phase_of_def split: if_splits)
  next
    case (Connected env)
    then have c: "pc s = Acquiring" "c = resume (after_connect env (sh, s))" using step by (auto split: if_splits)
    have "stretches (sh, s) c"
      using st.R_after_connect [of env sh s] alive c(2) st.R_trans [OF stretches_connected] unfolding st.joined_def by blast
    then show ?thesis
      using c(1) s by (intro sim) (auto simp: session_inv_def untouched_def phase_of_def)
  next
    case (Replayed ev)
    then show ?thesis using replayed_sim [OF s t] step by blast
  next
    case (Client_Leg ev)
    then show ?thesis using client_leg_sim [OF s t] step by blast
  next
    case (Backend_Leg ev)
    then show ?thesis using backend_leg_sim [OF s t] step by blast
  next
    case (Status ev)
    then obtain bs where "pc s = Sending_Status" "c = (sh, s\<lparr>to_client := to_client s @ bs, pc := Draining\<rparr>)"
      "prefix bs unavailable_response"
      using step by (auto simp: take_is_prefix split: if_splits io.splits)
    then show ?thesis
      using request_step.Refuse [of "request_of s" bs] by (auto simp: request_of_def phase_of_def forwarded_def)
  next
    case (Drain ev)
    then have "pc s = Draining" "c = (sh, s) \<or> c = (sh, s\<lparr>pc := Finished\<rparr>)"
      using step by (auto split: if_splits io.splits)
    then show ?thesis using s by (auto simp: request_of_def phase_of_def forwarded_def session_inv_def)
  qed
qed

end
