(* ===== verification/Proxy_Requests.thy ===== *)
theory Proxy_Requests
  imports Proxy_Accounts Request_Spec
begin

text \<open>
  The sessions of the process against the machine of \<open>Request_Spec\<close>: however they are interleaved,
  each step of the process is a run of the machine in every session, and a new session starts in
  its initial state.
\<close>

lemma proxy_session_sim:
  assumes "deployed envs x" and "i < length (px_sessions x)"
    and "step e (px_shared x, px_sessions x ! i) = Some (sh, s)"
  shows "request_run 3 (request_of (px_sessions x ! i)) (request_of s)"
proof -
  have inv: "proxy_inv 3 (main_ring 3) (warmed envs) x" using assms(1) by (rule deployed_inv)
  obtain H where H: "\<And>t. held_sockets ((px_sessions x)[i := t]) = H + holds t"
    using held_sockets_split [OF assms(2)] by blast
  have "held_sockets (px_sessions x) = H + holds (px_sessions x ! i)"
    using H [of "px_sessions x ! i"] by simp
  then have "good 3 (main_ring 3) (warmed envs) H (px_shared x, px_sessions x ! i)"
    using inv by (simp add: good_def proxy_inv_def)
  from step_sim [OF this deployed_session [OF assms(1)] assms(3)] show ?thesis
    using assms(2) deployed_max_attempts [OF assms(1), of "px_sessions x ! i"] by simp
qed

lemma proxy_step_sim:
  assumes "deployed envs x" and "proxy_step x y"
  shows "length (px_sessions x) \<le> length (px_sessions y)"
    and "i < length (px_sessions x) \<Longrightarrow> request_run 3 (request_of (px_sessions x ! i)) (request_of (px_sessions y ! i))"
    and "length (px_sessions x) \<le> i \<Longrightarrow> i < length (px_sessions y) \<Longrightarrow> request_of (px_sessions y ! i) = request_init"
proof -
  have "length (px_sessions x) \<le> length (px_sessions y) \<and>
    (\<forall>i < length (px_sessions y). if i < length (px_sessions x)
      then request_run 3 (request_of (px_sessions x ! i)) (request_of (px_sessions y ! i))
      else request_of (px_sessions y ! i) = request_init)"
    using assms(2)
  proof cases
    case (accept a)
    then show ?thesis using listen_once_sessions [of a x y] by (auto simp: nth_append request_of_new)
  next
    case (session i e sh s)
    then show ?thesis using proxy_session_sim [OF assms(1), of i e sh s] by (auto simp: nth_list_update)
  qed (auto simp: metrics_listen_once_def reap_once_def split_def Let_def split: sum.splits)
  then show "length (px_sessions x) \<le> length (px_sessions y)"
    "i < length (px_sessions x) \<Longrightarrow> request_run 3 (request_of (px_sessions x ! i)) (request_of (px_sessions y ! i))"
    "length (px_sessions x) \<le> i \<Longrightarrow> i < length (px_sessions y) \<Longrightarrow> request_of (px_sessions y ! i) = request_init"
    by (auto split: if_splits)
qed

lemma deployed_requests:
  assumes "deployed envs x"
  shows "\<forall>s \<in> set (px_sessions x). request_run 3 request_init (request_of s)"
  using assms
proof (induction rule: deployed_induct)
  case (start rate cap clk out)
  show ?case by (simp add: run_frame)
next
  case (step y z)
  have "request_run 3 request_init (request_of (px_sessions z ! i))" if "i < length (px_sessions z)" for i
  proof (cases "i < length (px_sessions y)")
    case True
    then have "request_run 3 request_init (request_of (px_sessions y ! i))" using step.IH by simp
    also have "request_run 3 (request_of (px_sessions y ! i)) (request_of (px_sessions z ! i))"
      using proxy_step_sim(2) [OF step.hyps True] .
    finally show ?thesis .
  next
    case False
    then show ?thesis using proxy_step_sim(3) [OF step.hyps, of i] that by simp
  qed
  then show ?case by (metis in_set_conv_nth)
qed

end
