(* ===== verification/Session_Trials.thy ===== *)
theory Session_Trials
  imports Session_Ledger
begin

text \<open>
  A breaker that is recovering, seen from the sessions: once a breaker has opened with no request in flight,
  and until it closes again, its flag says whether a session holds a grant of it, and no two
  do. Proved stretch by stretch for one session, with the grants the others hold as a parameter.
\<close>

section \<open>The breaker\<close>

text \<open>A breaker that is not closed while \<open>k\<close> granted requests have not been reported.\<close>

definition trial_inv :: "circuit_breaker \<Rightarrow> int \<Rightarrow> bool" where
  "trial_inv br k \<longleftrightarrow> breaker_inv br \<and> cb_state br \<noteq> CLOSED \<and> k = of_bool (half_open_trial_in_flight br)"

lemma trial_allow:
  assumes "trial_inv br k" and "allow_request now br = (ok, br')"
  shows "trial_inv br' (k + of_bool ok)"
proof -
  have "breaker_inv br'" using assms breaker_inv_allow [of br now] by (simp add: trial_inv_def)
  then show ?thesis
    using assms by (auto simp: trial_inv_def allow_request_def breaker_inv_def split: if_splits)
qed

lemma trial_failure:
  assumes "trial_inv br k" and "1 \<le> k"
  shows "trial_inv (record_failure now br) (k - 1)"
  using assms breaker_inv_failure [of br now]
  by (cases "cb_state br") (auto simp: trial_inv_def record_failure_def breaker_inv_def of_bool_def split: if_splits)

lemma trial_success:
  assumes "trial_inv br k" and "1 \<le> k"
  shows "trial_inv (record_success br) (k - 1) \<or> cb_state (record_success br) = CLOSED"
  using assms breaker_inv_success [of br]
  by (cases "cb_state br") (auto simp: trial_inv_def record_success_def breaker_inv_def Let_def of_bool_def split: if_splits)

section \<open>A session\<close>

text \<open>The grants of \<open>b\<close> a session has not reported on.\<close>

definition owed :: "nat \<Rightarrow> session \<Rightarrow> int" where
  "owed b s = int (count_list (grants s) b) - int (count_list (reports s) b)"

definition trial_at :: "nat \<Rightarrow> int \<Rightarrow> conf \<Rightarrow> bool" where
  "trial_at b k c \<longleftrightarrow> b < length (sh_breakers (fst c)) \<and> trial_inv (sh_breakers (fst c) ! b) (k + owed b (snd c))"

definition closed_at :: "nat \<Rightarrow> conf \<Rightarrow> bool" where
  "closed_at b c \<longleftrightarrow> cb_state (sh_breakers (fst c) ! b) = CLOSED"

definition square :: "session \<Rightarrow> bool" where
  "square s \<longleftrightarrow> grants s = reports s"

definition owes :: "nat \<Rightarrow> session \<Rightarrow> bool" where
  "owes b s \<longleftrightarrow> grants s = reports s @ [b]"

text \<open>Statements that have no business with breakers.\<close>

definition same_trials :: "conf \<Rightarrow> conf \<Rightarrow> bool" where
  "same_trials c d \<longleftrightarrow> sh_breakers (fst d) = sh_breakers (fst c) \<and> grants (snd d) = grants (snd c) \<and>
     reports (snd d) = reports (snd c)"

definition keeps_trials :: "stmt \<Rightarrow> bool" where
  "keeps_trials f \<longleftrightarrow> (\<forall>c d. f c = Inr d \<longrightarrow> same_trials c d)"

lemma keeps_trials_stmts:
  "keeps_trials (log_event name fs)" "keeps_trials (on_metrics g)" "keeps_trials (show_breaker b)" "keeps_trials (show_pool_active b)"
  "keeps_trials (show_pool_idle b)" "keeps_trials (release_unhealthy b)" "keeps_trials (give_up_on b)"
  by (auto simp: keeps_trials_def same_trials_def stmt_defs on_metrics_eq_Inr split_def Let_def bind_result_eq_Inr
      split: option.splits)

lemma same_trials_frame:
  "same_trials c d \<Longrightarrow> trial_at b k d = trial_at b k c" "same_trials c d \<Longrightarrow> closed_at b d = closed_at b c"
  "same_trials c d \<Longrightarrow> square (snd d) = square (snd c)" "same_trials c d \<Longrightarrow> owes b (snd d) = owes b (snd c)"
  by (simp_all add: same_trials_def trial_at_def closed_at_def square_def owes_def owed_def)

lemma same_trials_local:
  "same_trials (sh, s) (sh\<lparr>sh_pool := p\<rparr>, s)"
  "grants t = grants s \<Longrightarrow> reports t = reports s \<Longrightarrow> same_trials (sh, s) (sh, t)"
  by (simp_all add: same_trials_def)

fun trial_flow :: "nat \<Rightarrow> int \<Rightarrow> flow \<Rightarrow> bool" where
  "trial_flow b k (Continue c) \<longleftrightarrow> trial_at b k c \<and> square (snd c)"
| "trial_flow b k (Break c) \<longleftrightarrow> trial_at b k c"
| "trial_flow b k (Suspend c) \<longleftrightarrow> trial_at b k c"
| "trial_flow b k (Return c) \<longleftrightarrow> trial_at b k c \<or> closed_at b c"
| "trial_flow b k (Throw e c) \<longleftrightarrow> True"

lemma trial_perform:
  assumes "list_all keeps_trials fs" and "\<And>d. same_trials c d \<Longrightarrow> trial_flow b k (g d)"
  shows "trial_flow b k (perform fs g c)"
  using assms
proof (induction fs arbitrary: c)
  case Nil
  then show ?case by (simp add: same_trials_def)
next
  case (Cons f fs)
  show ?case
  proof (cases "f c")
    case (Inr d)
    then have "same_trials c d" using Cons.prems(1) unfolding keeps_trials_def list.pred_inject by blast
    then show ?thesis using Cons Inr by (simp add: same_trials_def)
  qed simp
qed

text \<open>The report of a failure, and of a success.\<close>

lemma failure_reported:
  assumes "breaker_failure b' c = Inr d" and "owes b' (snd c)" and "trial_at b k c" and "0 \<le> k"
  shows "trial_at b k d \<and> square (snd d)"
proof -
  obtain sh s where c: "c = (sh, s)" by fastforce
  show ?thesis
  proof (cases "b' = b")
    case True
    then show ?thesis
      using assms trial_failure [of "sh_breakers sh ! b" "k + 1"] unfolding c
      by (auto simp: breaker_failure_def bind_result_eq_Inr vec_modify_eq_Inr trial_at_def owed_def owes_def square_def)
  next
    case False
    then show ?thesis
      using assms unfolding c
      by (auto simp: breaker_failure_def bind_result_eq_Inr vec_modify_eq_Inr trial_at_def owed_def owes_def square_def)
  qed
qed

lemma success_reported:
  assumes "breaker_success b' c = Inr d" and "owes b' (snd c)" and "trial_at b k c" and "0 \<le> k"
  shows "trial_at b k d \<or> closed_at b d"
proof -
  obtain sh s where c: "c = (sh, s)" by fastforce
  show ?thesis
  proof (cases "b' = b")
    case True
    then show ?thesis
      using assms trial_success [of "sh_breakers sh ! b" "k + 1"] unfolding c
      by (auto simp: breaker_success_def bind_result_eq_Inr vec_modify_eq_Inr trial_at_def closed_at_def owed_def owes_def)
  next
    case False
    then show ?thesis
      using assms unfolding c
      by (auto simp: breaker_success_def bind_result_eq_Inr vec_modify_eq_Inr trial_at_def owed_def owes_def)
  qed
qed

lemma trial_failed:
  assumes "owes b' (snd c)" and "trial_at b k c" and "0 \<le> k"
    and "\<And>d. trial_at b k d \<Longrightarrow> square (snd d) \<Longrightarrow> trial_flow b k (g d)"
  shows "trial_flow b k (perform (record_failed_attempt b') g c)"
proof (cases "breaker_failure b' c")
  case (Inr d)
  then have "trial_at b k d" "square (snd d)" using failure_reported [OF Inr assms(1-3)] by simp_all
  then have "trial_flow b k (perform [on_metrics (record_backend_failure b'), show_breaker b'] g d)"
    using assms(4) same_trials_frame [of d] by (intro trial_perform) (simp_all add: keeps_trials_stmts)
  then show ?thesis using Inr by (simp add: record_failed_attempt_def)
qed (simp add: record_failed_attempt_def)

section \<open>The stretches\<close>

lemma trial_start_relays: "trial_at b k c \<Longrightarrow> trial_flow b k (start_relays c)"
  by (cases c) (simp add: start_relays_def goto_def trial_at_def owed_def)

lemma trial_acquired:
  assumes "trial_at b k c"
  shows "trial_flow b k (acquired b' sock c)"
proof -
  obtain sh s where c: "c = (sh, s)" by fastforce
  let ?s = "s\<lparr>backend_socket := Some sock, to_backend := [], reached := reached s @ [b']\<rparr>"
  have at: "trial_at b k (sh, ?s)" using assms by (simp add: c trial_at_def owed_def)
  show ?thesis
    unfolding acquired_def c split Let_def
  proof (rule trial_perform)
    fix d assume "same_trials (sh, ?s) d"
    then have "trial_at b k d" using at same_trials_frame(1) by blast
    then show "trial_flow b k (if data (req_buf (snd d)) \<noteq> [] then Suspend (goto Replaying d) else start_relays d)"
      using trial_start_relays by (cases d) (simp add: goto_def trial_at_def owed_def)
  qed (simp add: keeps_trials_stmts)
qed

lemma trial_give_up:
  assumes "trial_at b k c" and "square (snd c)"
  shows "trial_flow b k (perform [give_up_on b'] Continue c)"
  using assms same_trials_frame [of c] by (intro trial_perform) (simp_all add: keeps_trials_stmts)

lemma trial_connect_failed:
  assumes "owes b' (snd c)" and "trial_at b k c" and "0 \<le> k"
  shows "trial_flow b k (connect_failed b' e c)"
proof -
  have "trial_flow b k (perform [log_event name fs] (perform (record_failed_attempt b') (perform [give_up_on b'] Continue)) c)" for name fs
  proof (rule trial_perform)
    fix d assume "same_trials c d"
    then show "trial_flow b k (perform (record_failed_attempt b') (perform [give_up_on b'] Continue) d)"
      using assms same_trials_frame [of c d] by (intro trial_failed trial_give_up) simp_all
  qed (simp add: keeps_trials_stmts)
  then show ?thesis unfolding connect_failed_def by (subst perform_Cons) (simp only: perform_split)
qed

lemma trial_gated:
  assumes "square (snd c)" and "trial_at b k c" and "0 \<le> k" and "b' < length (sh_breakers (fst c))"
  shows "trial_flow b k (gated b' c)"
proof -
  obtain sh s where c: "c = (sh, s)" by fastforce
  obtain ok br where allow: "allow_request (clock sh (ticks sh)) (sh_breakers sh ! b') = (ok, br)" by fastforce
  let ?sh = "sh\<lparr>sh_breakers := (sh_breakers sh)[b' := br], ticks := ticks sh + 1\<rparr>"
  let ?s = "s\<lparr>backend_index := b', grants := grants s @ [b']\<rparr>"
  have "trial_inv ((sh_breakers sh)[b' := br] ! b) (k + owed b s + of_bool (ok \<and> b' = b))"
    using assms trial_allow [of "sh_breakers sh ! b" "k + owed b s"] allow by (cases "b' = b") (simp_all add: c trial_at_def)
  then have at: "\<not> ok \<Longrightarrow> trial_at b k (?sh, s)" "ok \<Longrightarrow> trial_at b k (?sh, ?s)"
    using assms(2) by (auto simp: c trial_at_def owed_def algebra_simps)
  show ?thesis
  proof (cases ok)
    case False
    have "trial_flow b k (perform [log_event name fs, give_up_on b'] Continue (?sh, s))" for name fs
      using at(1) [OF False] assms(1) same_trials_frame [of "(?sh, s)"]
      by (intro trial_perform) (simp_all add: keeps_trials_stmts c)
    then show ?thesis using allow False by (simp add: c gated_def Let_def del: perform.simps)
  next
    case True
    have owes: "owes b' ?s" using assms(1) by (simp add: c owes_def square_def)
    have frame: "trial_at b k (?sh\<lparr>sh_pool := p\<rparr>, ?s)" for p
      using at(2) [OF True] by (simp add: trial_at_def)
    have "trial_flow b k (case acquire_begin b' (sh_pool sh) of
        Inl e \<Rightarrow> connect_failed b' e (?sh, ?s)
      | Inr (Some sock, p) \<Rightarrow> acquired b' sock (?sh\<lparr>sh_pool := p\<rparr>, ?s)
      | Inr (None, p) \<Rightarrow> Suspend (goto Acquiring (?sh\<lparr>sh_pool := p\<rparr>, ?s)))"
      using trial_connect_failed [of b' "(?sh, ?s)" b k] at(2) [OF True] owes assms(3) trial_acquired [OF frame] frame
      by (auto simp: trial_at_def owed_def split: sum.split option.split)
    then show ?thesis using allow True by (simp add: c gated_def Let_def del: One_nat_def)
  qed
qed

lemma trial_retry_loop:
  assumes "trial_at b k c" and "square (snd c)" and "0 \<le> k"
    and "good n r p H c" and "loop_inv (snd c)" and "\<not> capped (req_buf (snd c))"
  shows "trial_flow b k (retry_loop c)"
  using assms(1,2,4-6)
proof (induction c rule: retry_loop.induct)
  case (1 c)
  obtain sh s where c: "c = (sh, s)" by fastforce
  show ?case
  proof (cases "attempts (snd c) < max_attempts (snd c)")
    case False
    then show ?thesis using 1(2) by (simp add: retry_loop.simps [of c])
  next
    case True
    have ok: "shared_ok n r sh" using good_shared [OF "1.prems"(3)] by (simp add: c)
    have "trial_flow b k (loop_body c)"
    proof (cases "get_backend_excluding r (client_key s) (excluded s)")
      case None
      then show ?thesis
        using "1.prems"(1) ok same_trials_frame(1) [of c] unfolding loop_body_def c split
        by (auto simp: shared_ok_def intro!: trial_perform simp: keeps_trials_stmts simp del: perform.simps)
    next
      case (Some b')
      have "b' < n"
        using Some ok get_backend_excluding_iff [OF ring_inv_sorted, of r "client_key s" "excluded s" b']
        by (fastforce simp: shared_ok_def ring_inv_def)
      then have len: "b' < length (sh_breakers (fst c))" using ok by (simp add: c shared_ok_def)
      have "trial_flow b k (perform [show_breaker b'] (gated b') c)"
      proof (rule trial_perform)
        fix d assume same: "same_trials c d"
        then have "b' < length (sh_breakers (fst d))" using len by (simp add: same_trials_def)
        then show "trial_flow b k (gated b' d)"
          using same_trials_frame(1,3) [OF same] "1.prems"(1,2) assms(3) by (intro trial_gated) simp_all
      qed (simp add: keeps_trials_stmts)
      then show ?thesis using Some ok by (simp add: c loop_body_def shared_ok_def)
    qed
    moreover have "flow_ok n r p H (loop_body c)" using loop_body_ok [of n r p H sh s] 1(4-6) True c by simp
    ultimately show ?thesis
      using 1(1) [OF True] True by (subst retry_loop.simps) (auto split: flow.splits)
  qed
qed

lemma trial_resume:
  assumes "trial_flow b k fl" and "flow_ok n r p H fl" and "0 \<le> k"
  shows "trial_at b k (resume fl) \<or> closed_at b (resume fl)"
proof -
  let ?fl = "case fl of Continue c \<Rightarrow> retry_loop c | fl \<Rightarrow> fl"
  have fl: "trial_flow b k ?fl" "\<And>c. ?fl \<noteq> Continue c" "\<And>e c. ?fl \<noteq> Throw e c"
    using assms trial_retry_loop [of b k _ n r p H] retry_loop_ok [of n r p H] by (cases fl; fastforce)+
  have gotos: "trial_at b k (goto l c) = trial_at b k c" "closed_at b (goto l c) = closed_at b c" for l c
    by (cases c; simp add: goto_def trial_at_def closed_at_def owed_def)+
  have fall: "trial_flow b k (fall_back c)" if "trial_at b k c" for c
    unfolding fall_back_def using that same_trials_frame(1) [of c]
    by (intro trial_perform) (simp_all add: keeps_trials_stmts gotos)
  show ?thesis
  proof (cases ?fl)
    case (Break c)
    then have "trial_flow b k (fall_back c)" using fl(1) fall by simp
    moreover have "\<exists>d. fall_back c = Suspend d" by (cases c) (simp add: fall_back_def on_metrics_def log_event_def)
    ultimately show ?thesis using Break by (auto simp: resume_def finish_def)
  qed (use fl in \<open>auto simp: resume_def finish_def gotos\<close>)
qed

lemma trial_after_connect:
  assumes "owes (backend_index (snd c)) (snd c)" and "trial_at b k c" and "0 \<le> k"
  shows "trial_flow b k (after_connect env c)"
proof -
  obtain sh s where c: "c = (sh, s)" by fastforce
  have "trial_at b k (sh\<lparr>sh_pool := q\<rparr>, s)" for q using assms(2) by (simp add: c trial_at_def)
  then show ?thesis
    using trial_connect_failed [OF _ assms(2,3)] trial_acquired assms(1)
    by (auto simp: c after_connect_def Let_def split: sum.split)
qed

lemma trial_after_replay:
  assumes "owes (backend_index (snd c)) (snd c)" and "trial_at b k c" and "0 \<le> k"
  shows "trial_flow b k (after_replay ec c)"
proof -
  let ?b = "backend_index (snd c)"
  have give: "trial_flow b k (perform [release_unhealthy ?b, give_up_on ?b] Continue d)" if "trial_at b k d" "square (snd d)" for d
    using that same_trials_frame [of d] by (intro trial_perform) (simp_all add: keeps_trials_stmts)
  have "trial_flow b k (perform [log_event name fs]
      (perform (record_failed_attempt ?b) (perform [release_unhealthy ?b, give_up_on ?b] Continue)) c)" for name fs
  proof (rule trial_perform)
    fix d assume "same_trials c d"
    then show "trial_flow b k (perform (record_failed_attempt ?b) (perform [release_unhealthy ?b, give_up_on ?b] Continue) d)"
      using assms same_trials_frame [of c d] by (intro trial_failed give) simp_all
  qed (simp add: keeps_trials_stmts)
  then show ?thesis
    using trial_start_relays [OF assms(2)] unfolding after_replay_def Let_def
    by (subst perform_Cons) (simp add: perform_split del: perform.simps)
qed

lemma trial_settle:
  assumes "owes b' (snd c)" and "trial_at b k c" and "0 \<le> k"
  shows "trial_flow b k (settle b' got c)"
proof (cases got)
  case True
  have "trial_flow b k (perform [on_metrics (record_backend_success b'), show_breaker b', log_event name fs] Return d)"
    if "breaker_success b' c = Inr d" for d name fs
    using success_reported [OF that assms] same_trials_frame [of d]
    by (intro trial_perform) (auto simp: keeps_trials_stmts)
  then show ?thesis using True by (simp add: settle_def perform.simps(2) [of "breaker_success b'"] split: sum.split del: perform.simps)
next
  case False
  have "trial_flow b k (retry_unless_capped d)" if "trial_at b k d" "square (snd d)" for d
    unfolding retry_unless_capped_def using that same_trials_frame [of d]
    by (auto intro!: trial_perform simp: keeps_trials_stmts simp del: perform.simps)
  then have "trial_flow b k (perform [log_event name fs, give_up_on b'] retry_unless_capped d)"
    if "trial_at b k d" "square (snd d)" for d name fs
    using that same_trials_frame [of d] by (intro trial_perform) (simp_all add: keeps_trials_stmts)
  then show ?thesis
    using False trial_failed [OF assms] by (simp add: settle_def perform_split del: perform.simps)
qed

lemma trial_after_relays:
  assumes "owes (backend_index (snd c)) (snd c)" and "trial_at b k c" and "0 \<le> k"
  shows "trial_flow b k (after_relays c)"
  unfolding after_relays_def Let_def
proof (rule trial_perform)
  fix d assume "same_trials c d"
  then show "trial_flow b k (settle (backend_index (snd c)) (response_started (snd c)) d)"
    using assms same_trials_frame [of c d] by (intro trial_settle) simp_all
qed (simp add: keeps_trials_stmts)

section \<open>Every step\<close>

lemma trial_after_leg:
  assumes "good n r p H (sh, s)" and "session_inv n r s" and "trial_at b k (sh, s)" and "0 \<le> k"
  shows "trial_at b k (after_leg (sh, s)) \<or> closed_at b (after_leg (sh, s))"
proof (cases "pc s = Relaying Returned Returned")
  case True
  then have "session_inv_at n r (Relaying Returned Returned) s" using assms(2) by (simp add: session_inv_def)
  moreover from this have "owes (backend_index s) s" by (simp add: busy_inv_def owes_def)
  ultimately show ?thesis
    using trial_resume [OF trial_after_relays after_relays_ok [OF assms(1)] assms(4)] assms(3,4) True by (simp add: after_leg_def)
qed (use assms(3) in \<open>simp add: after_leg_def\<close>)

lemma trial_step:
  assumes g: "good n r p H (sh, s)" and s: "session_inv n r s" and step: "step e (sh, s) = Some c"
    and at: "trial_at b k (sh, s)" and k: "0 \<le> k"
  shows "trial_at b k c \<or> closed_at b c"
proof (cases e)
  case Start
  then have pc: "pc s = Started" and c: "c = handle_client (sh, s)" using step by (auto split: if_splits)
  have inv: "loop_inv s" "\<not> capped (req_buf s)" using s pc by (simp_all add: session_inv_def)
  let ?fs = "[log_event ''request_received'' (fields ''client'' (client_key s)), on_metrics (\<lambda>m. Inr (record_request_received m))]"
  have "trial_flow b k (perform ?fs Continue (sh, s))"
    using at inv(1) same_trials_frame [of "(sh, s)"]
    by (intro trial_perform) (simp_all add: keeps_trials_stmts loop_inv_def square_def)
  moreover have "flow_ok n r p H (perform ?fs Continue (sh, s))"
    by (rule flow_ok_telemetry [OF _ g]) (use inv in \<open>simp_all add: telemetry_rules\<close>)
  ultimately show ?thesis using trial_resume k unfolding c handle_client_def by simp
next
  case (Connected env)
  then have pc: "pc s = Acquiring" and c: "c = resume (after_connect env (sh, s))" using step by (auto split: if_splits)
  have inv: "session_inv_at n r Acquiring s" using s pc by (simp add: session_inv_def)
  then have "owes (backend_index s) s" by (simp add: busy_inv_def owes_def)
  then show ?thesis
    using trial_resume [OF trial_after_connect after_connect_ok [OF g inv] k] at k unfolding c by simp
next
  case (Replayed ev)
  then obtain ec bs where pc: "pc s = Replaying" and c: "c = resume (after_replay ec (sh, s\<lparr>to_backend := bs\<rparr>))"
    and bs: "\<not> ec \<Longrightarrow> bs = data (req_buf s)"
    using step by (auto split: if_splits io.splits)
  let ?s = "s\<lparr>to_backend := bs\<rparr>"
  have g': "good n r p H (sh, ?s)" by (rule good_local [OF g]) simp
  have inv: "busy_inv n ?s" "untouched ?s" "\<not> capped (req_buf ?s)" "holding ?s"
    using s pc by (auto simp: session_inv_def busy_inv_def core_inv_def holding_def untouched_def)
  have "flow_ok n r p H (after_replay ec (sh, ?s))" using bs by (intro after_replay_ok [OF g' inv]) simp
  moreover have "trial_flow b k (after_replay ec (sh, ?s))"
    using inv(1) at k by (intro trial_after_replay) (simp_all add: busy_inv_def owes_def trial_at_def owed_def)
  ultimately show ?thesis using trial_resume k unfolding c by blast
next
  case (Client_Leg ev)
  then obtain t where "c = after_leg (sh, t)" "good n r p H (sh, t)" "session_inv n r t" "grants t = grants s" "reports t = reports s"
    using client_leg_moves [OF g s] step by blast
  then show ?thesis using trial_after_leg at k by (simp add: trial_at_def owed_def)
next
  case (Backend_Leg ev)
  then obtain t where "c = after_leg (sh, t)" "good n r p H (sh, t)" "session_inv n r t" "grants t = grants s" "reports t = reports s"
    using backend_leg_moves [OF g s] step by blast
  then show ?thesis using trial_after_leg at k by (simp add: trial_at_def owed_def)
next
  case (Status ev)
  then show ?thesis using step at by (auto simp: trial_at_def owed_def split: if_splits io.splits)
next
  case (Drain ev)
  then show ?thesis using step at by (auto simp: trial_at_def owed_def split: if_splits io.splits)
qed

end
