(* ===== verification/Proxy_Trials.thy ===== *)
theory Proxy_Trials
  imports Proxy_Main Session_Trials
begin

text \<open>
  A recovering breaker in the running process: what \<open>Session_Trials\<close> shows of one session, for all sessions
  together and in every interleaving.
\<close>

section \<open>Sessions that hold a grant\<close>

definition busy_on :: "nat \<Rightarrow> session \<Rightarrow> bool" where
  "busy_on b s \<longleftrightarrow> (pc s = Acquiring \<or> pc s = Replaying \<or> (\<exists>up down. pc s = Relaying up down)) \<and> backend_index s = b"

definition trials :: "nat \<Rightarrow> session list \<Rightarrow> nat" where
  "trials b ss = length (filter (busy_on b) ss)"

lemma owed_busy: "session_inv n r s \<Longrightarrow> owed b s = of_bool (busy_on b s)"
  by (cases "pc s") (auto simp: session_inv_def busy_inv_def loop_inv_def owed_def busy_on_def)

lemma trials_split:
  assumes "i < length ss"
  shows "\<exists>h. \<forall>s. trials b (ss[i := s]) = h + of_bool (busy_on b s)"
proof -
  have "trials b ss = sum_list (map (\<lambda>s. of_bool (busy_on b s)) ss)" for ss
    by (induction ss) (simp_all add: trials_def)
  then show ?thesis using sum_list_split [OF assms, of "\<lambda>s. of_bool (busy_on b s) :: nat"] by simp
qed

section \<open>Recovery\<close>

text \<open>The states of the process reached from \<open>x\<close> while the breaker of \<open>b\<close> does not close.\<close>

inductive recovering :: "nat \<Rightarrow> proxy \<Rightarrow> proxy \<Rightarrow> bool" for b x where
  tripped: "cb_state (sh_breakers (px_shared x) ! b) \<noteq> CLOSED \<Longrightarrow> recovering b x x"
| on: "recovering b x y \<Longrightarrow> proxy_step y z \<Longrightarrow> cb_state (sh_breakers (px_shared z) ! b) \<noteq> CLOSED \<Longrightarrow> recovering b x z"

definition trial_ok :: "nat \<Rightarrow> proxy \<Rightarrow> bool" where
  "trial_ok b x \<longleftrightarrow> trial_inv (sh_breakers (px_shared x) ! b) (int (trials b (px_sessions x)))"

lemma trial_ok_session:
  assumes inv: "proxy_inv n r p x" and i: "i < length (px_sessions x)" and b: "b < n"
    and step: "step e (px_shared x, px_sessions x ! i) = Some (sh, s)" and ok: "trial_ok b x"
    and open_: "cb_state (sh_breakers sh ! b) \<noteq> CLOSED"
  shows "trial_inv (sh_breakers sh ! b) (int (trials b ((px_sessions x)[i := s])))"
proof -
  let ?s = "px_sessions x ! i"
  obtain H where H: "\<And>t. held_sockets ((px_sessions x)[i := t]) = H + holds t" using held_sockets_split [OF i] by blast
  have "held_sockets (px_sessions x) = H + holds ?s" using H [of ?s] by simp
  then have g: "good n r p H (px_shared x, ?s)" using inv by (simp add: good_def proxy_inv_def)
  have s: "session_inv n r ?s" using inv i by (simp add: proxy_inv_def list_all_length)
  have s': "session_inv n r s" using step_ok [OF g s step] by simp
  obtain h where h: "\<And>t. trials b ((px_sessions x)[i := t]) = h + of_bool (busy_on b t)" using trials_split [OF i] by blast
  have "trials b (px_sessions x) = h + of_bool (busy_on b ?s)" using h [of ?s] by simp
  then have "trial_at b (int h) (px_shared x, ?s)"
    using ok good_shared [OF g] b owed_busy [OF s, of b] by (simp add: trial_at_def trial_ok_def shared_ok_def)
  from trial_step [OF g s step this] open_ have "trial_at b (int h) (sh, s)" by (simp add: closed_at_def)
  then show ?thesis using owed_busy [OF s', of b] h [of s] by (simp add: trial_at_def)
qed

lemma trial_ok_step:
  assumes "proxy_inv n r p x" and "b < n" and "proxy_step x y" and "trial_ok b x"
    and "cb_state (sh_breakers (px_shared y) ! b) \<noteq> CLOSED"
  shows "trial_ok b y"
  using assms(3)
proof cases
  case (accept a)
  have "\<not> busy_on b (new_session key cid m)" for key cid m by (simp add: busy_on_def new_session_def)
  then show ?thesis
    using accept assms(4)
    by (auto simp: trial_ok_def trials_def listen_once_def split_def Let_def split: sum.splits option.splits if_splits)
next
  case (session i e sh s)
  then show ?thesis using trial_ok_session [OF assms(1) session(2) assms(2) session(3) assms(4)] assms(5) by (simp add: trial_ok_def)
qed (use assms(4) in \<open>auto simp: trial_ok_def metrics_listen_once_def reap_once_def split_def Let_def split: sum.splits\<close>)

lemma recovering_trials:
  assumes "recovering b x y" and "proxy_inv n r p x" and "b < n" and "trial_ok b x"
  shows "proxy_inv n r p y \<and> trial_ok b y"
  using assms
proof (induction rule: recovering.induct)
  case (on y z)
  then show ?case using proxy_inv_step trial_ok_step by blast
qed simp

section \<open>A sample recovery\<close>

text \<open>The process with every breaker open and its cooldown over.\<close>

definition cooled :: "proxy \<Rightarrow> proxy" where
  "cooled x = x\<lparr>px_shared := (px_shared x)\<lparr>clock := \<lambda>_. 6000000000,
     sh_breakers := replicate 3 ((new_breaker 5 2 5000)\<lparr>cb_state := OPEN, consecutive_failures := 5\<rparr>)\<rparr>\<rparr>"

lemma cooled_inv: "proxy_inv 3 r p x \<Longrightarrow> proxy_inv 3 r p (cooled x)"
  by (simp add: cooled_def proxy_inv_def env_ok_def shared_ok_def list_all_iff breaker_inv_def new_breaker_def)

lemma cooled_trial:
  "\<exists>b x y. b < 3 \<and> proxy_inv 3 (main_ring 3) (warmed up_net) x \<and> trials b (px_sessions x) = 0 \<and>
     cb_state (sh_breakers (px_shared x) ! b) = OPEN \<and> recovering b x y \<and>
     cb_state (sh_breakers (px_shared y) ! b) = HALF_OPEN \<and> half_open_trial_in_flight (sh_breakers (px_shared y) ! b)"
proof -
  let ?key = "''10.0.0.1''"
  obtain w cid where w: "deployed up_net w" "px_shared w = px_shared (run up_net sample_proxy)"
    "px_sessions w = [new_session ?key cid 3]"
    using sample_accepted by blast
  define x where "x = cooled w"
  have inv: "proxy_inv 3 (main_ring 3) (warmed up_net) x" using cooled_inv [OF deployed_inv [OF w(1)]] by (simp add: x_def)
  then have ok: "shared_ok 3 (main_ring 3) (px_shared x)" by (simp add: proxy_inv_def env_ok_def)
  obtain b where b: "b < 3" "get_backend (main_ring 3) ?key = Some b" using main_ring_picks by blast
  have "free_sockets (sh_pool (px_shared x)) ! b \<noteq> []" using warmed_up [OF b(1)] by (simp add: x_def cooled_def w(2) sample_shared)
  then obtain fs sock where free: "free_sockets (sh_pool (px_shared x)) ! b = fs @ [sock]" by (metis rev_exhaust)
  have br: "sh_breakers (px_shared x) ! b = (new_breaker 5 2 5000)\<lparr>cb_state := OPEN, consecutive_failures := 5\<rparr>"
    "length (sh_breakers (px_shared x)) = 3" "px_sessions x = [new_session ?key cid 3]"
    using b(1) by (simp_all add: x_def cooled_def w(3))
  have "\<exists>br'. allow_request (clock (px_shared x) (ticks (px_shared x))) (sh_breakers (px_shared x) ! b) = (True, br') \<and>
      cb_state br' = HALF_OPEN \<and> half_open_trial_in_flight br'"
    unfolding br by (simp add: x_def cooled_def new_breaker_def allow_request_def cooldown_nanos_def)
  then obtain br' where allow: "allow_request (clock (px_shared x) (ticks (px_shared x))) (sh_breakers (px_shared x) ! b) = (True, br')"
    and half: "cb_state br' = HALF_OPEN" "half_open_trial_in_flight br'" by blast
  obtain sh s where step: "step Start (px_shared x, px_sessions x ! 0) = Some (sh, s)"
    and sh: "sh_breakers sh = (sh_breakers (px_shared x))[b := br']"
    using granted_start [OF ok b(2) _ allow free, of 3 cid] br(3) by auto
  have "cb_state (sh_breakers (px_shared x) ! b) = OPEN" using br(1) by simp
  moreover have "trials b (px_sessions x) = 0" by (simp add: br trials_def busy_on_def new_session_def)
  moreover have "sh_breakers sh ! b = br'" using sh b(1) br(2) by simp
  moreover have "proxy_step x (x\<lparr>px_shared := sh, px_sessions := (px_sessions x)[0 := s]\<rparr>)"
    using proxy_step.session [OF _ step] br(3) by simp
  ultimately have "recovering b x (x\<lparr>px_shared := sh, px_sessions := (px_sessions x)[0 := s]\<rparr>)"
    using recovering.on [OF recovering.tripped, of x b] half(1) by simp
  then show ?thesis
    using b(1) inv half \<open>sh_breakers sh ! b = br'\<close> \<open>trials b (px_sessions x) = 0\<close> \<open>cb_state _ = OPEN\<close>
    by (intro exI conjI) (assumption | simp)+
qed

end
