(* ===== verification/Proxy_Views.thy ===== *)
theory Proxy_Views
  imports Proxy_Main
begin

text \<open>
  What \<open>Session_Views\<close> shows of one session, for the whole process: the gauges of a scrape, a backend
  behind an open breaker, and who owns which socket.
\<close>

section \<open>Gauges\<close>

lemma deployed_gauges:
  assumes "deployed envs x"
  shows "gauges_ok 3 (free_sockets (warmed envs)) (px_shared x)"
  using assms
proof (induction rule: deployed_shared)
  case (start rate cap clk out)
  show ?case
    using warmed_frame(3) [of envs]
    by (auto simp: gauges_ok_def run_def initial_proxy_def split_def Let_def new_metrics_def main_backends_def
        new_breaker_def state_def less_Suc_eq numeral_3_eq_3)
next
  case (rejected sh)
  then show ?case by (simp add: gauges_ok_def record_rate_limited_def Let_def)
next
  case (session e sh s sh' s')
  then have "keeps_gauges 3 (free_sockets (warmed envs)) (sh, s) (sh', s')" using ga.R_every_step by simp
  then show ?case using session(1) by (simp add: keeps_gauges_def)
qed

section \<open>Configuration\<close>

lemma deployed_thresholds:
  assumes "deployed envs x"
  shows "map thresholds (sh_breakers (px_shared x)) = replicate 3 (5, 2, 5000)"
  using assms
proof (induction rule: deployed_shared)
  case (start rate cap clk out)
  show ?case
    by (simp add: run_def initial_proxy_def split_def Let_def main_backends_def thresholds_def new_breaker_def numeral_3_eq_3)
next
  case (session e sh s sh' s')
  then have "keeps_thresholds (sh, s) (sh', s')" using th.R_every_step by simp
  then show ?case using session(1) by (simp add: keeps_thresholds_def)
qed simp

text \<open>The counters of every breaker.\<close>

definition breaker_bounds :: "circuit_breaker \<Rightarrow> bool" where
  "breaker_bounds br \<longleftrightarrow>
     consecutive_failures br \<in> {0..5} \<and> (cb_state br = CLOSED \<longrightarrow> consecutive_failures br < 5) \<and>
     consecutive_successes br \<in> {0, 1} \<and> (half_open_trial_in_flight br \<longrightarrow> cb_state br = HALF_OPEN)"

lemma deployed_breakers:
  assumes "deployed envs x" and "br \<in> set (sh_breakers (px_shared x))"
  shows "breaker_bounds br"
proof -
  have "thresholds br \<in> set (map thresholds (sh_breakers (px_shared x)))" using assms(2) by simp
  then have "failure_threshold br = 5" "success_threshold br = 2"
    unfolding deployed_thresholds [OF assms(1)] by (auto simp: thresholds_def)
  moreover have "breaker_inv br"
    using deployed_inv [OF assms(1)] assms(2) by (simp add: proxy_inv_def env_ok_def shared_ok_def list_all_iff)
  ultimately show ?thesis by (cases "cb_state br") (auto simp: breaker_inv_def breaker_bounds_def)
qed

text \<open>With its shards in place the limiter always answers, so that the listener never fails to.\<close>

lemma listen_once_total: "shards_inv (px_limiter x) \<Longrightarrow> listen_once a x \<noteq> None"
proof -
  assume "shards_inv (px_limiter x)"
  then have "allow t key (px_limiter x) \<noteq> None" for t key using allow_refines_flat by fastforce
  then show ?thesis
    unfolding listen_once_def split_def Let_def by (auto split: sum.split option.split) (metis option.distinct(1))
qed

section \<open>Open breakers\<close>

text \<open>How often the breaker of a backend has let a request through.\<close>

definition grants_of :: "nat \<Rightarrow> proxy \<Rightarrow> nat" where
  "grants_of b x = sum_list (map (\<lambda>s. count_list (grants s) b) (px_sessions x))"

definition process_shields :: "nat \<Rightarrow> proxy \<Rightarrow> proxy \<Rightarrow> bool" where
  "process_shields b x y \<longleftrightarrow>
     clock (px_shared y) = clock (px_shared x) \<and> ticks (px_shared x) \<le> ticks (px_shared y) \<and>
     (cooling b (px_shared x) (ticks (px_shared y)) \<longrightarrow>
        stays_open b (px_shared x) (px_shared y) \<and> grants_of b y = grants_of b x)"

lemma process_shields_trans:
  "process_shields b x y \<Longrightarrow> process_shields b y z \<Longrightarrow> process_shields b x z"
  using cooling_mono [of b "px_shared x" "ticks (px_shared z)" "ticks (px_shared y)"]
    cooling_later [of b "px_shared x" "ticks (px_shared z)" "px_shared y"]
  by (auto simp: process_shields_def stays_open_def)

lemma process_shields_frame:
  assumes "px_shared y = px_shared x\<lparr>sh_metrics := m\<rparr>" and "grants_of b y = grants_of b x"
  shows "process_shields b x y"
  using assms by (simp add: process_shields_def stays_open_def cooling_def)

lemma process_shields_step:
  assumes "proxy_inv n r p x" and "proxy_step x y"
  shows "process_shields b x y"
  using assms(2)
proof cases
  case (accept a)
  then show ?thesis
    by (auto simp: listen_once_def split_def Let_def process_shields_def stays_open_def cooling_def grants_of_def
        new_session_def split: sum.splits option.splits if_splits)
next
  case (session i e sh s)
  have "list_all (session_inv n r) (px_sessions y)"
    using proxy_inv_step [OF assms] by (simp add: proxy_inv_def)
  then have "session_inv n r s" using session(1,2) by (simp add: list_all_iff set_update_memI)
  then have "pc s \<noteq> Died e" for e by (auto simp: session_inv_def)
  then have sd: "shields b (px_shared x, px_sessions x ! i) (sh, s)" using sd.R_every_step [OF session(3)] by simp
  have "grants_of b y = grants_of b x" if "count_list (grants s) b = count_list (grants (px_sessions x ! i)) b"
    using sum_list_split [OF session(2), of "\<lambda>s. count_list (grants s) b"] that session(1)
    by (metis (no_types, lifting) grants_of_def list_update_id proxy.select_convs(4) proxy.surjective proxy.update_convs(1,4))
  then show ?thesis using sd session(1) by (simp add: process_shields_def shields_def)
qed (auto simp: process_shields_def stays_open_def cooling_def grants_of_def metrics_listen_once_def reap_once_def
    split_def Let_def split: sum.splits)

lemma process_shields_reachable:
  assumes "proxy_reachable x y" and "proxy_inv n r p x"
  shows "process_shields b x y"
  using assms(1)
proof (induction rule: proxy_reachable.induct)
  case start
  show ?case by (simp add: process_shields_def stays_open_def cooling_def)
next
  case (more y z)
  then show ?case
    using process_shields_trans process_shields_step proxy_inv_reachable [OF _ assms(2)] by blast
qed

section \<open>Who owns which socket\<close>

definition all_ids :: "proxy \<Rightarrow> nat multiset" where
  "all_ids x = idle_ids (sh_pool (px_shared x)) + sum_list (map sock_ids (px_sessions x))"

text \<open>The kernel hands out no socket that is still in use.\<close>

definition fresh_socket :: "net \<Rightarrow> nat \<Rightarrow> proxy \<Rightarrow> bool" where
  "fresh_socket env i x \<longleftrightarrow>
     (case connect (sh_pool (px_shared x)) (backend_index (px_sessions x ! i)) env of
        Inl e \<Rightarrow> True | Inr sock \<Rightarrow> sock_id sock \<notin># all_ids x)"

fun fresh_sockets :: "proxy_event list \<Rightarrow> proxy \<Rightarrow> bool" where
  "fresh_sockets [] x \<longleftrightarrow> True"
| "fresh_sockets (e # es) x \<longleftrightarrow>
     (case e of Session_Runs i (Connected env) \<Rightarrow> i < length (px_sessions x) \<longrightarrow> fresh_socket env i x | _ \<Rightarrow> True) \<and>
     (case proxy_exec e x of None \<Rightarrow> True | Some y \<Rightarrow> fresh_sockets es y)"

definition exclusive :: "proxy \<Rightarrow> bool" where
  "exclusive x \<longleftrightarrow> (\<forall>k. count (all_ids x) k \<le> 1)"

lemma exclusive_session:
  assumes "exclusive x" and "i < length (px_sessions x)" and "proxy_inv n r p x"
    and "step e (px_shared x, px_sessions x ! i) = Some (sh, s)" and "\<And>x. pc s \<noteq> Died x"
    and "\<And>env. e = Connected env \<Longrightarrow> fresh_socket env i x"
  shows "exclusive (x\<lparr>px_shared := sh, px_sessions := (px_sessions x)[i := s]\<rparr>)" (is "exclusive ?y")
proof -
  let ?s = "px_sessions x ! i"
  obtain H where H: "\<And>s. sum_list (map sock_ids ((px_sessions x)[i := s])) = H + sock_ids s"
    using sum_list_split [OF assms(2), of sock_ids] by blast
  have x: "all_ids x = wealth (px_shared x, ?s) + H"
    using H [of ?s] by (simp add: all_ids_def wealth_def ac_simps)
  have y: "all_ids ?y = wealth (sh, s) + H" using H by (simp add: all_ids_def wealth_def ac_simps)
  from so.R_step [OF assms(4)] assms(5) consider "thrifty (px_shared x, ?s) (sh, s)"
    | env where "e = Connected env" "so.joined env (px_shared x, ?s) (sh, s)" by auto
  then show ?thesis
  proof cases
    case 1
    then have "all_ids ?y \<subseteq># all_ids x" by (simp add: x y thrifty_def)
    then show ?thesis
      using assms(1) unfolding exclusive_def by (meson le_trans mset_subset_eq_count)
  next
    case 2
    then obtain sock q d where c: "connect (sh_pool (px_shared x)) (backend_index ?s) env = Inr sock"
      "acquire_end (backend_index ?s) (Inr sock) (sh_pool (px_shared x)) = Inr (sock, q)"
      "seq (selected (backend_index ?s) ?s) ((px_shared x)\<lparr>sh_pool := q\<rparr>, with_socket (backend_index ?s) sock ?s) = Inr d"
      "thrifty d (sh, s)" by (auto simp: so.joined_def)
    have fresh: "sock_id sock \<notin># all_ids x" using assms(6) [OF 2(1)] c(1) by (simp add: fresh_socket_def)
    have "wealth d = add_mset (sock_id sock) (idle_ids (sh_pool (px_shared x)))"
      using c(2,3) by (auto simp: wealth_def sock_ids_def seq_simps acquire_end_def add_active_def idle_ids_def)
    then have "wealth d \<subseteq># add_mset (sock_id sock) (wealth (px_shared x, ?s))" by (simp add: wealth_def)
    then have "all_ids ?y \<subseteq># add_mset (sock_id sock) (all_ids x)"
      using c(4) subset_mset.add_mono [of "wealth (sh, s)" "add_mset (sock_id sock) (wealth (px_shared x, ?s))" H H]
      by (simp add: x y thrifty_def)
    then have "count (all_ids ?y) k \<le> count (add_mset (sock_id sock) (all_ids x)) k" for k
      by (rule mset_subset_eq_count)
    moreover have "count (add_mset (sock_id sock) (all_ids x)) k \<le> 1" for k
      using assms(1) fresh by (auto simp: exclusive_def not_in_iff)
    ultimately show ?thesis unfolding exclusive_def using le_trans by blast
  qed
qed

lemma exclusive_exec:
  assumes "exclusive x" and "proxy_inv n r p x" and "proxy_exec e x = Some y" and "fresh_sockets [e] x"
  shows "exclusive y"
proof (cases e)
  case (Accepts a)
  have "all_ids y = all_ids x" if "listen_once a x = Some y" for y
    using that by (auto simp: all_ids_def listen_once_def split_def Let_def new_session_def sock_ids_def
        split: sum.splits option.splits if_splits)
  then show ?thesis using assms(1,3) Accepts by (auto simp: exclusive_def split: if_splits)
next
  case (Session_Runs i ev)
  then obtain sh s where i: "i < length (px_sessions x)"
    and st: "step ev (px_shared x, px_sessions x ! i) = Some (sh, s)"
    and y: "y = x\<lparr>px_shared := sh, px_sessions := (px_sessions x)[i := s]\<rparr>"
    using assms(3) by (auto split: if_splits)
  have "list_all (session_inv n r) (px_sessions y)"
    using proxy_inv_step [OF assms(2) proxy_exec_step [OF assms(3)]] by (simp add: proxy_inv_def)
  then have "session_inv n r s" using i y by (simp add: list_all_iff set_update_memI)
  then have "pc s \<noteq> Died e" for e by (auto simp: session_inv_def)
  then show ?thesis
    unfolding y using Session_Runs assms(4) i by (intro exclusive_session [OF assms(1) i assms(2) st]) auto
qed (use assms(1,3) in \<open>auto simp: exclusive_def all_ids_def metrics_listen_once_def reap_once_def split_def Let_def
    split: if_splits sum.splits\<close>)

lemma exclusive_exec_all:
  assumes "exclusive x" and "proxy_inv n r p x" and "exec_all es x = Some y" and "fresh_sockets es x"
  shows "exclusive y"
  using assms
proof (induction es arbitrary: x)
  case (Cons e es)
  then obtain z where z: "proxy_exec e x = Some z" "exec_all es z = Some y" by (auto split: bind_splits)
  have "exclusive z" using exclusive_exec [OF Cons.prems(1,2) z(1)] Cons.prems(4) z(1) by simp
  moreover have "proxy_inv n r p z" using proxy_inv_step [OF Cons.prems(2) proxy_exec_step [OF z(1)]] .
  ultimately show ?case using Cons.IH z Cons.prems(4) by simp
qed simp

text \<open>What exclusiveness says.\<close>

lemma sum_list_submset: "s \<in> set ss \<Longrightarrow> f s \<subseteq># sum_list (map f ss)" for f :: "session \<Rightarrow> nat multiset"
  by (induction ss) (auto intro: subset_mset.order_trans)

lemma exclusive_idle:
  assumes "exclusive x" and "s \<in> set (px_sessions x)" and "backend_socket s = Some sock"
  shows "sock_id sock \<notin># idle_ids (sh_pool (px_shared x))"
proof -
  obtain i where i: "i < length (px_sessions x)" "px_sessions x ! i = s" using assms(2) by (auto simp: in_set_conv_nth)
  obtain H where "\<And>s. sum_list (map sock_ids ((px_sessions x)[i := s])) = H + sock_ids s"
    using sum_list_split [OF i(1), of sock_ids] by blast
  then have "sum_list (map sock_ids (px_sessions x)) = H + sock_ids s" using i by (metis list_update_id)
  then have "count (idle_ids (sh_pool (px_shared x))) (sock_id sock) + 1 \<le> count (all_ids x) (sock_id sock)"
    using assms(3) by (simp add: all_ids_def sock_ids_def)
  then show ?thesis using assms(1) by (metis One_nat_def add_le_same_cancel2 count_eq_zero_iff exclusive_def le_trans le_zero_eq)
qed

lemma exclusive_sessions:
  assumes "exclusive x" and "i < length (px_sessions x)" and "j < length (px_sessions x)" and "i \<noteq> j"
    and "backend_socket (px_sessions x ! i) = Some a" and "backend_socket (px_sessions x ! j) = Some b"
  shows "sock_id a \<noteq> sock_id b"
proof
  assume same: "sock_id a = sock_id b"
  let ?ss = "px_sessions x" and ?none = "(px_sessions x ! j)\<lparr>backend_socket := None\<rparr>"
  obtain H where H: "\<And>s. sum_list (map sock_ids (?ss[j := s])) = H + sock_ids s"
    using sum_list_split [OF assms(3), of sock_ids] by blast
  have "sock_ids (?ss ! i) \<subseteq># sum_list (map sock_ids (?ss[j := ?none]))"
    using assms(2,4) by (intro sum_list_submset) (auto simp: in_set_conv_nth intro!: exI [of _ i])
  then have "{#sock_id a#} \<subseteq># H" using H [of ?none] assms(5) by (simp add: sock_ids_def)
  then have "2 \<le> count (H + sock_ids (?ss ! j)) (sock_id b)"
    using same assms(6) by (auto simp: sock_ids_def dest: mset_subset_eq_count [of _ _ "sock_id a"])
  moreover have "sum_list (map sock_ids ?ss) = H + sock_ids (?ss ! j)" using H [of "?ss ! j"] by simp
  ultimately have "2 \<le> count (all_ids x) (sock_id b)" by (simp add: all_ids_def)
  then show False using assms(1) unfolding exclusive_def by (metis One_nat_def Suc_1 Suc_n_not_le_n le_trans)
qed

section \<open>Sample states\<close>

lemma exclusive_sample: "exclusive (run up_net sample_proxy)"
proof -
  have len: "length (free_sockets (warmed up_net)) = 3" using warmed_frame [of up_net] by (simp add: pool_ok_def)
  have "map sock_id (free_sockets (warmed up_net) ! b) = map (\<lambda>n. 4 * b + n) [0..<4]" if "b < 3" for b
    using that by (subst warmed_free, assumption) (auto simp: warm_successes_def connect_def up_net_def new_pool_def
        main_backends_def less_Suc_eq numeral_3_eq_3 upt_rec)
  then have "map (map sock_id) (free_sockets (warmed up_net)) = map (\<lambda>b. map (\<lambda>n. 4 * b + n) [0..<4]) [0..<3]"
    using len by (intro nth_equalityI) simp_all
  then have "idle_ids (warmed up_net) = mset (concat (map (\<lambda>b. map (\<lambda>n. 4 * b + n) [0..<4]) [0..<3]))"
    by (simp add: idle_ids_def map_concat flip: mset_map)
  also have "concat (map (\<lambda>b. map (\<lambda>n. 4 * b + n) [0..<4]) [0..<3]) = [0..<12]" by (simp add: upt_rec)
  finally have ids: "idle_ids (warmed up_net) = mset [0..<12]" .
  obtain out where x: "sample_proxy = (initial_proxy 10 20 (\<lambda>_. 0))\<lparr>px_out := out\<rparr>" using sample_start(2) by blast
  have "px_sessions (run up_net sample_proxy) = []" by (simp add: x run_def split_def Let_def initial_proxy_def)
  then have "all_ids (run up_net sample_proxy) = mset [0..<12]" using ids by (simp add: all_ids_def sample_shared)
  then show ?thesis using distinct_count_atmost_1 [of "[0..<12]"] by (simp add: exclusive_def del: upt_conv_Cons)
qed

text \<open>The proxy after the breaker of backend 0 has just tripped.\<close>

definition tripped_sample :: proxy where
  "tripped_sample = (let x = run up_net sample_proxy; sh = px_shared x in
     x\<lparr>px_shared := sh\<lparr>sh_breakers := (sh_breakers sh)[0 := (new_breaker 5 2 5000)\<lparr>cb_state := OPEN, consecutive_failures := 5\<rparr>]\<rparr>\<rparr>)"

lemma tripped_sample_inv: "proxy_inv 3 (main_ring 3) (warmed up_net) tripped_sample"
proof -
  have "proxy_inv 3 (main_ring 3) (warmed up_net) (run up_net sample_proxy)"
    using deployed_inv [OF deployed_start [OF sample_start(1)]] .
  moreover have "breaker_inv ((new_breaker 5 2 5000)\<lparr>cb_state := OPEN, consecutive_failures := 5\<rparr>)"
    by (simp add: breaker_inv_def new_breaker_def)
  ultimately show ?thesis
    by (auto simp: tripped_sample_def proxy_inv_def Let_def env_ok_def shared_ok_def list_all_iff
        dest: set_update_subset_insert [THEN subsetD])
qed

lemma tripped_sample_open:
  "cb_state (sh_breakers (px_shared tripped_sample) ! 0) = OPEN" "clock (px_shared tripped_sample) = (\<lambda>_. 0)"
  "opened_at (sh_breakers (px_shared tripped_sample) ! 0) = 0"
  "cooldown_nanos (sh_breakers (px_shared tripped_sample) ! 0) = 5000000000" "px_listening tripped_sample"
proof -
  obtain out where x: "sample_proxy = (initial_proxy 10 20 (\<lambda>_. 0))\<lparr>px_out := out\<rparr>" using sample_start(2) by blast
  have "length (sh_breakers (px_shared (run up_net sample_proxy))) = 3"
    "clock (px_shared (run up_net sample_proxy)) = (\<lambda>_. 0)" "px_listening (run up_net sample_proxy)"
    by (simp_all add: x run_def split_def Let_def initial_proxy_def main_backends_def)
  then show "cb_state (sh_breakers (px_shared tripped_sample) ! 0) = OPEN" "clock (px_shared tripped_sample) = (\<lambda>_. 0)"
    "opened_at (sh_breakers (px_shared tripped_sample) ! 0) = 0"
    "cooldown_nanos (sh_breakers (px_shared tripped_sample) ! 0) = 5000000000" "px_listening tripped_sample"
    by (simp_all add: tripped_sample_def Let_def new_breaker_def cooldown_nanos_def)
qed

end
