(* ===== verification/Proxy_Limits.thy ===== *)
theory Proxy_Limits
  imports Proxy_Main
begin

text \<open>
  The rate limit of the whole process. Every session was admitted by the limiter, which is also reaped
  in the background; when a reaped bucket would have been full again anyway, the sessions of a
  client are exactly the requests a token bucket of its own would have admitted.
\<close>

section \<open>What reaches the limiter\<close>

definition arrival_request :: "arrival \<Rightarrow> (nanos \<times> string) list" where
  "arrival_request a =
     (case (ar_accept a, ar_no_delay a, ar_remote a) of
        (Inr _, Inr _, Some key) \<Rightarrow> [(ar_now a, key)] | _ \<Rightarrow> [])"

fun event_requests :: "proxy_event \<Rightarrow> (nanos \<times> string) list" where
  "event_requests (Accepts a) = arrival_request a"
| "event_requests _ = []"

fun clock_readings :: "proxy_event \<Rightarrow> nanos list" where
  "clock_readings (Accepts a) = map fst (arrival_request a)"
| "clock_readings (Reaps (Inr _) now) = [now]"
| "clock_readings _ = []"

definition requests_of :: "proxy_event list \<Rightarrow> (nanos \<times> string) list" where
  "requests_of es = concat (map event_requests es)"

definition readings_of :: "proxy_event list \<Rightarrow> nanos list" where
  "readings_of es = concat (map clock_readings es)"

definition sessions_of :: "string \<Rightarrow> proxy \<Rightarrow> nat" where
  "sessions_of key x = length (filter (\<lambda>s. client_key s = key) (px_sessions x))"

lemma requests_readings: "subseq (map fst (requests_of es)) (readings_of es)"
proof (induction es)
  case (Cons e es)
  have "subseq (map fst (event_requests e)) (clock_readings e)" by (cases e rule: clock_readings.cases) simp_all
  then show ?case using Cons list_emb_append_mono by (simp add: requests_of_def readings_of_def) blast
qed (simp add: requests_of_def readings_of_def)

lemma sorted_subseq: "subseq xs ys \<Longrightarrow> sorted ys \<Longrightarrow> sorted xs" for xs ys :: "nanos list"
  by (auto simp: subseq_conv_nths intro: sorted_nths)

lemma sorted_times:
  assumes "sorted (readings_of es)"
  shows "sorted (times_of key (requests_of es))"
proof -
  have "subseq (filter (\<lambda>r. snd r = key) (requests_of es)) (requests_of es)" by (rule subseq_filter_left)
  then have "subseq (times_of key (requests_of es)) (map fst (requests_of es))"
    unfolding times_of_def by (rule subseq_map)
  then show ?thesis using sorted_subseq requests_readings assms subseq_order.order_trans by blast
qed

section \<open>Runs of the limiter, one request more\<close>

lemma serve_snoc:
  "serve (reqs @ [(t, ip)]) rl =
     (case serve reqs rl of None \<Rightarrow> None
      | Some (oks, rl1) \<Rightarrow> (case allow t ip rl1 of None \<Rightarrow> None | Some (ok, rl2) \<Rightarrow> Some (oks @ [ok], rl2)))"
  by (induction reqs arbitrary: rl) (auto split: option.splits)

lemma answers_to_snoc:
  "length oks = length reqs \<Longrightarrow>
   answers_to key (reqs @ [(t, ip)]) (oks @ [ok]) = answers_to key reqs oks @ (if ip = key then [ok] else [])"
  by (simp add: answers_to_def)

lemma admitted_append: "admitted (xs @ ys) = admitted xs + admitted ys"
  by (simp add: admitted_def)

lemma same_from_later: "same_from rate cap now m m' \<Longrightarrow> now \<le> t \<Longrightarrow> same_from rate cap t m m'"
  by (auto simp: same_from_def)

lemma same_from_replace:
  "same_from rate cap now m m' \<Longrightarrow> same_from rate cap now m n \<Longrightarrow> same_from rate cap now n m'"
  by (simp add: same_from_def)

section \<open>The limiter of the process\<close>

text \<open>The limiter of the process cannot be told from one that served the same requests and was never
  reaped, and the sessions are the requests that one admitted.\<close>

definition limited :: "rate_limiter \<Rightarrow> nanos \<Rightarrow> (nanos \<times> string) list \<Rightarrow> proxy \<Rightarrow> bool" where
  "limited rl0 now reqs x \<longleftrightarrow>
     (let rl = px_limiter x; rate = refill_rate_per_sec rl0; cap = capacity rl0 in
      refill_rate_per_sec rl = rate \<and> capacity rl = cap \<and> limiter_ok rl \<and>
      (\<forall>ip b. flat rl ip = Some b \<longrightarrow> last_refill b \<le> now) \<and>
      (\<exists>oks rl'. serve reqs rl0 = Some (oks, rl') \<and> length oks = length reqs \<and> shards_inv rl' \<and>
         refill_rate_per_sec rl' = rate \<and> capacity rl' = cap \<and> same_from rate cap now (flat rl) (flat rl') \<and>
         (\<forall>key. admitted (answers_to key reqs oks) = sessions_of key x)))"

lemma limited_later: "limited rl0 now reqs x \<Longrightarrow> now \<le> t \<Longrightarrow> limited rl0 t reqs x"
  unfolding limited_def Let_def using same_from_later by (meson order_trans)

lemma limited_cong:
  "limited rl0 now reqs x \<Longrightarrow> px_limiter y = px_limiter x \<Longrightarrow> map client_key (px_sessions y) = map client_key (px_sessions x) \<Longrightarrow>
   limited rl0 now reqs y"
proof -
  assume keys: "map client_key (px_sessions y) = map client_key (px_sessions x)"
  have "sessions_of key z = length (filter (\<lambda>k. k = key) (map client_key (px_sessions z)))" for key z
    by (simp add: sessions_of_def filter_map comp_def)
  with keys have "sessions_of key y = sessions_of key x" for key by metis
  then show "limited rl0 now reqs x \<Longrightarrow> px_limiter y = px_limiter x \<Longrightarrow> limited rl0 now reqs y"
    by (simp add: limited_def)
qed

lemma limited_sessions:
  "limited rl0 now reqs x \<Longrightarrow> \<exists>oks rl'. serve reqs rl0 = Some (oks, rl') \<and> admitted (answers_to key reqs oks) = sessions_of key x"
  by (auto simp: limited_def Let_def)

lemma limited_start:
  assumes "0 < n"
  shows "px_limiter x = new_limiter rate cap n \<Longrightarrow> px_sessions x = [] \<Longrightarrow> limited (px_limiter x) now [] x"
  using assms shards_inv_new [of n rate cap]
  by (simp add: limited_def Let_def limiter_ok_def flat_new same_from_def answers_to_def admitted_def sessions_of_def)

text \<open>The limiter's side of an iteration of \<^verbatim>\<open>listen\<close>.\<close>

lemma listen_limiter:
  assumes "listen_once a x = Some y"
  shows "case arrival_request a of
      [] \<Rightarrow> px_limiter y = px_limiter x \<and> px_sessions y = px_sessions x
    | (t, key) # _ \<Rightarrow> arrival_request a = [(t, key)] \<and>
        (\<exists>ok. allow t key (px_limiter x) = Some (ok, px_limiter y) \<and>
          (\<forall>k. sessions_of k y = sessions_of k x + of_bool (ok \<and> k = key)))"
proof (cases "arrival_request a")
  case Nil
  then show ?thesis
    using assms by (auto simp: listen_once_def arrival_request_def split_def Let_def split: sum.splits option.splits)
next
  case (Cons r rs)
  then obtain u v key where a: "ar_accept a = Inr u" "ar_no_delay a = Inr v" "ar_remote a = Some key"
    "r = (ar_now a, key)" "rs = []"
    by (auto simp: arrival_request_def split: sum.splits option.splits)
  obtain ok l where ok: "allow (ar_now a) key (px_limiter x) = Some (ok, l)"
    using assms a(1-3) by (auto simp: listen_once_def split_def Let_def split: option.splits)
  with assms a(1-3) have "px_limiter y = l" "\<forall>k. sessions_of k y = sessions_of k x + of_bool (ok \<and> k = key)"
    by (auto simp: listen_once_def split_def Let_def sessions_of_def new_session_def split: if_splits)
  then show ?thesis using Cons a(4,5) ok by simp
qed

lemma limited_accept:
  assumes "limited rl0 now reqs x" and "is_double (capacity rl0)" and "0 \<le> capacity rl0" and "0 \<le> refill_rate_per_sec rl0"
    and "now \<le> t" and "allow t key (px_limiter x) = Some (ok, px_limiter y)"
    and "\<forall>k. sessions_of k y = sessions_of k x + of_bool (ok \<and> k = key)"
  shows "limited rl0 t (reqs @ [(t, key)]) y"
proof -
  let ?rate = "refill_rate_per_sec rl0" and ?cap = "capacity rl0" and ?rl = "px_limiter x"
  obtain oks rl' where l: "refill_rate_per_sec ?rl = ?rate" "capacity ?rl = ?cap" "limiter_ok ?rl"
    "\<forall>ip b. flat ?rl ip = Some b \<longrightarrow> last_refill b \<le> now"
    "serve reqs rl0 = Some (oks, rl')" "length oks = length reqs" "shards_inv rl'"
    "refill_rate_per_sec rl' = ?rate" "capacity rl' = ?cap" "same_from ?rate ?cap now (flat ?rl) (flat rl')"
    "\<forall>key. admitted (answers_to key reqs oks) = sessions_of key x"
    using assms(1) unfolding limited_def Let_def by blast
  have inv: "shards_inv ?rl" using l(3) by (simp add: limiter_ok_def)
  have mine: "flat_allow ?rate ?cap t key (flat ?rl) = (ok, flat (px_limiter y))"
    "refill_rate_per_sec (px_limiter y) = ?rate" "capacity (px_limiter y) = ?cap"
    using allow_refines_flat [OF inv, of t key] assms(6) l(1,2) by auto
  obtain ok' rl'' where other: "allow t key rl' = Some (ok', rl'')"
    "flat_allow ?rate ?cap t key (flat rl') = (ok', flat rl'')" "shards_inv rl''"
    "refill_rate_per_sec rl'' = ?rate" "capacity rl'' = ?cap"
    using allow_refines_flat [OF l(7), of t key] l(8,9) by auto
  have "ok = ok'" and same: "same_from ?rate ?cap t (flat (px_limiter y)) (flat rl'')"
    using same_from_step [OF l(10) assms(5) mine(1) other(2)] by auto
  then have s: "serve (reqs @ [(t, key)]) rl0 = Some (oks @ [ok], rl'')"
    using l(5) other(1) by (simp add: serve_snoc)
  have "\<forall>ip b. flat ?rl ip = Some b \<longrightarrow> last_refill b \<le> t" using l(4) assms(5) by (meson order_trans)
  then have ok: "limiter_ok (px_limiter y)" "\<forall>ip b. flat (px_limiter y) ip = Some b \<longrightarrow> last_refill b \<le> t"
    using allow_limiter_ok [OF _ _ _ l(3) _ assms(6)] assms(2-4) l(1,2) by auto
  have "\<forall>k. admitted (answers_to k (reqs @ [(t, key)]) (oks @ [ok])) = sessions_of k y"
    using l(11) assms(7) by (simp add: answers_to_snoc [OF l(6)] admitted_append) (simp add: admitted_def)
  then show ?thesis
    unfolding limited_def Let_def
    using mine(2,3) ok s l(6) other(3-5) same by (intro conjI exI) (assumption | simp)+
qed

lemma limited_reap:
  assumes "limited rl0 now reqs x" and "is_double (capacity rl0)" and "0 \<le> refill_rate_per_sec rl0"
    and "capacity rl0 \<le> credit (refill_rate_per_sec rl0) reap_period_threshold" and "now \<le> t"
    and "px_limiter y = snd (reap_idle t reap_period_threshold (px_limiter x))" and "px_sessions y = px_sessions x"
  shows "limited rl0 t reqs y"
proof -
  let ?rate = "refill_rate_per_sec rl0" and ?cap = "capacity rl0" and ?rl = "px_limiter x"
  from limited_later [OF assms(1,5)]
  obtain oks rl' where l: "refill_rate_per_sec ?rl = ?rate" "capacity ?rl = ?cap" "limiter_ok ?rl"
    "\<forall>ip b. flat ?rl ip = Some b \<longrightarrow> last_refill b \<le> t"
    "serve reqs rl0 = Some (oks, rl')" "length oks = length reqs" "shards_inv rl'"
    "refill_rate_per_sec rl' = ?rate" "capacity rl' = ?cap" "same_from ?rate ?cap t (flat ?rl) (flat rl')"
    "\<forall>key. admitted (answers_to key reqs oks) = sessions_of key x"
    unfolding limited_def Let_def by blast
  have inv: "shards_inv ?rl" using l(3) by (simp add: limiter_ok_def)
  have kept: "flat (px_limiter y) ip = Some b \<Longrightarrow> flat ?rl ip = Some b" for ip b
    by (auto simp: assms(6) flat_reap_idle [OF inv] split: option.splits if_splits)
  have "same_from ?rate ?cap t (flat ?rl) (flat (px_limiter y))"
    using reap_same_from [of ?rl reap_period_threshold t] assms(2-4,6) l(1-3) by simp
  from same_from_replace [OF l(10) this] have same: "same_from ?rate ?cap t (flat (px_limiter y)) (flat rl')" .
  have "limiter_ok (px_limiter y)"
    using l(3) kept shards_inv_reap [OF inv] unfolding limiter_ok_def assms(6) reap_idle_frame by blast
  moreover have "\<forall>key. sessions_of key y = sessions_of key x" by (simp add: sessions_of_def assms(7))
  ultimately show ?thesis
    unfolding limited_def Let_def
    using l kept same by (intro conjI exI) (assumption | simp add: assms(6) | blast)+
qed

lemma deployed_keys:
  assumes "deployed envs x" and "proxy_exec (Session_Runs i e) x = Some y"
  shows "px_limiter y = px_limiter x \<and> map client_key (px_sessions y) = map client_key (px_sessions x)"
proof -
  let ?t = "px_sessions x ! i"
  from assms(2) obtain sh s where i: "i < length (px_sessions x)" and st: "step e (px_shared x, ?t) = Some (sh, s)"
    and y: "y = x\<lparr>px_shared := sh, px_sessions := (px_sessions x)[i := s]\<rparr>"
    by (auto split: if_splits)
  have "s \<in> set (px_sessions y)" using i y by (simp add: set_update_memI)
  then have "pc s \<noteq> Died e" for e
    using deployed_alive [OF deployed_more [OF assms(1) proxy_exec_step [OF assms(2)]]] by blast
  moreover have "traced (client_key ?t, correlation_id ?t, default_max_attempts) ?t"
    using deployed_ids [OF assms(1)] i by (auto simp: ids_inv_def)
  ultimately have "traced (client_key ?t, correlation_id ?t, default_max_attempts) s"
    using tr.R_every_step [OF st] by (simp add: keeps_trace_def)
  then have "client_key s = client_key ?t" by (simp add: traced_def ident_def)
  then show ?thesis using y i by (simp add: map_update list_update_same_conv)
qed

section \<open>Runs of the process\<close>

text \<open>A limiter whose buckets fill up within the idle threshold of \<^verbatim>\<open>reap_loop\<close>.\<close>

definition refills_in_time :: "rate_limiter \<Rightarrow> bool" where
  "refills_in_time rl \<longleftrightarrow> is_double (capacity rl) \<and> 0 \<le> capacity rl \<and> 0 \<le> refill_rate_per_sec rl \<and>
     capacity rl \<le> credit (refill_rate_per_sec rl) reap_period_threshold"

lemma limited_exec:
  assumes "refills_in_time rl0" and "deployed envs x" and "limited rl0 now reqs x" and "proxy_exec e x = Some y"
    and "sorted (now # clock_readings e)"
  shows "limited rl0 (last (now # clock_readings e)) (reqs @ event_requests e) y"
proof (cases e)
  case (Accepts a)
  then have l: "listen_once a x = Some y" using assms(4) by (auto split: if_splits)
  show ?thesis
  proof (cases "arrival_request a")
    case Nil
    then show ?thesis using listen_limiter [OF l] limited_cong [OF assms(3)] Accepts by simp
  next
    case (Cons r rs)
    obtain t key where "r = (t, key)" by fastforce
    then show ?thesis
      using listen_limiter [OF l] limited_accept [OF assms(3)] assms(1,5) Accepts Cons
      by (auto simp: refills_in_time_def)
  qed
next
  case (Session_Runs i ev)
  then show ?thesis using deployed_keys [OF assms(2)] limited_cong [OF assms(3)] assms(4) by simp
next
  case (Reaps wait t)
  show ?thesis
  proof (cases wait)
    case (Inl err)
    then show ?thesis
      using limited_cong [OF assms(3)] assms(4) Reaps by (auto simp: reap_once_def split: if_splits)
  next
    case (Inr u)
    then have "px_limiter y = snd (reap_idle t reap_period_threshold (px_limiter x))" "px_sessions y = px_sessions x"
      using assms(4) Reaps by (auto simp: reap_once_def split_def Let_def split: if_splits)
    then show ?thesis
      using limited_reap [OF assms(3)] assms(1,5) Reaps Inr by (simp add: refills_in_time_def)
  qed
qed (use limited_cong [OF assms(3)] assms(4) in \<open>auto simp: metrics_listen_once_def split: if_splits sum.splits\<close>)

lemma limited_exec_all:
  assumes "refills_in_time rl0" and "deployed envs x" and "limited rl0 now reqs x" and "exec_all es x = Some y"
    and "sorted (now # readings_of es)"
  shows "\<exists>t. limited rl0 t (reqs @ requests_of es) y"
  using assms(2-5)
proof (induction es arbitrary: x now reqs)
  case (Cons e es)
  then obtain z where z: "proxy_exec e x = Some z" "exec_all es z = Some y" by (auto split: bind_splits)
  have r: "readings_of (e # es) = clock_readings e @ readings_of es" by (simp add: readings_of_def)
  have "sorted (now # clock_readings e)" and later: "sorted (last (now # clock_readings e) # readings_of es)"
    using Cons.prems(4) by (auto simp: r sorted_append)
  from Cons.IH [OF deployed_more [OF Cons.prems(1) proxy_exec_step [OF z(1)]]
      limited_exec [OF assms(1) Cons.prems(1,2) z(1) this(1)] z(2) later]
  show ?case by (simp add: requests_of_def)
qed (auto simp: requests_of_def)

lemma deployed_exec_all: "deployed envs x \<Longrightarrow> exec_all es x = Some y \<Longrightarrow> deployed envs y"
  by (induction es arbitrary: x) (auto split: bind_splits dest: proxy_exec_step deployed_more)

text \<open>The sessions of a client are the requests a bucket of its own admits.\<close>

lemma sessions_of_bucket:
  assumes "main_start stod open_acceptor clk args env_rps env_burst = Running lp mp x0"
    and "refills_in_time (px_limiter x0)" and "exec_all es (run envs x0) = Some y" and "sorted (readings_of es)"
  shows "sessions_of key y = admitted (fst (bucket_run (refill_rate_per_sec (px_limiter x0)) (capacity (px_limiter x0))
    (times_of key (requests_of es)) None))"
proof -
  obtain rate cap out where x0: "x0 = (initial_proxy rate cap clk)\<lparr>px_out := out\<rparr>"
    using main_start_Running [OF assms(1)] by blast
  then have lim: "px_limiter x0 = new_limiter rate cap 64" by (simp add: initial_proxy_def)
  have start: "px_limiter (run envs x0) = px_limiter x0" "px_sessions (run envs x0) = []"
    by (simp_all add: x0 run_def initial_proxy_def split_def Let_def)
  have dep: "deployed envs (run envs x0)" using assms(1) by (rule deployed_start)
  define now where "now = (case readings_of es of [] \<Rightarrow> 0 | t # _ \<Rightarrow> t)"
  have "sorted (now # readings_of es)" using assms(4) by (cases "readings_of es") (auto simp: now_def)
  moreover have "limited (px_limiter x0) now [] (run envs x0)"
    using limited_start [of 64 "run envs x0" rate cap now] start lim by simp
  ultimately obtain t where "limited (px_limiter x0) t (requests_of es) y"
    using limited_exec_all [OF assms(2) dep _ assms(3)] by fastforce
  then obtain oks rl' where s: "serve (requests_of es) (px_limiter x0) = Some (oks, rl')"
    "admitted (answers_to key (requests_of es) oks) = sessions_of key y"
    using limited_sessions by blast
  have "shards_inv (px_limiter x0)" "flat (px_limiter x0) key = None"
    by (simp_all add: lim shards_inv_new flat_new)
  with serve_client [OF this(1), of "requests_of es"] s show ?thesis by auto
qed

lemma sample_limiter: "px_limiter sample_proxy = new_limiter 10 20 64"
proof -
  obtain out where x: "sample_proxy = (initial_proxy 10 20 (\<lambda>_. 0))\<lparr>px_out := out\<rparr>" using sample_start(2) by blast
  show ?thesis by (simp add: x initial_proxy_def)
qed

lemma sample_refills: "refills_in_time (px_limiter sample_proxy)"
proof -
  have "(20 :: rat) \<le> credit 10 reap_period_threshold" by code_simp
  then show ?thesis by (simp add: refills_in_time_def sample_limiter is_double_numeral)
qed

end
