(* ===== verification/Unit_Tests.thy ===== *)
theory Unit_Tests
  imports Circuit_Breaker Rate_Limiter Ring_Certificate
begin

text \<open>
  The unit tests \<^verbatim>\<open>src/test_circuit_breaker.cpp\<close>, \<^verbatim>\<open>src/test_rate_limiter.cpp\<close> and
  \<^verbatim>\<open>src/test_hash_ring.cpp\<close> run on the model. A test of the breaker takes the readings of the clock as
  arguments and passes at all readings its sleeps allow. The tests of the limiter are run at
  the nominal times of their sleeps. The test of the ring is shown to pass for any list of
  keys, except its statistical part, the evenness of the distribution.
\<close>

section \<open>Circuit breaker\<close>

definition test_trips_after_threshold_failures :: "(nat \<Rightarrow> nanos) \<Rightarrow> nanos \<Rightarrow> bool" where
  "test_trips_after_threshold_failures t u =
     (let (ok, cb) = fold (\<lambda>i (ok, cb). let (a, cb) = allow_request (t i) cb in (ok \<and> a, record_failure (t i) cb))
                       [0..<3] (True, new_breaker 3 2 200);
          ok = (ok \<and> state cb = OPEN);
          (a, cb) = allow_request u cb
      in ok \<and> \<not> a)"

definition test_half_open_single_trial_gate :: "nanos \<Rightarrow> nanos \<Rightarrow> nanos \<Rightarrow> nanos \<Rightarrow> bool" where
  "test_half_open_single_trial_gate t1 t2 t3 t4 =
     (let cb = record_failure t2 (record_failure t1 (new_breaker 2 2 100));
          (first_trial, cb) = allow_request t3 cb;
          (second_concurrent, cb) = allow_request t4 cb
      in first_trial \<and> \<not> second_concurrent \<and> state cb = HALF_OPEN)"

definition test_half_open_failure_reopens_immediately :: "nanos \<Rightarrow> nanos \<Rightarrow> nanos \<Rightarrow> nanos \<Rightarrow> bool" where
  "test_half_open_failure_reopens_immediately t1 t2 t3 t4 =
     (let cb = record_failure t1 (new_breaker 1 2 50);
          (trial, cb) = allow_request t2 cb;
          cb = record_failure t3 cb;
          ok = (trial \<and> state cb = OPEN);
          (again, cb) = allow_request t4 cb
      in ok \<and> \<not> again)"

definition test_half_open_success_threshold_closes :: "nanos \<Rightarrow> nanos \<Rightarrow> nanos \<Rightarrow> bool" where
  "test_half_open_success_threshold_closes t1 t2 t3 =
     (let cb = record_failure t1 (new_breaker 1 2 50);
          (trial1, cb) = allow_request t2 cb;
          cb = record_success cb;
          still_half_open = (state cb = HALF_OPEN);
          (trial2, cb) = allow_request t3 cb;
          cb = record_success cb;
          closed = (state cb = CLOSED)
      in trial1 \<and> trial2 \<and> still_half_open \<and> closed)"

definition test_success_resets_failure_streak_in_closed :: "nanos \<Rightarrow> nanos \<Rightarrow> nanos \<Rightarrow> nanos \<Rightarrow> bool" where
  "test_success_resets_failure_streak_in_closed t1 t2 t3 t4 =
     (let cb = record_success (record_failure t2 (record_failure t1 (new_breaker 3 2 100)));
          cb = record_failure t4 (record_failure t3 cb)
      in state cb = CLOSED)"

lemmas breaker_test_simps = Let_def new_breaker_def state_def cooldown_nanos_def breaker_defs

lemma breaker_tests_pass:
  "u - t 2 < 200000000 \<Longrightarrow> test_trips_after_threshold_failures t u"
  "150000000 \<le> t3 - t2 \<Longrightarrow> test_half_open_single_trial_gate t1 t2 t3 t4"
  "80000000 \<le> t2 - t1 \<Longrightarrow> t4 - t3 < 50000000 \<Longrightarrow> test_half_open_failure_reopens_immediately t1 t2 t3 t4"
  "80000000 \<le> t2 - t1 \<Longrightarrow> test_half_open_success_threshold_closes t1 t2 t3"
  "test_success_resets_failure_streak_in_closed t1 t2 t3 t4"
  by (simp_all add: breaker_test_simps numeral_3_eq_3 numeral_2_eq_2 test_trips_after_threshold_failures_def
      test_half_open_single_trial_gate_def test_half_open_failure_reopens_immediately_def
      test_half_open_success_threshold_closes_def test_success_resets_failure_streak_in_closed_def)

section \<open>Rate limiter\<close>

text \<open>Eight requests at once, two more after 600 ms.\<close>

definition test_burst_and_refill :: bool where
  "test_burst_and_refill =
     (case serve (replicate 8 (0, ''1.2.3.4'')) (new_limiter 2 5 64) of
        None \<Rightarrow> False
      | Some (oks, limiter) \<Rightarrow> admitted oks = 5 \<and>
          (case allow 600000000 ''1.2.3.4'' limiter of
             None \<Rightarrow> False
           | Some (after_wait, limiter) \<Rightarrow>
               (case allow 600000000 ''1.2.3.4'' limiter of
                  None \<Rightarrow> False | Some (immediately_after, limiter) \<Rightarrow> after_wait \<and> \<not> immediately_after)))"

definition test_independent_clients :: bool where
  "test_independent_clients =
     (case serve (replicate 3 (0, ''10.0.0.1'')) (new_limiter 1 3 64) of
        None \<Rightarrow> False
      | Some (oks, limiter) \<Rightarrow> list_all (\<lambda>ok. ok) oks \<and>
          (case allow 0 ''10.0.0.2'' limiter of
             None \<Rightarrow> False
           | Some (b_allowed, limiter) \<Rightarrow>
               (case allow 0 ''10.0.0.1'' limiter of
                  None \<Rightarrow> False | Some (a_allowed, limiter) \<Rightarrow> b_allowed \<and> \<not> a_allowed)))"

definition test_reap :: bool where
  "test_reap =
     (case serve (map (\<lambda>i. (0, ''client-'' @ to_string i)) [0..<100]) (new_limiter 1 3 64) of
        None \<Rightarrow> False
      | Some (oks, limiter) \<Rightarrow>
          let before = total_tracked_clients limiter;
              (removed, limiter) = reap_idle 50000000 10000000 limiter;
              after = total_tracked_clients limiter
          in before = 100 \<and> removed = 100 \<and> after = 0)"

text \<open>At two tokens a second, 600 ms give an empty bucket at least one token and at most one and a half.\<close>

lemma after_600ms:
  assumes "b = bucket_allow 2 5 600000000 (Some \<lparr>tokens = 0, last_refill = 0\<rparr>)"
  shows "fst b \<and> \<not> fst (bucket_allow 2 5 600000000 (Some (snd b)))"
proof -
  have "rnd (1 / 2) = 1 / 2" "rnd (3 / 4) = 3 / 4" "rnd (3 / 2) = 3 / 2" by code_simp+
  then have dyadic: "is_double (1 / 2)" "is_double (3 / 4)" "is_double (3 / 2)"
    using is_double_rnd by metis+
  have "elapsed_sec 600000000 = rnd (3 / 5)" by (simp add: elapsed_sec_def dbl.exact is_double_numeral)
  then have "1 / 2 \<le> elapsed_sec 600000000" "elapsed_sec 600000000 \<le> 3 / 4"
    using dbl.round_ge [OF dyadic(1), of "3 / 5"] dbl.round_le [OF dyadic(2), of "3 / 5"] by simp_all
  then have "1 \<le> credit 2 600000000" "credit 2 600000000 \<le> 3 / 2"
    unfolding credit_def by (intro dbl.round_ge dbl.round_le dyadic; simp add: is_double_numeral)+
  then have r: "1 \<le> refilled 2 5 600000000 (Some \<lparr>tokens = 0, last_refill = 0\<rparr>)"
    "refilled 2 5 600000000 (Some \<lparr>tokens = 0, last_refill = 0\<rparr>) \<le> 3 / 2"
    using dbl.round_ge [of 1 "credit 2 600000000"] dbl.round_le [OF dyadic(3), of "credit 2 600000000"]
    by (simp_all add: refilled_def is_double_numeral min_le_iff_disj)
  then have b: "fst b" "snd b = \<lparr>tokens = rnd (refilled 2 5 600000000 (Some \<lparr>tokens = 0, last_refill = 0\<rparr>) - 1),
      last_refill = 600000000\<rparr>"
    by (simp_all add: assms bucket_allow_refilled)
  then have "tokens (snd b) \<le> 1 / 2"
    using dbl.round_le [OF dyadic(1), of "refilled 2 5 600000000 (Some \<lparr>tokens = 0, last_refill = 0\<rparr>) - 1"] r by simp
  then have "rnd (tokens (snd b)) \<le> 1 / 2" by (rule dbl.round_le [OF dyadic(1)])
  then have "refilled 2 5 600000000 (Some (snd b)) < 1" using b(2) by (simp add: refilled_def)
  then show ?thesis using b(1) by (simp add: bucket_allow_refilled)
qed

lemma test_burst_and_refill_passes: test_burst_and_refill
proof -
  let ?ip = "''1.2.3.4''" and ?spent = "Some \<lparr>tokens = 0, last_refill = 0\<rparr>"
  have inv: "shards_inv (new_limiter 2 5 64)" by (simp add: shards_inv_new)
  have run: "bucket_run 2 5 (replicate 8 0) None = (replicate 5 True @ replicate 3 False, ?spent)"
    using burst_run_fresh [of 5 8 2 0] by (simp add: is_double_numeral)
  obtain rl where rl: "serve (replicate 8 (0, ?ip)) (new_limiter 2 5 64) = Some (replicate 5 True @ replicate 3 False, rl)"
    "shards_inv rl" "refill_rate_per_sec rl = 2" "capacity rl = 5" "flat rl ?ip = ?spent"
    using serve_one_client [OF inv, of 8 0 ?ip] run by (auto simp: flat_new)
  let ?b = "bucket_allow 2 5 600000000 ?spent"
  obtain rl1 where rl1: "allow 600000000 ?ip rl = Some (fst ?b, rl1)" "shards_inv rl1" "refill_rate_per_sec rl1 = 2"
    "capacity rl1 = 5" "flat rl1 ?ip = Some (snd ?b)"
    using allow_on [OF rl(2), of 600000000 ?ip] rl(3-5) by auto
  obtain rl2 where rl2: "allow 600000000 ?ip rl1 = Some (fst (bucket_allow 2 5 600000000 (Some (snd ?b))), rl2)"
    using allow_on [OF rl1(2), of 600000000 ?ip] rl1(3-5) by auto
  show ?thesis using after_600ms [OF refl] rl(1) rl1(1) rl2 by (simp add: test_burst_and_refill_def admitted_def del: serve.simps)
qed

lemma test_independent_clients_passes: test_independent_clients
proof -
  let ?a = "''10.0.0.1''" and ?b = "''10.0.0.2''" and ?spent = "Some \<lparr>tokens = 0, last_refill = 0\<rparr>"
  have inv: "shards_inv (new_limiter 1 3 64)" by (simp add: shards_inv_new)
  have run: "bucket_run 1 3 (replicate 3 0) None = (replicate 3 True, ?spent)"
    using burst_run_fresh [of 3 3 1 0] by (simp add: is_double_numeral)
  have "times_of ?b (replicate 3 (0, ?a)) = []" "times_of ?a (replicate 3 (0, ?a)) = replicate 3 0"
    by (simp_all add: times_of_def)
  then obtain oks rl where rl: "serve (replicate 3 (0, ?a)) (new_limiter 1 3 64) = Some (oks, rl)"
    "shards_inv rl" "refill_rate_per_sec rl = 1" "capacity rl = 3" "flat rl ?a = ?spent" "flat rl ?b = None"
    and oks: "length oks = 3" "answers_to ?a (replicate 3 (0, ?a)) oks = replicate 3 True"
    using serve_client [OF inv, of "replicate 3 (0, ?a)"] run by (auto simp: flat_new)
  have "list_all (\<lambda>ok. ok) oks" using answers_to_replicate [OF oks(1), of ?a 0] oks(2) by (auto simp: list_all_iff)
  have first: "fst (bucket_allow 1 3 0 None)" and second: "\<not> fst (bucket_allow 1 3 0 ?spent)"
    by (simp_all add: bucket_allow_refilled refilled_def dbl.exact)
  obtain rl1 where rl1: "allow 0 ?b rl = Some (True, rl1)" "shards_inv rl1" "refill_rate_per_sec rl1 = 1"
    "capacity rl1 = 3" "flat rl1 ?a = ?spent"
    using allow_on [OF rl(2), of 0 ?b] rl(3-6) first by auto
  obtain rl2 where "allow 0 ?a rl1 = Some (False, rl2)"
    using allow_on [OF rl1(2), of 0 ?a] rl1(3-5) second by auto
  then show ?thesis using rl(1) rl1(1) \<open>list_all _ oks\<close> by (simp add: test_independent_clients_def del: serve.simps)
qed

lemma bucket_run_entry:
  "ts \<noteq> [] \<Longrightarrow> \<exists>b. snd (bucket_run rate cap ts e) = Some b \<and> last_refill b = last ts"
proof (induction ts arbitrary: e)
  case (Cons t ts)
  have "last_refill (snd (bucket_allow rate cap t e)) = t" by (simp add: bucket_allow_refilled)
  then show ?case using Cons by (cases ts) (auto simp: split_def Let_def)
qed simp

text \<open>After requests that all came at one time, the clients tracked are those that sent one.\<close>

lemma serve_tracks:
  assumes "0 < n" and "\<And>r. r \<in> set reqs \<Longrightarrow> fst r = t"
  shows "\<exists>oks rl. serve reqs (new_limiter rate cap n) = Some (oks, rl) \<and> shards_inv rl \<and>
    dom (flat rl) = snd ` set reqs \<and> (\<forall>ip b. flat rl ip = Some b \<longrightarrow> last_refill b = t)"
proof -
  have inv: "shards_inv (new_limiter rate cap n)" using assms(1) by (rule shards_inv_new)
  obtain oks rl where rl: "serve reqs (new_limiter rate cap n) = Some (oks, rl)" "shards_inv rl"
    "\<And>ip. flat rl ip = snd (bucket_run rate cap (times_of ip reqs) None)"
    using serve_client [OF inv, of reqs] assms(1) by (auto simp: flat_new)
  have some: "ip \<in> snd ` set reqs \<longleftrightarrow> times_of ip reqs \<noteq> []" for ip
    by (force simp: times_of_def filter_empty_conv)
  have entry: "\<exists>b. flat rl ip = Some b \<and> last_refill b = t" if "times_of ip reqs \<noteq> []" for ip
  proof -
    have "last (times_of ip reqs) \<in> set (times_of ip reqs)" using that by simp
    then have "last (times_of ip reqs) = t" using assms(2) by (auto simp: times_of_def)
    then show ?thesis using bucket_run_entry [OF that, of rate cap None] rl(3) by simp
  qed
  moreover have "flat rl ip = None" if "times_of ip reqs = []" for ip using that rl(3) by simp
  ultimately have "dom (flat rl) = snd ` set reqs" "\<forall>ip b. flat rl ip = Some b \<longrightarrow> last_refill b = t"
    using some by (fastforce, metis option.distinct(1) option.inject)
  with rl(1,2) show ?thesis by blast
qed

lemma test_reap_passes: test_reap
proof -
  define reqs where "reqs = (map (\<lambda>i. (0, ''client-'' @ to_string i)) [0..<100] :: (nanos \<times> string) list)"
  have "fst r = 0" if "r \<in> set reqs" for r using that by (auto simp: reqs_def)
  from serve_tracks [of 64 reqs 0 1 3, OF zero_less_numeral this]
  obtain oks rl where rl: "serve reqs (new_limiter 1 3 64) = Some (oks, rl)" "shards_inv rl"
    "dom (flat rl) = snd ` set reqs" "\<forall>ip b. flat rl ip = Some b \<longrightarrow> last_refill b = 0"
    by blast
  let ?reaped = "reap_idle 50000000 10000000 rl"
  have "snd ` set reqs = (\<lambda>i. ''client-'' @ to_string i) ` {0..<100}" by (simp add: reqs_def image_image)
  moreover have "inj_on (\<lambda>i. ''client-'' @ to_string i) {0..<100}" by (simp add: inj_on_def)
  ultimately have before: "total_tracked_clients rl = 100"
    using rl(2,3) by (simp add: total_tracked_is_card card_image)
  have "flat (snd ?reaped) = Map.empty"
    using rl(4) by (auto simp: fun_eq_iff flat_reap_idle [OF rl(2)] idle_at_def split: option.splits)
  then have after: "total_tracked_clients (snd ?reaped) = 0"
    using total_tracked_is_card [OF shards_inv_reap [OF rl(2)]] by simp
  then have "fst ?reaped = 100" using reap_idle_counts [of 50000000 10000000 rl] before by simp
  with before after show ?thesis
    unfolding test_reap_def reqs_def [symmetric] rl(1) by (simp add: split_def Let_def)
qed

section \<open>Hash ring\<close>

text \<open>Five backends. Removing backend 2 reassigns exactly the keys that were on it; with backends 0 and 1
  excluded every key still has a backend, and not one of those.\<close>

definition test_reshuffle :: "string list \<Rightarrow> bool" where
  "test_reshuffle keys =
     (let r = main_ring 5; r' = remove_backend 2 r;
          moved = filter (\<lambda>key. get_backend r' key \<noteq> get_backend r key) keys
      in length moved = length (filter (\<lambda>key. get_backend r key = Some 2) keys) \<and>
         length (filter (\<lambda>key. get_backend r key = Some 2) moved) =
           length (filter (\<lambda>key. get_backend r key = Some 2) keys))"

definition test_excluding :: "string list \<Rightarrow> bool" where
  "test_excluding keys =
     (let r = remove_backend 2 (main_ring 5) in
      list_all (\<lambda>key. case get_backend_excluding r key {0, 1} of None \<Rightarrow> False | Some b \<Rightarrow> b \<notin> {0, 1}) keys)"

lemma test_reshuffle_passes: "test_reshuffle keys"
proof -
  let ?r = "main_ring 5"
  have inv: "ring_inv ?r" "ring_full ?r" using main_ring_inv [of 5] by simp_all
  have gone: "get_backend (remove_backend 2 ?r) key \<noteq> Some 2" for key
    unfolding remove_is_excluding [OF inv] using get_backend_excluding_iff [OF ring_inv_sorted [OF inv(1)]] by simp
  have moved: "get_backend (remove_backend 2 ?r) key \<noteq> get_backend ?r key \<longleftrightarrow> get_backend ?r key = Some 2" for key
    using gone excluding_other_owner [OF ring_inv_sorted [OF inv(1)], of key 2] remove_is_excluding [OF inv, of 2 key] by metis
  show ?thesis by (simp add: test_reshuffle_def Let_def moved)
qed

lemma test_excluding_passes: "test_excluding keys"
proof -
  let ?r = "remove_backend 2 (main_ring 5)"
  have inv: "ring_inv ?r" "ring_full ?r" "active_backends ?r = {..<5} - {2}"
    using main_ring_inv [of 5] ring_inv_remove [of "main_ring 5"] ring_full_remove [of "main_ring 5" 2] main_ring_frame [of 5]
    by auto
  have "map_of (ring ?r) (vnode_hash 3 0) = Some 3"
    using inv main_ring_frame [of 5] by (simp add: ring_full_def default_vnodes_def)
  then have "3 \<in> snd ` set (ring ?r)" by (force dest: map_of_SomeD)
  then have "get_backend_excluding ?r key {0, 1} \<noteq> None" for key
    unfolding get_backend_excluding_None [OF ring_inv_sorted [OF inv(1)]] by auto
  moreover have "b \<notin> {0, 1}" if "get_backend_excluding ?r key {0, 1} = Some b" for key b
    using that unfolding get_backend_excluding_iff [OF ring_inv_sorted [OF inv(1)]] by blast
  ultimately show ?thesis unfolding test_excluding_def Let_def list_all_iff by (auto split: option.split)
qed

end
