(* ===== verification/Fake_Backends.thy ===== *)
theory Fake_Backends
  imports Session_Safety
begin

text \<open>
  The integration test \<^verbatim>\<open>src/test_proxy_integration.cpp\<close>: \<^verbatim>\<open>handle_client\<close> against backends whose behaviour
  is scripted. The fake backends and the test client together are one function \<open>harness\<close>, which says
  what happens next to a suspended session. A session talking to them computes a reference
  function: it walks the ring's order of backends, passes over those behind an open breaker
  and those that close without a byte, and hands the client the answer of the first other one.
  The scenarios of the test are instances.
\<close>

section \<open>Backends, client and pipeline\<close>

datatype Mode = NORMAL | FAIL_CLOSE | SLOW | PARTIAL_THEN_CLOSE

record FakeBackend =
  fb_mode :: Mode
  hit_count :: int
  canned_response :: string
  slow_delay :: int

definition new_fake_backend :: FakeBackend where
  "new_fake_backend =
     \<lparr>fb_mode = NORMAL, hit_count = 0,
      canned_response = ''HTTP/1.1 200 OK'' @ crlf @ ''Content-Length: 2'' @ crlf @ crlf @ ''OK'',
      slow_delay = 80\<rparr>"

definition partial_response :: string where
  "partial_response = ''HTTP/1.1 200 OK'' @ crlf @ ''Content-Length: 100'' @ crlf @ crlf @ ''HALF''"

text \<open>One connection to a fake backend: it is counted, and after the first read something is written or not
  before the socket closes. The delay of \<open>SLOW\<close> only separates events in time.\<close>

fun fake_backend_session :: "FakeBackend \<Rightarrow> FakeBackend \<times> string option" where
  "fake_backend_session cfg =
     (cfg\<lparr>hit_count := hit_count cfg + 1\<rparr>,
      case fb_mode cfg of
        NORMAL \<Rightarrow> Some (canned_response cfg)
      | SLOW \<Rightarrow> Some (canned_response cfg)
      | FAIL_CLOSE \<Rightarrow> None
      | PARTIAL_THEN_CLOSE \<Rightarrow> Some partial_response)"

definition answer :: "FakeBackend \<Rightarrow> string option" where
  "answer cfg = snd (fake_backend_session cfg)"

text \<open>The client writes its request once, reads to the end and closes; the backends accept every
  connection. Of two relays the one still waiting when the other has returned is cancelled.\<close>

definition harness :: "(nat \<Rightarrow> FakeBackend) \<Rightarrow> (nat \<Rightarrow> net) \<Rightarrow> string \<Rightarrow> session \<Rightarrow> event" where
  "harness cfgs nets req s =
     (case pc s of
        Started \<Rightarrow> Start
      | Acquiring \<Rightarrow> Connected (nets (backend_index s))
      | Replaying \<Rightarrow> Replayed Wrote
      | Relaying (Writing _) _ \<Rightarrow> Client_Leg Wrote
      | Relaying _ (Writing _) \<Rightarrow> Backend_Leg Wrote
      | Relaying Reading Reading \<Rightarrow>
          if received s = [] then Client_Leg (Read req)
          else if response_started s then Backend_Leg Read_Failed
          else (case answer (cfgs (backend_index s)) of
                  None \<Rightarrow> Backend_Leg Read_Failed | Some response \<Rightarrow> Backend_Leg (Read response))
      | Relaying Reading Returned \<Rightarrow> Client_Leg Read_Failed
      | Relaying Returned _ \<Rightarrow> Backend_Leg Read_Failed
      | Sending_Status \<Rightarrow> Status Wrote
      | _ \<Rightarrow> Drain Read_Failed)"

fun dialogue :: "(session \<Rightarrow> event) \<Rightarrow> nat \<Rightarrow> conf \<Rightarrow> conf option" where
  "dialogue env 0 c = Some c"
| "dialogue env (Suc m) c = Option.bind (step (env (snd c)) c) (dialogue env m)"

section \<open>Reference\<close>

text \<open>The order in which the ring offers backends to a key.\<close>

fun ring_order :: "nat \<Rightarrow> hash_ring \<Rightarrow> string \<Rightarrow> nat set \<Rightarrow> nat list" where
  "ring_order 0 r key X = []"
| "ring_order (Suc m) r key X =
     (case get_backend_excluding r key X of None \<Rightarrow> [] | Some b \<Rightarrow> b # ring_order m r key (insert b X))"

text \<open>Which backends fail the request, and which one answers it with what.\<close>

fun walk :: "(nat \<Rightarrow> bool) \<Rightarrow> (nat \<Rightarrow> string option) \<Rightarrow> nat list \<Rightarrow> nat list \<times> (nat \<times> string) option" where
  "walk gate ans [] = ([], None)"
| "walk gate ans (b # bs) =
     (if \<not> gate b then walk gate ans bs
      else case ans b of
             Some response \<Rightarrow> ([], Some (b, response))
           | None \<Rightarrow> (let (failed, a) = walk gate ans bs in (b # failed, a)))"

section \<open>Runs\<close>

definition leads :: "(session \<Rightarrow> event) \<Rightarrow> conf \<Rightarrow> conf \<Rightarrow> bool" where
  "leads env c d \<longleftrightarrow> (\<exists>m. dialogue env m c = Some d)"

lemma leadsI: "dialogue env m c = Some d \<Longrightarrow> leads env c d"
  by (auto simp: leads_def)

lemma dialogue_add: "dialogue env (m + k) c = Option.bind (dialogue env m c) (dialogue env k)"
  by (induction m arbitrary: c) (auto split: bind_splits)

lemma leads_refl [simp]: "leads env c c"
  unfolding leads_def by (rule exI [of _ 0]) simp

lemma leads_trans: "leads env c d \<Longrightarrow> leads env d e \<Longrightarrow> leads env c e"
  unfolding leads_def by (metis dialogue_add bind.bind_lunit)

lemma resume_loop: "attempts (snd c) < max_attempts (snd c) \<Longrightarrow> resume (Continue c) = resume (loop_body c)"
  by (simp add: resume_def retry_loop.simps [of c])

lemma resume_exhausted: "\<not> attempts (snd c) < max_attempts (snd c) \<Longrightarrow> resume (Continue c) = resume (Break c)"
  by (simp add: resume_def retry_loop.simps [of c])

lemma resume_flow [simp]: "resume (Suspend c) = c" "resume (Return c) = goto Finished c"
  by (simp_all add: resume_def finish_def)

text \<open>The shared state after a stretch, with these breakers.\<close>

definition alike :: "nat \<Rightarrow> hash_ring \<Rightarrow> shared \<Rightarrow> circuit_breaker list \<Rightarrow> shared \<Rightarrow> bool" where
  "alike n r sh brs sh' \<longleftrightarrow> shared_ok n r sh' \<and> clock sh' = clock sh \<and> sh_breakers sh' = brs \<and>
     backends (sh_pool sh') = backends (sh_pool sh)"

text \<open>After the loop: the 503 is written and the client closes.\<close>

lemma fall_back_leads:
  assumes "env = harness cfgs nets req" and "shared_ok n r sh"
  shows "\<exists>sh' l. leads env (resume (Break (sh, s)))
      (sh', s\<lparr>log := l, to_client := to_client s @ unavailable_response, pc := Finished\<rparr>) \<and>
    alike n r sh (sh_breakers sh) sh'"
proof -
  let ?sh = "sh\<lparr>sh_metrics := record_fallback_503 (sh_metrics sh)\<rparr>"
  let ?l = "log s @ [trace_event (correlation_id s) ''fallback_503'' (Session.fields ''attempts'' (int_to_string (attempts s)))]"
  have "resume (Break (sh, s)) = (?sh, s\<lparr>log := ?l, pc := Sending_Status\<rparr>)"
    by (simp add: resume_def fall_back_def finish_def on_metrics_def log_event_def)
  moreover have "leads env \<dots> (?sh, s\<lparr>log := ?l, to_client := to_client s @ unavailable_response, pc := Finished\<rparr>)"
    by (rule leadsI [of _ 2]) (simp add: numeral_2_eq_2 assms harness_def)
  moreover have "alike n r sh (sh_breakers sh) ?sh"
    using assms(2) by (simp add: alike_def shared_ok_def metrics_ok_def record_fallback_503_def)
  ultimately show ?thesis by metis
qed


section \<open>One attempt\<close>

text \<open>A network that connects to every host.\<close>

definition accepts :: "net \<Rightarrow> bool" where
  "accepts env \<longleftrightarrow> (\<forall>h p. \<exists>eps. async_resolve env h p = Inr eps) \<and>
     (\<forall>eps. \<exists>sock. async_connect env eps = Inr sock) \<and> (\<forall>sock. set_no_delay env sock = Inr ())"

lemma accepts_connect: "accepts env \<Longrightarrow> b < length (backends p) \<Longrightarrow> \<exists>sock. connect p b env = Inr sock"
proof -
  assume a: "accepts env" and b: "b < length (backends p)"
  obtain eps where eps: "async_resolve env (host (backends p ! b)) (port (backends p ! b)) = Inr eps"
    using a unfolding accepts_def by blast
  obtain sock where "async_connect env eps = Inr sock" using a unfolding accepts_def by blast
  then show ?thesis using a b eps by (simp add: connect_def vec_at_def accepts_def)
qed

text \<open>Telemetry, as the shared state it leaves.\<close>

lemma perform_alike:
  assumes "list_all (telemetry n r) fs" and "shared_ok n r sh"
  shows "\<exists>sh' l. perform fs k (sh, s) = k (sh', s\<lparr>log := l\<rparr>) \<and> alike n r sh (sh_breakers sh) sh' \<and> sh_pool sh' = sh_pool sh"
  using perform_telemetry [OF assms, of k s] shared_ok_metrics [OF assms(2)]
  by (metis (no_types, lifting) alike_def shared.select_convs(1,3,5) shared.surjective shared.update_convs(4))

lemma acquired_leads:
  assumes env: "env = harness cfgs nets req" and ok: "shared_ok n r sh" "b < n" and "backend_index s = b"
    and req: "req \<noteq> []" "length req \<le> relay_buffer"
    and buf: "req_buf s = \<lparr>data = received s, capped = False\<rparr>" "received s = [] \<or> received s = req"
  shows "\<exists>sh' l. leads env (resume (acquired b sock (sh, s)))
      (sh', s\<lparr>backend_socket := Some sock, reached := reached s @ [b], log := l,
        req_buf := \<lparr>data = req, capped = False\<rparr>, received := req, to_backend := req, response_started := False,
        pc := Relaying Reading Reading\<rparr>) \<and>
    alike n r sh (sh_breakers sh) sh'"
proof -
  let ?k = "\<lambda>c. if data (req_buf (snd c)) \<noteq> [] then Suspend (goto Replaying c) else start_relays c"
  let ?fs = "[log_event ''backend_selected'' (fields2 ''backend'' (to_string b) ''attempt'' (int_to_string (attempts s + 1))),
        show_pool_active b, show_pool_idle b]"
  let ?s = "s\<lparr>backend_socket := Some sock, to_backend := [], reached := reached s @ [b]\<rparr>"
  obtain sh' l where a: "acquired b sock (sh, s) = ?k (sh', ?s\<lparr>log := l\<rparr>)" "alike n r sh (sh_breakers sh) sh'"
    unfolding acquired_def split Let_def
    using perform_alike [of n r ?fs sh ?k ?s] ok by (auto simp: telemetry_rules simp del: perform.simps)
  let ?t = "?s\<lparr>log := l, req_buf := \<lparr>data = req, capped = False\<rparr>, received := req, to_backend := req,
      response_started := False, pc := Relaying Reading Reading\<rparr>"
  have "leads env (resume (acquired b sock (sh, s))) (sh', ?t)"
  proof (cases "received s = []")
    case True
    have "rb_append req (req_buf s) = \<lparr>data = req, capped = False\<rparr>"
      using req(2) buf(1) True by (simp add: rb_append_def kCap_def relay_buffer_def)
    then show ?thesis
      unfolding a(1) using True buf(1) req
      by (intro leadsI [of _ 2]) (simp add: numeral_2_eq_2 start_relays_def env harness_def after_leg_def)
  next
    case False
    then have "received s = req" using buf(2) by blast
    then show ?thesis
      unfolding a(1) using False buf(1)
      by (intro leadsI [of _ 1]) (simp add: env harness_def after_replay_def start_relays_def)
  qed
  with a(2) show ?thesis by (intro exI [of _ sh'] exI [of _ l]) simp
qed

lemma alike_trans: "alike n r sh brs sh1 \<Longrightarrow> alike n r sh1 brs' sh2 \<Longrightarrow> alike n r sh brs' sh2"
  by (simp add: alike_def)

text \<open>Behind a closed breaker the request reaches the backend whole, on a pooled or a new connection.\<close>

lemma granted_leads:
  assumes env: "env = harness cfgs nets req" and nets: "\<And>b. b < n \<Longrightarrow> accepts (nets b)"
    and ok: "shared_ok n r sh" "b < n" and closed: "cb_state (sh_breakers sh ! b) = CLOSED"
    and req: "req \<noteq> []" "length req \<le> relay_buffer"
    and buf: "req_buf s = \<lparr>data = received s, capped = False\<rparr>" "received s = [] \<or> received s = req"
  shows "\<exists>sh' l sock. leads env (resume (gated b (sh, s)))
      (sh', s\<lparr>backend_index := b, grants := grants s @ [b], backend_socket := Some sock, reached := reached s @ [b], log := l,
        req_buf := \<lparr>data = req, capped = False\<rparr>, received := req, to_backend := req, response_started := False,
        pc := Relaying Reading Reading\<rparr>) \<and>
    alike n r sh (sh_breakers sh) sh'"
proof -
  let ?sh = "sh\<lparr>ticks := Suc (ticks sh)\<rparr>" and ?s = "s\<lparr>backend_index := b, grants := grants s @ [b]\<rparr>"
  have allow: "allow_request (clock sh (ticks sh)) (sh_breakers sh ! b) = (True, sh_breakers sh ! b)"
    using closed by (simp add: allow_request_def)
  have len: "pool_ok (sh_pool sh)" "b < length (backends (sh_pool sh))" using ok by (simp_all add: shared_ok_def)
  obtain sock q l where hit: "leads env (resume (gated b (sh, s))) (resume (acquired b sock (?sh\<lparr>sh_pool := q\<rparr>, ?s\<lparr>pc := l\<rparr>)))"
    and q: "pool_ok q" "backends q = backends (sh_pool sh)"
  proof (cases "free_sockets (sh_pool sh) ! b" rule: rev_cases)
    case (snoc fs sock)
    let ?q = "(sh_pool sh)\<lparr>free_sockets := (free_sockets (sh_pool sh))[b := fs],
        active_counts := (active_counts (sh_pool sh))[b := active_counts (sh_pool sh) ! b + 1]\<rparr>"
    have "acquire_begin b (sh_pool sh) = Inr (Some sock, ?q)"
      using snoc len by (simp add: acquire_begin_in_range)
    then have "gated b (sh, s) = acquired b sock (?sh\<lparr>sh_pool := ?q\<rparr>, ?s\<lparr>pc := pc s\<rparr>)"
      using allow by (simp add: gated_def Let_def)
    then show ?thesis using that [of sock ?q "pc s"] len by (simp add: pool_ok_def)
  next
    case Nil
    obtain sock where sock: "connect (sh_pool sh) b (nets b) = Inr sock"
      using accepts_connect [OF nets [OF ok(2)] len(2)] by blast
    let ?q = "(sh_pool sh)\<lparr>active_counts := (active_counts (sh_pool sh))[b := active_counts (sh_pool sh) ! b + 1]\<rparr>"
    have "acquire_begin b (sh_pool sh) = Inr (None, sh_pool sh)"
      using Nil len by (simp add: acquire_begin_in_range)
    then have "gated b (sh, s) = Suspend (?sh, ?s\<lparr>pc := Acquiring\<rparr>)" using allow by (simp add: gated_def Let_def)
    moreover have "acquire_end b (Inr sock) (sh_pool sh) = Inr (sock, ?q)"
      using len by (simp add: acquire_end_def add_active_def vec_modify_def pool_ok_def)
    then have "step (Connected (nets b)) (?sh, ?s\<lparr>pc := Acquiring\<rparr>) =
        Some (resume (acquired b sock (?sh\<lparr>sh_pool := ?q\<rparr>, ?s\<lparr>pc := Acquiring\<rparr>)))"
      using sock by (simp add: after_connect_def)
    ultimately have "leads env (resume (gated b (sh, s))) (resume (acquired b sock (?sh\<lparr>sh_pool := ?q\<rparr>, ?s\<lparr>pc := Acquiring\<rparr>)))"
      by (intro leadsI [of _ 1]) (simp add: env harness_def)
    then show ?thesis using that [of sock ?q Acquiring] len by (simp add: pool_ok_def)
  qed
  let ?t = "?s\<lparr>pc := l\<rparr>"
  have ok': "shared_ok n r (?sh\<lparr>sh_pool := q\<rparr>)" "alike n r sh (sh_breakers sh) (?sh\<lparr>sh_pool := q\<rparr>)"
    using ok(1) q by (simp_all add: shared_ok_def alike_def)
  have t: "backend_index ?t = b" "req_buf ?t = \<lparr>data = received ?t, capped = False\<rparr>" "received ?t = [] \<or> received ?t = req"
    using buf by simp_all
  from acquired_leads [OF env ok'(1) ok(2) t(1) req t(2,3), of sock] obtain sh' l'
    where "leads env (resume (acquired b sock (?sh\<lparr>sh_pool := q\<rparr>, ?t)))
      (sh', ?t\<lparr>backend_socket := Some sock, reached := reached ?t @ [b], log := l',
        req_buf := \<lparr>data = req, capped = False\<rparr>, received := req, to_backend := req, response_started := False,
        pc := Relaying Reading Reading\<rparr>)"
      "alike n r (?sh\<lparr>sh_pool := q\<rparr>) (sh_breakers (?sh\<lparr>sh_pool := q\<rparr>)) sh'" by blast
  then show ?thesis using leads_trans [OF hit] alike_trans [OF ok'(2)]
    by (intro exI [of _ sh'] exI [of _ l'] exI [of _ sock]) simp
qed

text \<open>The relays have returned.\<close>

lemma after_relays_alike:
  assumes "shared_ok n r sh" and "backend_socket s = Some sock" and "backend_index s = b" and "b < n"
  shows "\<exists>sh' l. after_relays (sh, s) = settle b (response_started s) (sh', s\<lparr>backend_socket := None, log := l\<rparr>) \<and>
    alike n r sh (sh_breakers sh) sh'"
proof -
  let ?s = "s\<lparr>backend_socket := None\<rparr>" and ?k = "settle b (response_started s)"
  have pool: "pool_ok (sh_pool sh)" using assms(1) by (simp add: shared_ok_def)
  obtain q where q: "release b sock False (sh_pool sh) = Inr q"
    using assms by (simp add: release_in_range shared_ok_def)
  then have ok: "alike n r sh (sh_breakers sh) (sh\<lparr>sh_pool := q\<rparr>)"
    using assms(1) release_cases [OF pool q] by (simp add: alike_def shared_ok_def pool_ok_def)
  have rel: "release_unhealthy b (sh, s) = Inr (sh\<lparr>sh_pool := q\<rparr>, ?s)"
    using assms(2) q by (simp add: release_unhealthy_def)
  obtain sh' l where "perform [show_pool_active b, show_pool_idle b] ?k (sh\<lparr>sh_pool := q\<rparr>, ?s) = ?k (sh', ?s\<lparr>log := l\<rparr>)"
    "alike n r (sh\<lparr>sh_pool := q\<rparr>) (sh_breakers sh) sh'"
    using perform_alike [of n r "[show_pool_active b, show_pool_idle b]" "sh\<lparr>sh_pool := q\<rparr>" ?k ?s] ok assms(4)
    by (auto simp: alike_def telemetry_rules simp del: perform.simps)
  then show ?thesis
    unfolding after_relays_def Let_def snd_conv assms(3)
    using rel alike_trans [OF ok] by (subst perform_Cons) auto
qed

lemma settle_success:
  assumes "shared_ok n r sh" and "b < n"
  shows "\<exists>sh' l. settle b True (sh, s) = Return (sh', s\<lparr>reports := reports s @ [b], log := l\<rparr>) \<and>
    alike n r sh ((sh_breakers sh)[b := record_success (sh_breakers sh ! b)]) sh'"
proof -
  let ?brs = "(sh_breakers sh)[b := record_success (sh_breakers sh ! b)]"
  let ?sh = "sh\<lparr>sh_breakers := ?brs\<rparr>" and ?s = "s\<lparr>reports := reports s @ [b]\<rparr>"
  let ?fs = "[on_metrics (record_backend_success b), show_breaker b,
    log_event ''request_succeeded'' (Session.fields ''backend'' (to_string b))]"
  have "breaker_success b (sh, s) = Inr (?sh, ?s)" using assms by (simp add: breaker_success_def shared_ok_def)
  then have "settle b True (sh, s) = perform ?fs Return (?sh, ?s)" by (simp add: settle_def)
  moreover have "list_all breaker_inv ?brs"
    using cb.all_succeed [of "sh_breakers sh" b] assms by (simp add: shared_ok_def)
  then have ok: "alike n r sh ?brs ?sh" using assms(1) by (simp add: alike_def shared_ok_def)
  moreover obtain sh' l where "perform ?fs Return (?sh, ?s) = Return (sh', ?s\<lparr>log := l\<rparr>)" "alike n r ?sh ?brs sh'"
    using perform_alike [of n r ?fs ?sh Return ?s] ok assms(2)
    by (auto simp: alike_def telemetry_rules simp del: perform.simps)
  ultimately show ?thesis using alike_trans by (intro exI [of _ sh'] exI [of _ l]) auto
qed

lemma settle_retry:
  assumes "shared_ok n r sh" and "b < n" and "\<not> capped (req_buf s)"
  shows "\<exists>sh' l. settle b False (sh, s) = Continue (sh', s\<lparr>reports := reports s @ [b], log := l,
      excluded := insert b (excluded s), attempts := attempts s + 1\<rparr>) \<and>
    alike n r sh ((sh_breakers sh)[b := record_failure (clock sh (ticks sh)) (sh_breakers sh ! b)]) sh'"
proof -
  let ?brs = "(sh_breakers sh)[b := record_failure (clock sh (ticks sh)) (sh_breakers sh ! b)]"
  let ?sh = "sh\<lparr>sh_breakers := ?brs, ticks := ticks sh + 1\<rparr>" and ?s = "s\<lparr>reports := reports s @ [b]\<rparr>"
  let ?fs = "[on_metrics (record_backend_failure b), show_breaker b,
    log_event ''backend_failed_no_response'' (Session.fields ''backend'' (to_string b))]"
  let ?k = "perform [give_up_on b] retry_unless_capped"
  have "breaker_failure b (sh, s) = Inr (?sh, ?s)" using assms by (simp add: breaker_failure_def shared_ok_def)
  then have "settle b False (sh, s) = perform (?fs @ [give_up_on b]) retry_unless_capped (?sh, ?s)"
    by (simp add: settle_def record_failed_attempt_def)
  moreover have "list_all breaker_inv ?brs"
    using cb.all_fail [of "sh_breakers sh" b] assms by (simp add: shared_ok_def)
  then have ok: "alike n r sh ?brs ?sh" using assms(1) by (simp add: alike_def shared_ok_def)
  moreover obtain sh' l where "perform ?fs ?k (?sh, ?s) = ?k (sh', ?s\<lparr>log := l\<rparr>)" "alike n r ?sh ?brs sh'"
    using perform_alike [of n r ?fs ?sh ?k ?s] ok assms(2)
    by (auto simp: alike_def telemetry_rules simp del: perform.simps)
  ultimately show ?thesis
    using assms(3) alike_trans [OF ok] unfolding perform_append
    by (intro exI [of _ sh'] exI [of _ l]) (simp add: give_up_on_def retry_unless_capped_def)
qed

text \<open>The backend answers and closes, or closes at once.\<close>

lemma served_leads:
  assumes env: "env = harness cfgs nets req" and ok: "shared_ok n r sh" "b < n"
    and s: "pc s = Relaying Reading Reading" "received s \<noteq> []" "\<not> response_started s" "to_client s = []"
      "backend_index s = b" "backend_socket s = Some sock"
    and response: "answer (cfgs b) = Some response" "response \<noteq> []" "length response \<le> relay_buffer"
  shows "\<exists>sh' l. leads env (sh, s) (sh', s\<lparr>response_started := True, from_backend := from_backend s @ response,
      to_client := response, backend_socket := None,
      reports := reports s @ [b], log := l, pc := Finished\<rparr>) \<and>
    alike n r sh ((sh_breakers sh)[b := record_success (sh_breakers sh ! b)]) sh'"
proof -
  let ?t = "s\<lparr>response_started := True, from_backend := from_backend s @ response, to_client := response, pc := Relaying Returned Returned\<rparr>"
  have fed: "leads env (sh, s) (resume (after_relays (sh, ?t)))"
    using s response by (intro leadsI [of _ 4])
      (simp add: numeral_eq_Suc env harness_def after_leg_def)
  obtain sh1 l1 where one: "after_relays (sh, ?t) = settle b True (sh1, ?t\<lparr>backend_socket := None, log := l1\<rparr>)"
    "alike n r sh (sh_breakers sh) sh1"
    using after_relays_alike [OF ok(1), of ?t sock b] s ok(2) by auto
  then obtain sh2 l2 where two: "settle b True (sh1, ?t\<lparr>backend_socket := None, log := l1\<rparr>) =
      Return (sh2, ?t\<lparr>backend_socket := None, log := l1, reports := reports s @ [b], log := l2\<rparr>)"
    "alike n r sh1 ((sh_breakers sh)[b := record_success (sh_breakers sh ! b)]) sh2"
    using settle_success [OF _ ok(2), of r sh1 "?t\<lparr>backend_socket := None, log := l1\<rparr>"] by (auto simp: alike_def)
  show ?thesis
    using fed unfolding one(1) two(1) using alike_trans [OF one(2) two(2)]
    by (intro exI [of _ sh2] exI [of _ l2]) simp
qed

lemma failed_leads:
  assumes env: "env = harness cfgs nets req" and ok: "shared_ok n r sh" "b < n"
    and s: "pc s = Relaying Reading Reading" "received s \<noteq> []" "\<not> response_started s" "to_client s = []"
      "backend_index s = b" "backend_socket s = Some sock" "\<not> capped (req_buf s)"
    and closes: "answer (cfgs b) = None"
  shows "\<exists>sh' l k. leads env (sh, s) (resume (Continue (sh', s\<lparr>pc := Relaying Returned Returned, backend_socket := None,
      reports := reports s @ [b], log := l, excluded := insert b (excluded s), attempts := attempts s + 1\<rparr>))) \<and>
    alike n r sh ((sh_breakers sh)[b := record_failure (clock sh k) (sh_breakers sh ! b)]) sh'"
proof -
  let ?t = "s\<lparr>pc := Relaying Returned Returned\<rparr>"
  have same: "s\<lparr>response_started := False, to_client := [], pc := l\<rparr> = s\<lparr>pc := l\<rparr>" for l
    using s(3,4) by (cases s) simp
  have fed: "leads env (sh, s) (resume (after_relays (sh, ?t)))"
    using s closes by (intro leadsI [of _ 2])
      (simp add: same numeral_eq_Suc env harness_def after_leg_def)
  obtain sh1 l1 where one: "after_relays (sh, ?t) = settle b False (sh1, ?t\<lparr>backend_socket := None, log := l1\<rparr>)"
    "alike n r sh (sh_breakers sh) sh1"
    using after_relays_alike [OF ok(1), of ?t sock b] s ok(2) by auto
  then obtain sh2 l2 where two: "settle b False (sh1, ?t\<lparr>backend_socket := None, log := l1\<rparr>) =
      Continue (sh2, ?t\<lparr>backend_socket := None, log := l1, reports := reports s @ [b], log := l2,
        excluded := insert b (excluded s), attempts := attempts s + 1\<rparr>)"
    "alike n r sh1 ((sh_breakers sh)[b := record_failure (clock sh (ticks sh1)) (sh_breakers sh ! b)]) sh2"
    using settle_retry [OF _ ok(2), of r sh1 "?t\<lparr>backend_socket := None, log := l1\<rparr>"] s(7) by (auto simp: alike_def)
  show ?thesis
    using fed unfolding one(1) two(1) using alike_trans [OF one(2) two(2)]
    by (intro exI [of _ sh2] exI [of _ l2] exI [of _ "ticks sh1"]) simp
qed

section \<open>The retry loop\<close>

text \<open>Breakers that stay as they are unless their backend is tried: closed, or open and within the cooldown
  at every reading of the clock.\<close>

definition steady :: "(nat \<Rightarrow> nanos) \<Rightarrow> circuit_breaker \<Rightarrow> bool" where
  "steady clk br \<longleftrightarrow> cb_state br = CLOSED \<or> cb_state br = OPEN \<and> (\<forall>k. clk k - opened_at br < cooldown_nanos br)"

text \<open>How the breakers are told: a failure of every backend that failed, a success of the one that answered.\<close>

definition told :: "(nat \<Rightarrow> nanos) \<Rightarrow> nat list \<Rightarrow> (nat \<times> string) option \<Rightarrow> circuit_breaker list \<Rightarrow> circuit_breaker list \<Rightarrow> bool" where
  "told clk failed a brs brs' \<longleftrightarrow> length brs' = length brs \<and>
     (\<forall>b < length brs.
        (b \<in> set failed \<longrightarrow> (\<exists>k. brs' ! b = record_failure (clk k) (brs ! b))) \<and>
        (b \<notin> set failed \<longrightarrow> brs' ! b = (if map_option fst a = Some b then record_success (brs ! b) else brs ! b)))"

lemma picked_fresh: "ring_inv r \<Longrightarrow> get_backend_excluding r key X = Some b \<Longrightarrow> b \<notin> X \<and> b \<in> active_backends r"
  using get_backend_excluding_iff [OF ring_inv_sorted, of r key X b] by (fastforce simp: ring_inv_def)

lemma ring_order_fresh: "ring_inv r \<Longrightarrow> b \<in> set (ring_order m r key X) \<Longrightarrow> b \<notin> X"
proof (induction m arbitrary: X)
  case (Suc m)
  then show ?case using picked_fresh [OF Suc.prems(1), of key X] by (auto split: option.splits)
qed simp

lemma walk_cong: "(\<And>b. b \<in> set bs \<Longrightarrow> gate' b = gate b) \<Longrightarrow> walk gate' ans bs = walk gate ans bs"
  by (induction bs) (auto split: option.splits)

lemma walk_subset:
  "set (fst (walk gate ans bs)) \<subseteq> set bs" "snd (walk gate ans bs) = Some (b, response) \<Longrightarrow> b \<in> set bs \<and> ans b = Some response"
  by (induction bs) (auto simp: split_def Let_def split: if_splits option.splits)

lemma refused_leads:
  assumes ok: "shared_ok n r sh" "b < n"
    and shut: "cb_state (sh_breakers sh ! b) = OPEN"
      "clock sh (ticks sh) - opened_at (sh_breakers sh ! b) < cooldown_nanos (sh_breakers sh ! b)"
  shows "\<exists>sh' l. gated b (sh, s) = Continue (sh', s\<lparr>log := l, excluded := insert b (excluded s), attempts := attempts s + 1\<rparr>) \<and>
    alike n r sh (sh_breakers sh) sh'"
proof -
  have "allow_request (clock sh (ticks sh)) (sh_breakers sh ! b) = (False, sh_breakers sh ! b)"
    using shut by (simp add: allow_request_def)
  then show ?thesis
    using ok(1) by (simp add: gated_def Let_def log_event_def give_up_on_def alike_def shared_ok_def) blast
qed

lemma loop_pick:
  assumes ok: "shared_ok n r sh" and pick: "get_backend_excluding r (client_key s) (excluded s) = Some b"
    and more: "attempts s < max_attempts s"
  shows "b < n \<and> b \<notin> excluded s \<and> (\<exists>sh' l. resume (Continue (sh, s)) = resume (gated b (sh', s\<lparr>log := l\<rparr>)) \<and>
    alike n r sh (sh_breakers sh) sh')"
proof -
  have ring: "sh_ring sh = r" "ring_inv r" "active_backends r \<subseteq> {..<n}" using ok by (simp_all add: shared_ok_def)
  then have b: "b < n" "b \<notin> excluded s" using picked_fresh pick by blast+
  moreover have "resume (Continue (sh, s)) = resume (perform [show_breaker b] (gated b) (sh, s))"
    using more pick ring(1) by (simp add: resume_loop loop_body_def del: perform.simps)
  ultimately show ?thesis
    using perform_alike [of n r "[show_breaker b]" sh "gated b" s] ok by (metis list.pred_inject telemetry_gauges(1))
qed

lemma loop_exhausted_leads:
  assumes env: "env = harness cfgs nets req" and ok: "shared_ok n r sh"
    and stop: "\<not> attempts s < max_attempts s \<or> get_backend_excluding r (client_key s) (excluded s) = None"
  shows "\<exists>sh' l. leads env (resume (Continue (sh, s)))
      (sh', s\<lparr>log := l, to_client := to_client s @ unavailable_response, pc := Finished\<rparr>) \<and>
    alike n r sh (sh_breakers sh) sh'"
proof (cases "attempts s < max_attempts s")
  case False
  then show ?thesis using fall_back_leads [OF env ok] by (simp add: resume_exhausted)
next
  case True
  have "sh_ring sh = r" using ok by (simp add: shared_ok_def)
  with True stop have "resume (Continue (sh, s)) = resume (Break (sh, s\<lparr>log := log s @
      [trace_event (correlation_id s) ''ring_exhausted'' (Session.fields ''attempts'' (int_to_string (attempts s)))]\<rparr>))" (is "_ = resume (Break (sh, ?s))")
    by (simp add: resume_loop loop_body_def log_event_def)
  then show ?thesis using fall_back_leads [OF env ok, of ?s] by simp
qed

text \<open>What a session leaves behind that finds the loop at \<open>(sh, s)\<close>.\<close>

definition outcome :: "nat \<Rightarrow> hash_ring \<Rightarrow> string \<Rightarrow> conf \<Rightarrow> nat list \<times> (nat \<times> string) option \<Rightarrow> conf \<Rightarrow> bool" where
  "outcome n r req c w d \<longleftrightarrow>
     (let (failed, a) = w; (sh, s) = c; (sh', s') = d in
      pc s' = Finished \<and>
      to_client s' = (case a of None \<Rightarrow> unavailable_response | Some (b, response) \<Rightarrow> response) \<and>
      (a \<noteq> None \<longrightarrow> to_backend s' = req) \<and>
      reached s' = reached s @ failed @ (case a of None \<Rightarrow> [] | Some (b, response) \<Rightarrow> [b]) \<and>
      told (clock sh) failed a (sh_breakers sh) (sh_breakers sh') \<and>
      shared_ok n r sh' \<and> clock sh' = clock sh \<and> backends (sh_pool sh') = backends (sh_pool sh))"

text \<open>The session as the loop finds it.\<close>

definition waiting :: "string \<Rightarrow> session \<Rightarrow> bool" where
  "waiting req s \<longleftrightarrow> req_buf s = \<lparr>data = received s, capped = False\<rparr> \<and> (received s = [] \<or> received s = req) \<and>
     backend_socket s = None \<and> to_client s = [] \<and> \<not> response_started s"

lemma told_none: "told clk [] None brs brs"
  by (simp add: told_def)

lemma told_Cons:
  assumes "told clk failed a (brs[b := record_failure (clk k) (brs ! b)]) brs'"
    and "b \<notin> set failed" and "\<forall>response. a \<noteq> Some (b, response)"
  shows "told clk (b # failed) a brs brs'"
proof -
  have len: "length brs' = length brs" using assms(1) by (simp add: told_def)
  have other: "(c \<in> set failed \<longrightarrow> (\<exists>k. brs' ! c = record_failure (clk k) (brs ! c))) \<and>
      (c \<notin> set failed \<longrightarrow> brs' ! c = (if map_option fst a = Some c then record_success (brs ! c) else brs ! c))"
    if "c < length brs" "c \<noteq> b" for c
    using assms(1) [unfolded told_def, THEN conjunct2, rule_format, of c] that by simp
  have "brs' ! b = record_failure (clk k) (brs ! b)" if "b < length brs"
    using assms that by (cases a) (auto simp: told_def)
  then show ?thesis unfolding told_def using len other by (metis list.set_intros(1) set_ConsD set_subset_Cons subsetD)
qed

lemma outcome_none:
  assumes "alike n r sh (sh_breakers sh) sh'"
    and "pc s' = Finished" "to_client s' = unavailable_response" "reached s' = reached s"
  shows "outcome n r req (sh, s) ([], None) (sh', s')"
  using assms by (simp add: outcome_def told_none alike_def)

lemma outcome_served:
  assumes "alike n r sh ((sh_breakers sh)[b := record_success (sh_breakers sh ! b)]) sh'"
    and "pc s' = Finished" "to_client s' = response" "reached s' = reached s @ [b]" "to_backend s' = req"
  shows "outcome n r req (sh, s) ([], Some (b, response)) (sh', s')"
  using assms by (auto simp: outcome_def told_def alike_def nth_list_update)

lemma outcome_skipped:
  assumes "alike n r sh (sh_breakers sh) sh1" and "reached s1 = reached s" and "outcome n r req (sh1, s1) w d"
  shows "outcome n r req (sh, s) w d"
  using assms by (auto simp: outcome_def alike_def split: prod.splits)

lemma outcome_failed:
  assumes "alike n r sh ((sh_breakers sh)[b := record_failure (clock sh k) (sh_breakers sh ! b)]) sh1"
    and "reached s1 = reached s @ [b]" and "outcome n r req (sh1, s1) (failed, a) d"
    and "b \<notin> set failed" and "\<forall>response. a \<noteq> Some (b, response)"
  shows "outcome n r req (sh, s) (b # failed, a) d"
proof -
  obtain sh' s' where d: "d = (sh', s')" by fastforce
  have "told (clock sh) failed a ((sh_breakers sh)[b := record_failure (clock sh k) (sh_breakers sh ! b)]) (sh_breakers sh')"
    using assms(1,3) d by (simp add: outcome_def alike_def)
  then have "told (clock sh) (b # failed) a (sh_breakers sh) (sh_breakers sh')"
    using assms(4,5) by (rule told_Cons)
  then show ?thesis using assms(1-3) d by (auto simp: outcome_def alike_def)
qed

text \<open>One iteration with an answering and one with a failing backend.\<close>

lemma iteration:
  assumes env: "env = harness cfgs nets req" and nets: "\<And>b. b < n \<Longrightarrow> accepts (nets b)"
    and req: "req \<noteq> []" "length req \<le> relay_buffer"
    and ok: "shared_ok n r sh" and s: "waiting req s" "attempts s < max_attempts s"
    and pick: "get_backend_excluding r (client_key s) (excluded s) = Some b"
    and closed: "cb_state (sh_breakers sh ! b) = CLOSED"
  shows "\<exists>sh' s'. leads env (resume (Continue (sh, s))) (sh', s') \<and> alike n r sh (sh_breakers sh) sh' \<and>
    pc s' = Relaying Reading Reading \<and> received s' = req \<and> req_buf s' = \<lparr>data = req, capped = False\<rparr> \<and>
    to_backend s' = req \<and> \<not> response_started s' \<and> to_client s' = [] \<and> backend_index s' = b \<and> backend_socket s' \<noteq> None \<and>
    reached s' = reached s @ [b] \<and> client_key s' = client_key s \<and> excluded s' = excluded s \<and> attempts s' = attempts s \<and>
    max_attempts s' = max_attempts s"
proof -
  obtain sh1 l1 where one: "resume (Continue (sh, s)) = resume (gated b (sh1, s\<lparr>log := l1\<rparr>))"
    "alike n r sh (sh_breakers sh) sh1" and b: "b < n"
    using loop_pick [OF ok pick s(2)] by blast
  have sh1: "shared_ok n r sh1" "cb_state (sh_breakers sh1 ! b) = CLOSED"
    using one(2) closed by (simp_all add: alike_def)
  have buf: "req_buf (s\<lparr>log := l1\<rparr>) = \<lparr>data = received (s\<lparr>log := l1\<rparr>), capped = False\<rparr>"
    "received (s\<lparr>log := l1\<rparr>) = [] \<or> received (s\<lparr>log := l1\<rparr>) = req" using s(1) by (auto simp: waiting_def)
  obtain sh2 l2 sock where two: "leads env (resume (gated b (sh1, s\<lparr>log := l1\<rparr>)))
      (sh2, s\<lparr>log := l1, backend_index := b, grants := grants s @ [b], backend_socket := Some sock, reached := reached s @ [b],
        log := l2, req_buf := \<lparr>data = req, capped = False\<rparr>, received := req, to_backend := req, response_started := False,
        pc := Relaying Reading Reading\<rparr>)" "alike n r sh1 (sh_breakers sh1) sh2"
    using granted_leads [OF env nets sh1(1) b sh1(2) req buf] by auto
  have "sh_breakers sh1 = sh_breakers sh" using one(2) by (simp add: alike_def)
  then have "alike n r sh (sh_breakers sh) sh2" using alike_trans [OF one(2) two(2)] by simp
  then show ?thesis
    unfolding one(1) using two(1) s(1) by (intro exI conjI) (assumption | simp add: waiting_def)+
qed

text \<open>The loop has been here for backend \<open>b\<close>.\<close>

definition given_up :: "string \<Rightarrow> nat \<Rightarrow> session \<Rightarrow> session \<Rightarrow> bool" where
  "given_up req b s s' \<longleftrightarrow> waiting req s' \<and> client_key s' = client_key s \<and> excluded s' = insert b (excluded s) \<and>
     attempts s' = attempts s + 1 \<and> max_attempts s' = max_attempts s"

lemma skip_iteration:
  assumes ok: "shared_ok n r sh" and s: "waiting req s" "attempts s < max_attempts s"
    and pick: "get_backend_excluding r (client_key s) (excluded s) = Some b"
    and shut: "steady (clock sh) (sh_breakers sh ! b)" "cb_state (sh_breakers sh ! b) \<noteq> CLOSED"
  shows "\<exists>sh' s'. resume (Continue (sh, s)) = resume (Continue (sh', s')) \<and> alike n r sh (sh_breakers sh) sh' \<and>
    given_up req b s s' \<and> reached s' = reached s"
proof -
  obtain sh1 l1 where one: "resume (Continue (sh, s)) = resume (gated b (sh1, s\<lparr>log := l1\<rparr>))"
    "alike n r sh (sh_breakers sh) sh1" and b: "b < n"
    using loop_pick [OF ok pick s(2)] by blast
  have sh1: "shared_ok n r sh1" "cb_state (sh_breakers sh1 ! b) = OPEN"
    "clock sh1 (ticks sh1) - opened_at (sh_breakers sh1 ! b) < cooldown_nanos (sh_breakers sh1 ! b)" "sh_breakers sh1 = sh_breakers sh"
    using one(2) shut by (auto simp: alike_def steady_def)
  from refused_leads [OF sh1(1) b sh1(2,3), of "s\<lparr>log := l1\<rparr>"] obtain sh2 l2
    where two: "gated b (sh1, s\<lparr>log := l1\<rparr>) =
      Continue (sh2, s\<lparr>log := l1, log := l2, excluded := insert b (excluded s), attempts := attempts s + 1\<rparr>)"
      "alike n r sh1 (sh_breakers sh) sh2" using sh1(4) by auto
  show ?thesis
    unfolding one(1) two(1) using alike_trans [OF one(2) two(2)] s(1)
    by (intro exI conjI) (rule refl | assumption | simp add: given_up_def waiting_def)+
qed

lemma fail_iteration:
  assumes env: "env = harness cfgs nets req" and nets: "\<And>b. b < n \<Longrightarrow> accepts (nets b)"
    and req: "req \<noteq> []" "length req \<le> relay_buffer"
    and ok: "shared_ok n r sh" and s: "waiting req s" "attempts s < max_attempts s"
    and pick: "get_backend_excluding r (client_key s) (excluded s) = Some b"
    and closed: "cb_state (sh_breakers sh ! b) = CLOSED" and closes: "answer (cfgs b) = None"
  shows "\<exists>sh' s' k. leads env (resume (Continue (sh, s))) (resume (Continue (sh', s'))) \<and>
    alike n r sh ((sh_breakers sh)[b := record_failure (clock sh k) (sh_breakers sh ! b)]) sh' \<and>
    given_up req b s s' \<and> reached s' = reached s @ [b]"
proof -
  have b: "b < n" using loop_pick [OF ok pick s(2)] by blast
  obtain sh1 s1 where one: "leads env (resume (Continue (sh, s))) (sh1, s1)" "alike n r sh (sh_breakers sh) sh1"
    and s1: "pc s1 = Relaying Reading Reading" "received s1 = req" "req_buf s1 = \<lparr>data = req, capped = False\<rparr>"
    "\<not> response_started s1" "to_client s1 = []" "backend_index s1 = b" "backend_socket s1 \<noteq> None"
    "reached s1 = reached s @ [b]" "client_key s1 = client_key s" "excluded s1 = excluded s" "attempts s1 = attempts s"
    "max_attempts s1 = max_attempts s"
    using iteration [OF env nets req ok s pick closed] by metis
  have sh1: "shared_ok n r sh1" "clock sh1 = clock sh" "sh_breakers sh1 = sh_breakers sh" using one(2) by (simp_all add: alike_def)
  obtain sock where "backend_socket s1 = Some sock" using s1(7) by blast
  then obtain sh2 l k where two: "leads env (sh1, s1) (resume (Continue (sh2, s1\<lparr>pc := Relaying Returned Returned,
      backend_socket := None, reports := reports s1 @ [b], log := l, excluded := insert b (excluded s1),
      attempts := attempts s1 + 1\<rparr>)))"
    "alike n r sh1 ((sh_breakers sh)[b := record_failure (clock sh k) (sh_breakers sh ! b)]) sh2"
    using failed_leads [OF env sh1(1) b, of s1 sock] s1 req(1) closes sh1(2,3) by auto
  show ?thesis
    using leads_trans [OF one(1) two(1)] alike_trans [OF one(2) two(2)] s1
    by (intro exI conjI) (assumption | simp add: given_up_def waiting_def)+
qed

lemma serve_iteration:
  assumes env: "env = harness cfgs nets req" and nets: "\<And>b. b < n \<Longrightarrow> accepts (nets b)"
    and req: "req \<noteq> []" "length req \<le> relay_buffer"
    and ok: "shared_ok n r sh" and s: "waiting req s" "attempts s < max_attempts s"
    and pick: "get_backend_excluding r (client_key s) (excluded s) = Some b"
    and closed: "cb_state (sh_breakers sh ! b) = CLOSED"
    and response: "answer (cfgs b) = Some response" "response \<noteq> []" "length response \<le> relay_buffer"
  shows "\<exists>d. leads env (resume (Continue (sh, s))) d \<and> outcome n r req (sh, s) ([], Some (b, response)) d"
proof -
  have b: "b < n" using loop_pick [OF ok pick s(2)] by blast
  obtain sh1 s1 where one: "leads env (resume (Continue (sh, s))) (sh1, s1)" "alike n r sh (sh_breakers sh) sh1"
    and s1: "pc s1 = Relaying Reading Reading" "received s1 = req" "to_backend s1 = req"
    "\<not> response_started s1" "to_client s1 = []" "backend_index s1 = b" "backend_socket s1 \<noteq> None" "reached s1 = reached s @ [b]"
    using iteration [OF env nets req ok s pick closed] by metis
  have sh1: "shared_ok n r sh1" "sh_breakers sh1 = sh_breakers sh" using one(2) by (simp_all add: alike_def)
  obtain sock where "backend_socket s1 = Some sock" using s1(7) by blast
  then obtain sh2 l where two: "leads env (sh1, s1) (sh2, s1\<lparr>response_started := True,
      from_backend := from_backend s1 @ response, to_client := response, backend_socket := None, reports := reports s1 @ [b], log := l, pc := Finished\<rparr>)"
    "alike n r sh1 ((sh_breakers sh)[b := record_success (sh_breakers sh ! b)]) sh2"
    using served_leads [OF env sh1(1) b, of s1 sock response] s1 req(1) response sh1(2) by auto
  have "outcome n r req (sh, s) ([], Some (b, response)) (sh2, s1\<lparr>response_started := True,
      from_backend := from_backend s1 @ response, to_client := response, backend_socket := None, reports := reports s1 @ [b], log := l, pc := Finished\<rparr>)"
    by (rule outcome_served [OF alike_trans [OF one(2) two(2)]]) (simp_all add: s1)
  then show ?thesis using leads_trans [OF one(1) two(1)] by blast
qed

lemma exhausted_iteration:
  assumes env: "env = harness cfgs nets req" and ok: "shared_ok n r sh" and s: "waiting req s"
    and stop: "\<not> attempts s < max_attempts s \<or> get_backend_excluding r (client_key s) (excluded s) = None"
  shows "\<exists>d. leads env (resume (Continue (sh, s))) d \<and> outcome n r req (sh, s) ([], None) d"
proof -
  obtain sh' l where one: "leads env (resume (Continue (sh, s)))
      (sh', s\<lparr>log := l, to_client := to_client s @ unavailable_response, pc := Finished\<rparr>)" "alike n r sh (sh_breakers sh) sh'"
    using loop_exhausted_leads [OF env ok stop] by blast
  have "outcome n r req (sh, s) ([], None)
      (sh', s\<lparr>log := l, to_client := to_client s @ unavailable_response, pc := Finished\<rparr>)"
    using s by (intro outcome_none [OF one(2)]) (simp_all add: waiting_def)
  then show ?thesis using one(1) by blast
qed

lemma loop_leads:
  assumes env: "env = harness cfgs nets req" and nets: "\<And>b. b < n \<Longrightarrow> accepts (nets b)"
    and req: "req \<noteq> []" "length req \<le> relay_buffer"
    and answers: "\<And>b response. b < n \<Longrightarrow> answer (cfgs b) = Some response \<Longrightarrow> response \<noteq> [] \<and> length response \<le> relay_buffer"
    and "shared_ok n r sh" and "waiting req s" and "nat (max_attempts s - attempts s) = m"
    and "\<And>b. b < n \<Longrightarrow> b \<notin> excluded s \<Longrightarrow> steady (clock sh) (sh_breakers sh ! b)"
  shows "\<exists>d. leads env (resume (Continue (sh, s))) d \<and>
    outcome n r req (sh, s) (walk (\<lambda>b. cb_state (sh_breakers sh ! b) = CLOSED) (\<lambda>b. answer (cfgs b))
      (ring_order m r (client_key s) (excluded s))) d"
  using assms(6-9)
proof (induction m arbitrary: sh s)
  case 0
  then show ?case using exhausted_iteration [OF env 0(1,2)] by simp
next
  case (Suc m)
  let ?gate = "\<lambda>sh b. cb_state (sh_breakers sh ! b) = CLOSED" and ?ans = "\<lambda>b. answer (cfgs b)"
  have inv: "ring_inv r" using Suc.prems(1) by (simp add: shared_ok_def)
  have more: "attempts s < max_attempts s" using Suc.prems(3) by simp
  show ?case
  proof (cases "get_backend_excluding r (client_key s) (excluded s)")
    case None
    then show ?thesis using exhausted_iteration [OF env Suc.prems(1,2)] by simp
  next
    case (Some b)
    let ?rest = "ring_order m r (client_key s) (insert b (excluded s))"
    have b: "b < n" "b \<notin> excluded s" using loop_pick [OF Suc.prems(1) Some more] by blast+
    have fresh: "c \<noteq> b" if "c \<in> set ?rest" for c using ring_order_fresh [OF inv that] by blast
    have rest: "\<exists>d. leads env (resume (Continue (sh', s'))) d \<and> outcome n r req (sh', s') (walk (?gate sh) ?ans ?rest) d"
      if given: "given_up req b s s'" and sh': "alike n r sh ((sh_breakers sh)[b := br]) sh'" for sh' s' br
    proof -
      have brs: "sh_breakers sh' ! c = sh_breakers sh ! c" if "c \<noteq> b" for c using sh' that by (simp add: alike_def)
      then have "walk (?gate sh') ?ans ?rest = walk (?gate sh) ?ans ?rest" using fresh by (intro walk_cong) simp
      then show ?thesis
        using Suc.IH [of sh' s'] Suc.prems(3,4) given sh' brs by (simp add: given_up_def alike_def)
    qed
    consider "\<not> ?gate sh b" | response where "?gate sh b" "?ans b = Some response" | "?gate sh b" "?ans b = None"
      by (cases "?ans b") blast+
    then show ?thesis
    proof cases
      case 1
      then obtain sh' s' where one: "resume (Continue (sh, s)) = resume (Continue (sh', s'))"
        "alike n r sh (sh_breakers sh) sh'" "given_up req b s s'" "reached s' = reached s"
        using skip_iteration [OF Suc.prems(1,2) more Some Suc.prems(4) [OF b]] by blast
      obtain d where d: "leads env (resume (Continue (sh', s'))) d" "outcome n r req (sh', s') (walk (?gate sh) ?ans ?rest) d"
        using rest [OF one(3), of "sh_breakers sh ! b" sh'] one(2) by auto
      from outcome_skipped [OF one(2,4) d(2)] d(1) show ?thesis using 1 Some one(1) by (auto simp del: split_paired_Ex)
    next
      case (2 response)
      then show ?thesis
        using serve_iteration [OF env nets req Suc.prems(1,2) more Some] answers [OF b(1), of response] Some by simp
    next
      case 3
      then obtain sh' s' k where one: "leads env (resume (Continue (sh, s))) (resume (Continue (sh', s')))"
        "alike n r sh ((sh_breakers sh)[b := record_failure (clock sh k) (sh_breakers sh ! b)]) sh'"
        "given_up req b s s'" "reached s' = reached s @ [b]"
        using fail_iteration [OF env nets req Suc.prems(1,2) more Some] by blast
      obtain failed a where w: "walk (?gate sh) ?ans ?rest = (failed, a)" by fastforce
      obtain d where d: "leads env (resume (Continue (sh', s'))) d" "outcome n r req (sh', s') (failed, a) d"
        using rest [OF one(3,2)] w by auto
      have "set failed \<subseteq> set ?rest" "\<And>c response. a = Some (c, response) \<Longrightarrow> c \<in> set ?rest"
        using walk_subset [of "?gate sh" ?ans ?rest] w by auto
      then have "b \<notin> set failed" "\<forall>response. a \<noteq> Some (b, response)" using fresh by blast+
      from outcome_failed [OF one(2,4) d(2) this] leads_trans [OF one(1) d(1)] show ?thesis using 3 Some w by (auto simp del: split_paired_Ex)
    qed
  qed
qed

section \<open>The whole request\<close>

lemma failover:
  assumes ok: "shared_ok n r sh" and nets: "\<And>b. b < n \<Longrightarrow> accepts (nets b)"
    and steady: "\<And>b. b < n \<Longrightarrow> steady (clock sh) (sh_breakers sh ! b)"
    and req: "req \<noteq> []" "length req \<le> relay_buffer"
    and answers: "\<And>b response. b < n \<Longrightarrow> answer (cfgs b) = Some response \<Longrightarrow> response \<noteq> [] \<and> length response \<le> relay_buffer"
  shows "\<exists>d. leads (harness cfgs nets req) (sh, new_session key cid k) d \<and>
    outcome n r req (sh, new_session key cid k) (walk (\<lambda>b. cb_state (sh_breakers sh ! b) = CLOSED)
      (\<lambda>b. answer (cfgs b)) (ring_order (nat k) r key {})) d"
proof -
  let ?env = "harness cfgs nets req" and ?s = "new_session key cid k"
  let ?fs = "[log_event ''request_received'' (Session.fields ''client'' key),
      on_metrics (\<lambda>m. Inr (record_request_received m))]"
  obtain sh1 l where one: "perform ?fs Continue (sh, ?s) = Continue (sh1, ?s\<lparr>log := l\<rparr>)" "alike n r sh (sh_breakers sh) sh1"
    using perform_alike [of n r ?fs sh Continue ?s] ok by (auto simp: telemetry_rules simp del: perform.simps)
  have "step (?env ?s) (sh, ?s) = Some (resume (Continue (sh1, ?s\<lparr>log := l\<rparr>)))"
    using one(1) by (simp add: harness_def new_session_def handle_client_def del: perform.simps)
  then have start: "leads ?env (sh, ?s) (resume (Continue (sh1, ?s\<lparr>log := l\<rparr>)))"
    by (intro leadsI [of _ 1]) simp
  let ?t = "?s\<lparr>log := l\<rparr>"
  have sh1: "shared_ok n r sh1" "sh_breakers sh1 = sh_breakers sh" "\<And>b. b < n \<Longrightarrow> steady (clock sh1) (sh_breakers sh1 ! b)"
    using one(2) steady by (simp_all add: alike_def)
  have "waiting req ?t" by (simp add: waiting_def new_session_def new_buffer_def)
  with sh1 have "\<exists>d. leads ?env (resume (Continue (sh1, ?t))) d \<and>
    outcome n r req (sh1, ?t) (walk (\<lambda>b. cb_state (sh_breakers sh1 ! b) = CLOSED) (\<lambda>b. answer (cfgs b))
      (ring_order (nat k) r (client_key ?t) (excluded ?t))) d"
    by (intro loop_leads [OF refl nets req]) (erule (1) answers | simp add: new_session_def)+
  then obtain d where d: "leads ?env (resume (Continue (sh1, ?t))) d"
    "outcome n r req (sh1, ?t) (walk (\<lambda>b. cb_state (sh_breakers sh ! b) = CLOSED) (\<lambda>b. answer (cfgs b))
      (ring_order (nat k) r key {})) d"
    unfolding sh1(2) by (auto simp: new_session_def)
  have "reached (?s\<lparr>log := l\<rparr>) = reached ?s" by simp
  from outcome_skipped [OF one(2) this d(2)] leads_trans [OF start d(1)] show ?thesis by blast
qed

section \<open>The order\<close>

text \<open>With enough attempts the walk passes every backend on the ring, each once.\<close>

lemma ring_order_covers:
  assumes "ring_inv r"
  shows "distinct (ring_order m r key X)"
    and "card (snd ` set (ring r) - X) \<le> m \<Longrightarrow> set (ring_order m r key X) = snd ` set (ring r) - X"
proof -
  show "distinct (ring_order m r key X)"
    using ring_order_fresh [OF assms, of _ _ key] by (induction m arbitrary: X) (auto split: option.splits)
  show "card (snd ` set (ring r) - X) \<le> m \<Longrightarrow> set (ring_order m r key X) = snd ` set (ring r) - X"
  proof (induction m arbitrary: X)
    case (Suc m)
    show ?case
    proof (cases "get_backend_excluding r key X")
      case None
      then have "snd ` set (ring r) - X = {}" using get_backend_excluding_None [OF ring_inv_sorted [OF assms], of key X] by simp
      then show ?thesis using None by simp
    next
      case (Some b)
      then have b: "b \<in> snd ` set (ring r) - X"
        using get_backend_excluding_iff [OF ring_inv_sorted [OF assms], of key X b] by force
      then have "card (snd ` set (ring r) - insert b X) \<le> m"
        using Suc.prems by (simp add: Diff_insert [of _ b X] card_Diff_singleton)
      from Suc.IH [OF this] show ?thesis using Some b by auto
    qed
  qed auto
qed

lemma walk_distinct:
  "walk gate ans bs = (failed, a) \<Longrightarrow> distinct bs \<Longrightarrow> distinct (failed @ (case a of None \<Rightarrow> [] | Some (b, response) \<Rightarrow> [b]))"
proof (induction bs arbitrary: failed a)
  case (Cons b bs)
  obtain failed' a' where w: "walk gate ans bs = (failed', a')" by fastforce
  have "set failed' \<subseteq> set bs" "\<And>c response. a' = Some (c, response) \<Longrightarrow> c \<in> set bs"
    using walk_subset [of gate ans bs] w by auto
  then show ?case using Cons.IH [OF w] Cons.prems w by (auto split: if_splits option.splits)
qed simp

text \<open>The request is answered unless every backend passed closes without a byte.\<close>

lemma walk_answers: "snd (walk gate ans bs) \<noteq> None \<longleftrightarrow> (\<exists>b \<in> set bs. gate b \<and> ans b \<noteq> None)"
  by (induction bs) (auto simp: split_def Let_def split: option.splits)

end
