(* ===== verification/Integration_Tests.thy ===== *)
theory Integration_Tests
  imports Fake_Backends Proxy_Main
begin

text \<open>
  The scenarios of \<^verbatim>\<open>src/test_proxy_integration.cpp\<close> with one client at a time: normal operation (A),
  a burst (B), a breaker tripped by real failures (C), total outage (E) and a backend that dies in the middle of
  its response (F). A \<open>pipeline\<close> is the test's proxy with its fake backends; \<open>send_request\<close> is the
  test client's call, from the listener's decision to the last byte of the response. Its fuel bounds the
  steps of the session, and every statement gives fuel that is enough. The burst of
  scenario B is run one request after the other; scenario D, clients in parallel on a half-open
  breaker, is not run: \<open>Proxy_Trials\<close> shows for every interleaving what it looks for.
\<close>

section \<open>The pipeline\<close>

record pipeline =
  pl_shared :: shared
  pl_limiter :: rate_limiter
  backends_cfg :: "FakeBackend list"
  pl_listening :: bool

definition new_pipeline ::
  "nat list \<Rightarrow> rat \<Rightarrow> rat \<Rightarrow> int \<Rightarrow> int \<Rightarrow> int \<Rightarrow> nat \<Rightarrow> (nat \<Rightarrow> nanos) \<Rightarrow> pipeline" where
  "new_pipeline backend_ports rl_refill rl_capacity breaker_failure_threshold breaker_success_threshold
     breaker_cooldown pool_size clk =
     \<lparr>pl_shared =
        \<lparr>sh_pool = new_pool (map (\<lambda>p. \<lparr>host = ''127.0.0.1'', port = to_string p, min_pool_size = pool_size\<rparr>) backend_ports),
         sh_ring = fold add_backend [0..<length backend_ports] (new_ring default_vnodes),
         sh_breakers = replicate (length backend_ports)
           (new_breaker breaker_failure_threshold breaker_success_threshold breaker_cooldown),
         sh_metrics = new_metrics (length backend_ports), clock = clk, ticks = 0\<rparr>,
      pl_limiter = new_limiter rl_refill rl_capacity 64,
      backends_cfg = replicate (length backend_ports) new_fake_backend,
      pl_listening = True\<rparr>"

text \<open>One iteration of the test's own \<^verbatim>\<open>listen\<close>: the coroutine it spawns, if any. \<open>None\<close> is the division by
  zero of \<^verbatim>\<open>allow\<close> without shards.\<close>

datatype spawned = Rejects string | Serves session | Nothing

definition test_rejection :: string where
  "test_rejection =
     (let body = ''Rate limited'' @ nl in
      ''HTTP/1.1 429 Too Many Requests'' @ crlf @ ''Content-Length: '' @ to_string (length body) @ crlf @
      ''Connection: close'' @ crlf @ crlf @ body)"

definition pipeline_listen :: "arrival \<Rightarrow> pipeline \<Rightarrow> (spawned \<times> pipeline) option" where
  "pipeline_listen a p =
     (case ar_accept a of
        Inl e \<Rightarrow> Some (Nothing, p\<lparr>pl_listening := False\<rparr>)
      | Inr _ \<Rightarrow>
     (case ar_no_delay a of
        Inl e \<Rightarrow> Some (Nothing, p\<lparr>pl_listening := False\<rparr>)
      | Inr _ \<Rightarrow>
     (let key = (case ar_remote a of None \<Rightarrow> ''unknown'' | Some address \<Rightarrow> address) in
      case allow (ar_now a) key (pl_limiter p) of
        None \<Rightarrow> None
      | Some (ok, limiter) \<Rightarrow>
          let p = p\<lparr>pl_limiter := limiter\<rparr> in
          if \<not> ok then
            Some (Rejects test_rejection,
              p\<lparr>pl_shared := (pl_shared p)\<lparr>sh_metrics := record_rate_limited (sh_metrics (pl_shared p))\<rparr>\<rparr>)
          else Some (Serves (new_session key (''test-'' @ key) default_max_attempts), p))))"

section \<open>The client\<close>

definition test_request :: string where
  "test_request =
     ''GET / HTTP/1.1'' @ crlf @ ''Host: x'' @ crlf @ ''Connection: close'' @ crlf @ crlf"

fun run_session :: "(session \<Rightarrow> event) \<Rightarrow> nat \<Rightarrow> conf \<Rightarrow> conf option" where
  "run_session env m c =
     (if pc (snd c) = Finished then Some c
      else case m of 0 \<Rightarrow> None | Suc m' \<Rightarrow> Option.bind (step (env (snd c)) c) (run_session env m'))"

declare run_session.simps [simp del]

text \<open>Every connection of the session to a backend is one run of \<^verbatim>\<open>fake_backend_session\<close>.\<close>

definition visit :: "nat list \<Rightarrow> FakeBackend list \<Rightarrow> FakeBackend list" where
  "visit bs cfgs = fold (\<lambda>b cfgs. cfgs[b := fst (fake_backend_session (cfgs ! b))]) bs cfgs"

text \<open>What the client reads until the connection closes; \<open>None\<close> when it waits for ever or the fuel is
  used up.\<close>

definition send_request :: "nat \<Rightarrow> (nat \<Rightarrow> net) \<Rightarrow> arrival \<Rightarrow> pipeline \<Rightarrow> (string \<times> pipeline) option" where
  "send_request m nets a p =
     (if \<not> pl_listening p then None
      else case pipeline_listen a p of
        Some (Rejects response, p') \<Rightarrow> Some (response, p')
      | Some (Serves s, p') \<Rightarrow>
          (case run_session (harness (\<lambda>b. backends_cfg p' ! b) nets test_request) m (pl_shared p', s) of
             None \<Rightarrow> None
           | Some (sh, s') \<Rightarrow>
               Some (to_client s', p'\<lparr>pl_shared := sh, backends_cfg := visit (reached s') (backends_cfg p')\<rparr>))
      | _ \<Rightarrow> None)"

fun send_requests :: "nat \<Rightarrow> (nat \<Rightarrow> net) \<Rightarrow> arrival list \<Rightarrow> pipeline \<Rightarrow> (string list \<times> pipeline) option" where
  "send_requests m nets [] p = Some ([], p)"
| "send_requests m nets (a # as) p =
     Option.bind (send_request m nets a p) (\<lambda>(response, p').
       Option.bind (send_requests m nets as p') (\<lambda>(responses, p''). Some (response # responses, p'')))"

lemma run_session_more: "run_session env m c = Some d \<Longrightarrow> m \<le> m' \<Longrightarrow> run_session env m' c = Some d"
proof (induction m arbitrary: m' c)
  case 0
  then show ?case by (simp add: run_session.simps [of env _ c] split: if_splits)
next
  case (Suc m)
  then obtain k where k: "m' = Suc k" "m \<le> k" by (metis Suc_le_D Suc_le_mono)
  show ?case
    using Suc.prems(1) Suc.IH k by (auto simp: run_session.simps [of env _ c] bind_eq_Some_conv split: if_splits)
qed

lemma finished_stuck: "pc s = Finished \<Longrightarrow> step e (sh, s) = None"
  by (cases e) auto

lemma dialogue_run_session:
  "dialogue env m c = Some d \<Longrightarrow> pc (snd d) = Finished \<Longrightarrow> run_session env m c = Some d"
proof (induction m arbitrary: c)
  case 0
  then show ?case by (simp add: run_session.simps [of env 0])
next
  case (Suc m)
  then have "pc (snd c) \<noteq> Finished" using finished_stuck [of "snd c" _ "fst c"] by (auto simp: bind_eq_Some_conv)
  then show ?case using Suc by (auto simp: run_session.simps [of env _ c] bind_eq_Some_conv)
qed

lemma send_request_more:
  assumes "send_request m nets a p = Some d" and "m \<le> m'"
  shows "send_request m' nets a p = Some d"
proof (cases "\<exists>s p'. pl_listening p \<and> pipeline_listen a p = Some (Serves s, p')")
  case True
  then obtain s p' where l: "pl_listening p" "pipeline_listen a p = Some (Serves s, p')" by blast
  let ?run = "\<lambda>m. run_session (harness (\<lambda>b. backends_cfg p' ! b) nets test_request) m (pl_shared p', s)"
  obtain c where "?run m = Some c" using assms(1) l by (fastforce simp: send_request_def split: option.splits)
  moreover from run_session_more [OF this assms(2)] have "?run m' = Some c" .
  ultimately show ?thesis using assms(1) l by (simp add: send_request_def)
next
  case False
  then have "send_request m' nets a p = send_request m nets a p"
    by (auto simp: send_request_def split: option.splits spawned.splits)
  with assms(1) show ?thesis by simp
qed

lemma send_requests_more: "send_requests m nets as p = Some d \<Longrightarrow> m \<le> m' \<Longrightarrow> send_requests m' nets as p = Some d"
proof (induction "as" arbitrary: p d)
  case (Cons a as)
  then show ?case using send_request_more [OF _ Cons.prems(2)] by (fastforce simp: bind_eq_Some_conv)
qed simp

lemma send_requests_snoc:
  assumes "send_requests m nets as p = Some (responses, p')" and "send_request m nets a p' = Some (response, p'')"
  shows "send_requests m nets (as @ [a]) p = Some (responses @ [response], p'')"
  using assms by (induction "as" arbitrary: p responses) (auto simp: bind_eq_Some_conv)

lemma visit_frame:
  "length (visit bs cfgs) = length cfgs"
  "cfg \<in> set (visit bs cfgs) \<Longrightarrow> \<exists>cfg' \<in> set cfgs. canned_response cfg = canned_response cfg'"
proof -
  show "length (visit bs cfgs) = length cfgs" by (induction bs arbitrary: cfgs) (simp_all add: visit_def)
  have one: "\<exists>cfg' \<in> set cfgs. canned_response cfg = canned_response cfg'"
    if "cfg \<in> set (cfgs[b := fst (fake_backend_session (cfgs ! b))])" for b cfgs cfg
  proof (cases "b < length cfgs")
    case True
    then show ?thesis using that set_update_subset_insert [of cfgs b] by fastforce
  qed (use that in \<open>auto simp: list_update_beyond\<close>)
  show "cfg \<in> set (visit bs cfgs) \<Longrightarrow> \<exists>cfg' \<in> set cfgs. canned_response cfg = canned_response cfg'"
  proof (induction bs arbitrary: cfgs)
    case (Cons b bs)
    then show ?case using one [of _ cfgs b] by (fastforce simp: visit_def)
  qed (auto simp: visit_def)
qed

lemma visit_hits:
  "\<lbrakk>distinct bs; b < length cfgs\<rbrakk> \<Longrightarrow>
    visit bs cfgs ! b = (cfgs ! b)\<lparr>hit_count := hit_count (cfgs ! b) + of_bool (b \<in> set bs)\<rparr>"
  by (induction bs arbitrary: cfgs) (auto simp: visit_def nth_list_update)

section \<open>One request\<close>

definition pipeline_ok :: "pipeline \<Rightarrow> bool" where
  "pipeline_ok p \<longleftrightarrow> pl_listening p \<and> shared_ok 3 (main_ring 3) (pl_shared p) \<and> length (backends_cfg p) = 3 \<and>
     (\<forall>cfg \<in> set (backends_cfg p). canned_response cfg \<noteq> [] \<and> length (canned_response cfg) \<le> relay_buffer)"

lemma new_pipeline_ok: "length ports = 3 \<Longrightarrow> pipeline_ok (new_pipeline ports rate cap ft st cd sz clk)"
  using main_ring_inv [of 3] main_ring_frame [of 3]
  by (auto simp: pipeline_ok_def new_pipeline_def shared_ok_def main_ring_def pool_ok_def new_pool_def list_all_iff
      metrics_ok_def new_metrics_def new_fake_backend_def relay_buffer_def crlf_def)

definition arrives :: "string \<Rightarrow> arrival \<Rightarrow> bool" where
  "arrives key a \<longleftrightarrow> ar_accept a = Inr () \<and> ar_no_delay a = Inr () \<and> ar_remote a = Some key"

text \<open>The reference at the pipeline: who fails and who answers.\<close>

definition expected :: "string \<Rightarrow> pipeline \<Rightarrow> nat list \<times> (nat \<times> string) option" where
  "expected key p =
     walk (\<lambda>b. cb_state (sh_breakers (pl_shared p) ! b) = CLOSED) (\<lambda>b. answer (backends_cfg p ! b))
       (ring_order 3 (main_ring 3) key {})"

lemma answer_bounds:
  assumes "pipeline_ok p" and "b < 3" and "answer (backends_cfg p ! b) = Some response"
  shows "response \<noteq> [] \<and> length response \<le> relay_buffer"
proof -
  have "backends_cfg p ! b \<in> set (backends_cfg p)" using assms(1,2) by (simp add: pipeline_ok_def)
  then show ?thesis
    using assms(1,3) by (auto simp: pipeline_ok_def answer_def partial_response_def relay_buffer_def crlf_def split: Mode.splits)
qed

lemma test_request_bounds: "test_request \<noteq> []" "length test_request \<le> relay_buffer"
  by (simp_all add: test_request_def crlf_def relay_buffer_def)

lemma send_request_outcome:
  assumes ok: "pipeline_ok p" and nets: "\<forall>b < 3. accepts (nets b)"
    and steady: "\<And>b. b < 3 \<Longrightarrow> steady (clock (pl_shared p)) (sh_breakers (pl_shared p) ! b)"
    and a: "arrives key a" "allow (ar_now a) key (pl_limiter p) = Some (True, rl)"
    and w: "expected key p = (failed, ans)"
  shows "\<exists>m p'. send_request m nets a p =
      Some (case ans of None \<Rightarrow> unavailable_response | Some (b, response) \<Rightarrow> response, p') \<and>
    pl_limiter p' = rl \<and> pipeline_ok p' \<and> clock (pl_shared p') = clock (pl_shared p) \<and>
    backends_cfg p' = visit (failed @ (case ans of None \<Rightarrow> [] | Some (b, response) \<Rightarrow> [b])) (backends_cfg p) \<and>
    told (clock (pl_shared p)) failed ans (sh_breakers (pl_shared p)) (sh_breakers (pl_shared p'))"
proof -
  let ?p = "p\<lparr>pl_limiter := rl\<rparr>" and ?s = "new_session key (''test-'' @ key) default_max_attempts"
  have listen: "pipeline_listen a p = Some (Serves ?s, ?p)" using a by (simp add: pipeline_listen_def arrives_def)
  have sh: "shared_ok 3 (main_ring 3) (pl_shared p)" using ok by (simp add: pipeline_ok_def)
  have "\<exists>d. leads (harness (\<lambda>b. backends_cfg p ! b) nets test_request) (pl_shared p, ?s) d \<and>
    outcome 3 (main_ring 3) test_request (pl_shared p, ?s) (walk (\<lambda>b. cb_state (sh_breakers (pl_shared p) ! b) = CLOSED)
      (\<lambda>b. answer (backends_cfg p ! b)) (ring_order (nat default_max_attempts) (main_ring 3) key {})) d"
    by (rule failover [OF sh _ steady test_request_bounds]) (assumption | erule (1) answer_bounds [OF ok] | simp add: nets)+
  then obtain m sh' s' where run: "dialogue (harness (\<lambda>b. backends_cfg p ! b) nets test_request) m (pl_shared p, ?s) = Some (sh', s')"
    and out: "outcome 3 (main_ring 3) test_request (pl_shared p, ?s) (failed, ans) (sh', s')"
    using w by (auto simp: leads_def expected_def default_max_attempts_def)
  have fin: "pc s' = Finished" using out by (simp add: outcome_def)
  have "reached ?s = []" by (simp add: new_session_def)
  then have tr: "reached s' = failed @ (case ans of None \<Rightarrow> [] | Some (b, response) \<Rightarrow> [b])" using out by (simp add: outcome_def)
  let ?p' = "?p\<lparr>pl_shared := sh', backends_cfg := visit (reached s') (backends_cfg p)\<rparr>"
  have "send_request m nets a p = Some (to_client s', ?p')"
    using listen dialogue_run_session [OF run] fin ok by (simp add: send_request_def pipeline_ok_def)
  moreover have "pipeline_ok ?p'" using out ok by (fastforce simp: outcome_def pipeline_ok_def visit_frame(1) dest: visit_frame(2))
  ultimately show ?thesis using out tr by (intro exI [of _ m] exI [of _ ?p']) (auto simp: outcome_def)
qed

section \<open>Requests one after the other\<close>

text \<open>A bucket that has \<open>j\<close> tokens at \<open>now\<close> or will have been created with them.\<close>

definition plenty :: "nat \<Rightarrow> nanos \<Rightarrow> string \<Rightarrow> rate_limiter \<Rightarrow> bool" where
  "plenty j now key rl \<longleftrightarrow> shards_inv rl \<and> 0 \<le> refill_rate_per_sec rl \<and> j < 2 ^ 53 \<and> of_nat j \<le> capacity rl \<and>
     (case flat rl key of None \<Rightarrow> True | Some b \<Rightarrow> of_nat j \<le> tokens b \<and> last_refill b \<le> now)"

lemma plenty_allow:
  assumes "plenty (Suc j) now key rl" and "now \<le> t"
  shows "\<exists>rl'. allow t key rl = Some (True, rl') \<and> plenty j t key rl'"
proof -
  let ?r = "refill_rate_per_sec rl" and ?c = "capacity rl"
  have whole: "is_double (of_nat i)" if "i \<le> Suc j" for i
    using that assms(1) is_double_of_int [of "int i"] by (simp add: plenty_def)
  have "of_nat (Suc j) \<le> refilled ?r ?c t (flat rl key)"
  proof (cases "flat rl key")
    case (Some b)
    then have "of_nat (Suc j) \<le> tokens b + credit ?r (t - last_refill b)"
      using assms credit_nonneg [of ?r "t - last_refill b"] by (simp add: plenty_def)
    from dbl.round_ge [OF whole this] show ?thesis using Some assms(1) by (simp add: refilled_def plenty_def)
  qed (use assms(1) in \<open>simp add: refilled_def plenty_def\<close>)
  then have "fst (bucket_allow ?r ?c t (flat rl key))" "of_nat j \<le> tokens (snd (bucket_allow ?r ?c t (flat rl key)))"
    "last_refill (snd (bucket_allow ?r ?c t (flat rl key))) = t"
    using dbl.round_ge [OF whole [of j], of "refilled ?r ?c t (flat rl key) - 1"] by (auto simp: bucket_allow_refilled)
  moreover obtain rl' where "allow t key rl = Some (fst (bucket_allow ?r ?c t (flat rl key)), rl')" "shards_inv rl'"
    "refill_rate_per_sec rl' = ?r" "capacity rl' = ?c"
    "flat rl' = (flat rl)(key \<mapsto> snd (bucket_allow ?r ?c t (flat rl key)))"
    using allow_on [of rl t key] assms(1) by (auto simp: plenty_def)
  ultimately show ?thesis using assms(1) by (simp add: plenty_def)
qed

text \<open>The ring offers every backend to every key, the first choice first.\<close>

lemma main_ring_order:
  assumes "get_backend (main_ring 3) key = Some b"
  shows "\<exists>bs. ring_order 3 (main_ring 3) key {} = b # bs \<and> distinct (b # bs) \<and> set (b # bs) = {..<3}"
proof -
  have inv: "ring_inv (main_ring 3)" using main_ring_inv [of 3] by simp
  have "snd ` set (ring (main_ring 3)) = {..<3}"
    using main_ring_owners main_ring_frame [of 3] inv by (force simp: ring_inv_def)
  then have "set (ring_order 3 (main_ring 3) key {}) = {..<3}" "distinct (ring_order 3 (main_ring 3) key {})"
    using ring_order_covers [OF inv, where m = 3 and key = key and X = "{}"] by auto
  moreover have "get_backend_excluding (main_ring 3) key {} = Some b"
    using assms get_backend_is_excluding_none [OF ring_inv_sorted [OF inv]] by simp
  then obtain bs where "ring_order 3 (main_ring 3) key {} = b # bs" by (simp add: numeral_3_eq_3)
  ultimately show ?thesis by metis
qed

section \<open>A failing backend\<close>

definition set_mode :: "nat \<Rightarrow> Mode \<Rightarrow> pipeline \<Rightarrow> pipeline" where
  "set_mode b mode p = p\<lparr>backends_cfg := (backends_cfg p)[b := (backends_cfg p ! b)\<lparr>fb_mode := mode\<rparr>]\<rparr>"

abbreviation ok_response :: string where
  "ok_response \<equiv> canned_response new_fake_backend"

text \<open>After \<open>j\<close> requests to a failing backend \<open>b\<close> with threshold \<open>t\<close>, all others being healthy.\<close>

definition tripping :: "nat \<Rightarrow> nat \<Rightarrow> int \<Rightarrow> (nat \<Rightarrow> nanos) \<Rightarrow> nat \<Rightarrow> pipeline \<Rightarrow> bool" where
  "tripping b t cd clk j p \<longleftrightarrow> pipeline_ok p \<and> clock (pl_shared p) = clk \<and>
     (\<forall>c < 3. c \<noteq> b \<longrightarrow> cb_state (sh_breakers (pl_shared p) ! c) = CLOSED \<and> answer (backends_cfg p ! c) = Some ok_response) \<and>
     answer (backends_cfg p ! b) = None \<and> hit_count (backends_cfg p ! b) = int (min j t) \<and>
     (let br = sh_breakers (pl_shared p) ! b in
      cooldown_period br = cd \<and> failure_threshold br = int t \<and>
      (if j < t then cb_state br = CLOSED \<and> consecutive_failures br = int j
       else cb_state br = OPEN \<and> (\<exists>k. opened_at br = clk k)))"

lemma answer_hits [simp]: "answer (cfg\<lparr>hit_count := h\<rparr>) = answer cfg"
  by (simp add: answer_def split: Mode.split)

lemma tripping_expected:
  assumes "tripping b t cd clk j p" and "get_backend (main_ring 3) key = Some b"
  shows "\<exists>c < 3. c \<noteq> b \<and> expected key p = (if j < t then [b] else [], Some (c, ok_response))"
proof -
  obtain bs where bs: "ring_order 3 (main_ring 3) key {} = b # bs" "distinct (b # bs)" "set (b # bs) = {..<3}"
    using main_ring_order [OF assms(2)] by blast
  have "bs \<noteq> []"
  proof
    assume "bs = []"
    then have "{..<3::nat} = {b}" using bs(3) by simp
    then have "card {..<3::nat} = 1" by simp
    then show False by simp
  qed
  then obtain c cs where c: "bs = c # cs" "c \<noteq> b" "c < 3" using bs(2,3) by (cases bs) auto
  then show ?thesis
    using assms(1) bs(1) by (intro exI [of _ c]) (auto simp: tripping_def expected_def Let_def)
qed

lemma tripping_step:
  assumes trip: "tripping b t cd clk j p" and pick: "get_backend (main_ring 3) key = Some b"
    and nets: "\<forall>b < 3. accepts (nets b)" and short: "\<forall>i k. clk i - clk k < cd * 1000000"
    and a: "arrives key a" "plenty (Suc i) now key (pl_limiter p)" "now \<le> ar_now a"
  shows "\<exists>m p'. send_request m nets a p = Some (ok_response, p') \<and> tripping b t cd clk (Suc j) p' \<and>
    plenty i (ar_now a) key (pl_limiter p')"
proof -
  let ?brs = "sh_breakers (pl_shared p)"
  have b: "b < 3" using main_ring_picks [of key] pick by auto
  have ok: "pipeline_ok p" and clk: "clock (pl_shared p) = clk" using trip by (simp_all add: tripping_def)
  have len: "length ?brs = 3" "length (backends_cfg p) = 3" using ok by (simp_all add: pipeline_ok_def shared_ok_def)
  have "steady (clock (pl_shared p)) (?brs ! c)" if "c < 3" for c
    using trip short that clk by (cases "c = b") (auto simp: tripping_def steady_def Let_def cooldown_nanos_def split: if_splits)
  moreover obtain rl where rl: "allow (ar_now a) key (pl_limiter p) = Some (True, rl)" "plenty i (ar_now a) key rl"
    using plenty_allow [OF a(2,3)] by blast
  moreover obtain c where c: "c < 3" "c \<noteq> b" "expected key p = (if j < t then [b] else [], Some (c, ok_response))"
    using tripping_expected [OF trip pick] by blast
  ultimately obtain m p' where p': "send_request m nets a p = Some (ok_response, p')" "pl_limiter p' = rl" "pipeline_ok p'"
    "clock (pl_shared p') = clk" "backends_cfg p' = visit ((if j < t then [b] else []) @ [c]) (backends_cfg p)"
    and told: "told clk (if j < t then [b] else []) (Some (c, ok_response)) ?brs (sh_breakers (pl_shared p'))"
    using send_request_outcome [OF ok nets _ a(1), where failed = "if j < t then [b] else []" and ans = "Some (c, ok_response)" and rl = rl] clk
    by auto
  have cfg: "backends_cfg p' ! d = (backends_cfg p ! d)\<lparr>hit_count := hit_count (backends_cfg p ! d) +
      of_bool (d = c \<or> j < t \<and> d = b)\<rparr>" if "d < 3" for d
    using visit_hits [of "(if j < t then [b] else []) @ [c]" d "backends_cfg p"] c(2) that len(2) p'(5) by auto
  have others: "cb_state (sh_breakers (pl_shared p') ! d) = CLOSED" if "d < 3" "d \<noteq> b" for d
    using told trip that len(1) by (auto simp: told_def tripping_def record_success_def split: if_splits)
  have "\<exists>k. sh_breakers (pl_shared p') ! b = (if j < t then record_failure (clk k) (?brs ! b) else ?brs ! b)"
    using told b c(2) len(1) by (auto simp: told_def)
  then have "tripping b t cd clk (Suc j) p'"
    using trip p'(3,4) others cfg b c(2) by (auto simp: tripping_def Let_def record_failure_def split: if_splits)
  with p'(1,2) rl(2) show ?thesis by blast
qed

lemma tripping_run:
  assumes pick: "get_backend (main_ring 3) key = Some b"
    and nets: "\<forall>b < 3. accepts (nets b)" and short: "\<forall>i k. clk i - clk k < cd * 1000000"
    and "tripping b t cd clk j p" and "list_all (arrives key) as" and "plenty (length as + i) now key (pl_limiter p)"
    and "sorted (now # map ar_now as)"
  shows "\<exists>m p'. send_requests m nets as p = Some (replicate (length as) ok_response, p') \<and>
    tripping b t cd clk (j + length as) p' \<and> plenty i (last (now # map ar_now as)) key (pl_limiter p')"
  using assms(4-7)
proof (induction "as" arbitrary: j p now)
  case (Cons a as)
  obtain m1 p1 where one: "send_request m1 nets a p = Some (ok_response, p1)" "tripping b t cd clk (Suc j) p1"
    "plenty (length as + i) (ar_now a) key (pl_limiter p1)"
    using tripping_step [OF Cons.prems(1) pick nets short, where a = a and i = "length as + i" and now = now] Cons.prems by auto
  obtain m2 p2 where two: "send_requests m2 nets as p1 = Some (replicate (length as) ok_response, p2)"
    "tripping b t cd clk (Suc j + length as) p2" "plenty i (last (ar_now a # map ar_now as)) key (pl_limiter p2)"
    using Cons.IH [OF one(2) _ one(3)] Cons.prems by auto
  have "send_requests (max m1 m2) nets (a # as) p = Some (replicate (length (a # as)) ok_response, p2)"
    using send_request_more [OF one(1), of "max m1 m2"] send_requests_more [OF two(1), of "max m1 m2"] by simp
  with two(2,3) show ?case
    by (intro exI [of _ "max m1 m2"] exI [of _ p2]) (auto simp del: send_requests.simps)
qed auto

lemma pipeline_ok_set_mode: "pipeline_ok p \<Longrightarrow> b < 3 \<Longrightarrow> pipeline_ok (set_mode b mode p)"
  using set_update_subset_insert [of "backends_cfg p" b] by (fastforce simp: pipeline_ok_def set_mode_def)

lemma fresh_backend [simp]: "fb_mode new_fake_backend = NORMAL" "hit_count new_fake_backend = 0"
  by (simp_all add: new_fake_backend_def)

lemma new_pipeline_cfg:
  assumes "length ports = 3"
  shows "length (backends_cfg (new_pipeline ports rate cap ft st cd sz clk)) = 3"
    and "b < 3 \<Longrightarrow> backends_cfg (new_pipeline ports rate cap ft st cd sz clk) ! b = new_fake_backend"
  using assms by (simp_all add: new_pipeline_def)

lemma set_mode_nth:
  "length (backends_cfg (set_mode b mode p)) = length (backends_cfg p)"
  "b < length (backends_cfg p) \<Longrightarrow> backends_cfg (set_mode b mode p) ! c =
    (if c = b then (backends_cfg p ! b)\<lparr>fb_mode := mode\<rparr> else backends_cfg p ! c)"
  by (simp_all add: set_mode_def)

lemmas cfg_rules = new_pipeline_cfg set_mode_nth answer_def

lemma tripping_new:
  assumes "length ports = 3" and "b < 3" and "0 < t"
  shows "tripping b t cd clk 0 (set_mode b FAIL_CLOSE (new_pipeline ports rate cap (int t) st cd sz clk))"
proof -
  let ?p = "new_pipeline ports rate cap (int t) st cd sz clk"
  have "pipeline_ok (set_mode b FAIL_CLOSE ?p)" by (simp add: pipeline_ok_set_mode new_pipeline_ok assms)
  then show ?thesis
    using assms by (auto simp: tripping_def set_mode_def new_pipeline_def new_breaker_def answer_def new_fake_backend_def nth_list_update Let_def)
qed

lemma plenty_new:
  "0 \<le> rate \<Longrightarrow> of_nat j \<le> cap \<Longrightarrow> j < 2 ^ 53 \<Longrightarrow> plenty j now key (pl_limiter (set_mode b mode (new_pipeline ports rate cap ft st cd sz clk)))"
  by (simp add: plenty_def set_mode_def new_pipeline_def shards_inv_new flat_new new_limiter_sel)

lemma up_accepts: "accepts (up_net i j)"
  by (simp add: accepts_def up_net_def)

text \<open>C5: A failing backend is retried around and then left alone: while the backend a client is
  mapped to closes every connection without a byte and the others are healthy, each request of
  the client is answered in full; the breaker of the failing backend opens with the request that reaches
  the threshold, and from then on, as long as the cooldown has not passed, no request
  connects to it.\<close>

theorem failing_backend_trips:
  assumes "length ports = 3" and "0 < t" and "0 \<le> rate"
    and "get_backend (main_ring 3) key = Some b" and "\<forall>b < 3. accepts (nets b)"
    and "\<forall>i k. clk i - clk k < cd * 1000000"
    and "list_all (arrives key) as" and "sorted (map ar_now as)"
    and "of_nat (length as) \<le> cap" and "length as < 2 ^ 53"
  shows "\<exists>m p. send_requests m nets as (set_mode b FAIL_CLOSE (new_pipeline ports rate cap (int t) st cd sz clk)) =
      Some (replicate (length as) ok_response, p) \<and>
    state (sh_breakers (pl_shared p) ! b) = (if length as < t then CLOSED else OPEN) \<and>
    hit_count (backends_cfg p ! b) = int (min (length as) t)"
proof -
  have b: "b < 3" using main_ring_picks [of key] assms(4) by auto
  let ?now = "case as of [] \<Rightarrow> 0 | a # _ \<Rightarrow> ar_now a"
  have "sorted (?now # map ar_now as)" using assms(8) by (cases "as") simp_all
  then show ?thesis
    using tripping_run [OF assms(4-6) tripping_new [OF assms(1) b assms(2)] assms(7), where i = 0 and now = ?now] plenty_new [OF assms(3,9,10)]
    by (fastforce simp: tripping_def Let_def state_def split: if_splits)
qed

theorem failing_backend_trips_witness:
  "\<exists>b m p. send_requests m (\<lambda>i. up_net i 0)
      (replicate 4 \<lparr>ar_accept = Inr (), ar_no_delay = Inr (), ar_now_ms = 0, ar_remote = Some ''127.0.21.1'', ar_now = 0\<rparr>)
      (set_mode b FAIL_CLOSE (new_pipeline [21021, 21022, 21023] 1000 1000 3 2 60000 2 (\<lambda>_. 0))) =
    Some (replicate 4 ok_response, p) \<and>
    state (sh_breakers (pl_shared p) ! b) = OPEN \<and> hit_count (backends_cfg p ! b) = 3"
proof -
  obtain b where b: "get_backend (main_ring 3) ''127.0.21.1'' = Some b" using main_ring_picks by blast
  show ?thesis
    using failing_backend_trips [OF _ _ _ b, of "[21021, 21022, 21023]" 3 1000 "\<lambda>i. up_net i 0" "\<lambda>_. 0" 60000
        "replicate 4 \<lparr>ar_accept = Inr (), ar_no_delay = Inr (), ar_now_ms = 0, ar_remote = Some ''127.0.21.1'', ar_now = 0\<rparr>" 1000 2 2]
    by - (rule exI [of _ b], simp add: up_accepts arrives_def list_all_iff del: send_requests.simps)
qed

text \<open>C4: Failover: against backends that accept and answer as scripted, with every breaker closed, or
  open throughout, a session finishes; the client has received the answer of the first backend in
  the ring's order that is behind a closed breaker and writes anything, or the 503 when there is
  none; the backends connected to are those that closed without a byte followed by the one that answered,
  which was sent the whole request; each failed backend's breaker was told of one failure, the
  answering one's of a success, and no other breaker changed.\<close>

theorem failover_outcome:
  assumes "shared_ok n r sh" and "\<forall>b < n. accepts (nets b)"
    and "\<forall>b < n. steady (clock sh) (sh_breakers sh ! b)"
    and "req \<noteq> []" and "length req \<le> relay_buffer"
    and "\<forall>b < n. \<forall>response. answer (cfgs b) = Some response \<longrightarrow> response \<noteq> [] \<and> length response \<le> relay_buffer"
    and "walk (\<lambda>b. cb_state (sh_breakers sh ! b) = CLOSED) (\<lambda>b. answer (cfgs b)) (ring_order (nat k) r key {}) = (failed, a)"
  shows "\<exists>m sh' s'. dialogue (harness cfgs nets req) m (sh, new_session key cid k) = Some (sh', s') \<and>
    pc s' = Finished \<and>
    to_client s' = (case a of None \<Rightarrow> unavailable_response | Some (b, response) \<Rightarrow> response) \<and>
    (a \<noteq> None \<longrightarrow> to_backend s' = req) \<and>
    reached s' = failed @ (case a of None \<Rightarrow> [] | Some (b, response) \<Rightarrow> [b]) \<and>
    told (clock sh) failed a (sh_breakers sh) (sh_breakers sh') \<and> shared_ok n r sh'"
proof -
  have "\<exists>d. leads (harness cfgs nets req) (sh, new_session key cid k) d \<and>
    outcome n r req (sh, new_session key cid k) (failed, a) d"
    unfolding assms(7) [symmetric] by (rule failover [OF assms(1)]) (simp_all add: assms(2-6))
  moreover have "reached (new_session key cid k) = []" by (simp add: new_session_def)
  ultimately show ?thesis by (fastforce simp: leads_def outcome_def)
qed

theorem failover_outcome_witness:
  "\<exists>p b c m sh' s'. p = set_mode b FAIL_CLOSE (new_pipeline [21021, 21022, 21023] 1000 1000 3 2 60000 2 (\<lambda>_. 0)) \<and> b \<noteq> c \<and>
     dialogue (harness (\<lambda>i. backends_cfg p ! i) (\<lambda>i. up_net i 0) test_request) m
       (pl_shared p, new_session ''127.0.21.1'' ''test'' 3) = Some (sh', s') \<and>
     pc s' = Finished \<and> reached s' = [b, c] \<and> to_client s' = ok_response \<and> to_backend s' = test_request"
proof -
  let ?key = "''127.0.21.1''"
  obtain b where b: "get_backend (main_ring 3) ?key = Some b" "b < 3" using main_ring_picks by blast
  define p where "p = set_mode b FAIL_CLOSE (new_pipeline [21021, 21022, 21023] 1000 1000 3 2 60000 2 (\<lambda>_. 0))"
  have trip: "tripping b 3 60000 (\<lambda>_. 0) 0 p" using tripping_new [of _ b 3] b(2) by (simp add: p_def)
  obtain c where c: "c < 3" "c \<noteq> b" "expected ?key p = ([b], Some (c, ok_response))"
    using tripping_expected [OF trip b(1)] by auto
  have ok: "pipeline_ok p" "shared_ok 3 (main_ring 3) (pl_shared p)" using trip by (simp_all add: tripping_def pipeline_ok_def)
  have answers: "\<forall>d < 3. \<forall>response. answer (backends_cfg p ! d) = Some response \<longrightarrow> response \<noteq> [] \<and> length response \<le> relay_buffer"
    using answer_bounds [OF ok(1)] by blast
  have steady: "\<forall>d < 3. steady (clock (pl_shared p)) (sh_breakers (pl_shared p) ! d)"
    using trip by (auto simp: tripping_def steady_def Let_def)
  have up: "\<forall>i < 3. accepts (up_net i 0)" by (simp add: up_accepts)
  have w: "walk (\<lambda>d. cb_state (sh_breakers (pl_shared p) ! d) = CLOSED) (\<lambda>d. answer (backends_cfg p ! d))
      (ring_order (nat 3) (main_ring 3) ?key {}) = ([b], Some (c, ok_response))"
    using c(3) unfolding expected_def by simp
  from failover_outcome [OF ok(2) up steady test_request_bounds answers w, of "''test''"]
  obtain m sh' s' where run: "dialogue (harness (\<lambda>i. backends_cfg p ! i) (\<lambda>i. up_net i 0) test_request) m
       (pl_shared p, new_session ?key ''test'' 3) = Some (sh', s')"
    and out: "pc s' = Finished" "to_client s' = ok_response" "to_backend s' = test_request" "reached s' = [b, c]"
    by (elim exE conjE) (simp only: option.case prod.case append.simps, simp)
  show ?thesis
    by (rule exI [of _ p], rule exI [of _ b], rule exI [of _ c], rule exI [of _ m], rule exI [of _ sh'], rule exI [of _ s'])
      (simp only: p_def run [unfolded p_def] out c(2) [symmetric], simp)
qed

section \<open>Healthy backends\<close>

text \<open>With healthy backends the pipeline answers what its limiter admits.\<close>

definition healthy :: "pipeline \<Rightarrow> bool" where
  "healthy p \<longleftrightarrow> pipeline_ok p \<and>
     (\<forall>b < 3. cb_state (sh_breakers (pl_shared p) ! b) = CLOSED \<and> answer (backends_cfg p ! b) = Some ok_response)"

definition reply :: "bool \<Rightarrow> string" where
  "reply ok = (if ok then ok_response else test_rejection)"

lemma expected_first:
  assumes "get_backend (main_ring 3) key = Some b" and "cb_state (sh_breakers (pl_shared p) ! b) = CLOSED"
    and "answer (backends_cfg p ! b) = Some response"
  shows "expected key p = ([], Some (b, response))"
proof -
  obtain bs where "ring_order 3 (main_ring 3) key {} = b # bs" using main_ring_order [OF assms(1)] by blast
  then show ?thesis using assms(2,3) by (simp add: expected_def)
qed

lemma healthy_request:
  assumes h: "healthy p" and nets: "\<forall>b < 3. accepts (nets b)" and a: "arrives key a"
    and allow: "allow (ar_now a) key (pl_limiter p) = Some (ok, rl)"
  shows "\<exists>m p'. send_request m nets a p = Some (reply ok, p') \<and> healthy p' \<and> pl_limiter p' = rl"
proof (cases ok)
  case True
  obtain b where b: "get_backend (main_ring 3) key = Some b" "b < 3" using main_ring_picks by blast
  have p: "pipeline_ok p" "expected key p = ([], Some (b, ok_response))"
    using h b(2) by (auto simp: healthy_def intro!: expected_first [OF b(1)])
  have len: "length (sh_breakers (pl_shared p)) = 3" "length (backends_cfg p) = 3"
    using p(1) by (simp_all add: pipeline_ok_def shared_ok_def)
  have "steady (clock (pl_shared p)) (sh_breakers (pl_shared p) ! c)" if "c < 3" for c
    using h that by (simp add: healthy_def steady_def)
  from send_request_outcome [OF p(1) nets this a _ p(2), where rl = rl] allow True
  obtain m p' where p': "send_request m nets a p = Some (ok_response, p')" "pl_limiter p' = rl" "pipeline_ok p'"
    "backends_cfg p' = visit [b] (backends_cfg p)"
    "told (clock (pl_shared p)) [] (Some (b, ok_response)) (sh_breakers (pl_shared p)) (sh_breakers (pl_shared p'))"
    by auto
  have "healthy p'"
    using h p'(3-5) len visit_hits [of "[b]" _ "backends_cfg p"]
    by (auto simp: healthy_def told_def record_success_def)
  with p'(1,2) True show ?thesis by (auto simp: reply_def)
next
  case False
  let ?p' = "p\<lparr>pl_limiter := rl, pl_shared := (pl_shared p)\<lparr>sh_metrics := record_rate_limited (sh_metrics (pl_shared p))\<rparr>\<rparr>"
  have "send_request 0 nets a p = Some (test_rejection, ?p')"
    using h a allow False by (simp add: send_request_def pipeline_listen_def arrives_def healthy_def pipeline_ok_def)
  moreover have "healthy ?p'"
    using h by (simp add: healthy_def pipeline_ok_def shared_ok_def metrics_ok_def record_rate_limited_def)
  ultimately show ?thesis using False by (intro exI [of _ 0] exI [of _ ?p']) (simp add: reply_def)
qed

lemma healthy_serve:
  assumes nets: "\<forall>b < 3. accepts (nets b)" and "healthy p" and "list_all (arrives key) as"
    and "serve (map (\<lambda>a. (ar_now a, key)) as) (pl_limiter p) = Some (oks, rl)"
  shows "\<exists>m p'. send_requests m nets as p = Some (map reply oks, p') \<and> healthy p' \<and> pl_limiter p' = rl"
  using assms(2-4)
proof (induction "as" arbitrary: p oks)
  case (Cons a as)
  obtain ok rl1 oks' where s: "allow (ar_now a) key (pl_limiter p) = Some (ok, rl1)"
    "serve (map (\<lambda>a. (ar_now a, key)) as) rl1 = Some (oks', rl)" "oks = ok # oks'"
    using Cons.prems(3) by (auto split: option.splits)
  obtain m1 p1 where one: "send_request m1 nets a p = Some (reply ok, p1)" "healthy p1" "pl_limiter p1 = rl1"
    using healthy_request [OF Cons.prems(1) nets _ s(1)] Cons.prems(2) by auto
  obtain m2 p2 where two: "send_requests m2 nets as p1 = Some (map reply oks', p2)" "healthy p2" "pl_limiter p2 = rl"
    using Cons.IH [OF one(2)] Cons.prems(2) s(2) one(3) by auto
  have "send_requests (max m1 m2) nets (a # as) p = Some (map reply oks, p2)"
    using send_request_more [OF one(1), of "max m1 m2"] send_requests_more [OF two(1), of "max m1 m2"] s(3) by simp
  with two(2,3) show ?case by blast
qed simp

section \<open>The scenarios\<close>

text \<open>In the scenarios that look for a client of backend 0, the backend is a parameter here: the one the
  client's key is mapped to.\<close>

definition test_normal :: "nat \<Rightarrow> (nat \<Rightarrow> net) \<Rightarrow> (nat \<Rightarrow> nanos) \<Rightarrow> arrival \<Rightarrow> bool" where
  "test_normal m nets clk a =
     (case send_request m nets a (new_pipeline [21001, 21002, 21003] 1000 1000 5 2 5000 2 clk) of
        None \<Rightarrow> False | Some (resp, p) \<Rightarrow> sublist ''200 OK'' resp)"

text \<open>The burst, with its requests at one time and one after the other: the listener decides them in
  the order it accepts them.\<close>

definition test_rate_limiting :: "nat \<Rightarrow> (nat \<Rightarrow> net) \<Rightarrow> (nat \<Rightarrow> nanos) \<Rightarrow> arrival \<Rightarrow> bool" where
  "test_rate_limiting m nets clk a =
     (case send_requests m nets (replicate 20 a) (new_pipeline [21011, 21012, 21013] 5 10 5 2 5000 2 clk) of
        None \<Rightarrow> False
      | Some (results, p) \<Rightarrow>
          length (filter (sublist ''200 OK'') results) = 10 \<and> length (filter (sublist ''429'') results) = 10)"

definition test_breaker_trips ::
  "nat \<Rightarrow> (nat \<Rightarrow> net) \<Rightarrow> (nat \<Rightarrow> nanos) \<Rightarrow> nat \<Rightarrow> arrival \<Rightarrow> arrival \<Rightarrow> arrival \<Rightarrow> arrival \<Rightarrow> bool" where
  "test_breaker_trips m nets clk b a1 a2 a3 a4 =
     (case send_requests m nets [a1, a2, a3]
        (set_mode b FAIL_CLOSE (new_pipeline [21021, 21022, 21023] 1000 1000 3 2 60000 2 clk)) of
        None \<Rightarrow> False
      | Some (resps, p) \<Rightarrow>
          list_all (sublist ''200 OK'') resps \<and> state (sh_breakers (pl_shared p) ! b) = OPEN \<and>
          (let hits_before = hit_count (backends_cfg p ! b) in
           case send_request m nets a4 p of
             None \<Rightarrow> False
           | Some (resp, p) \<Rightarrow> hit_count (backends_cfg p ! b) = hits_before))"

definition test_outage :: "nat \<Rightarrow> (nat \<Rightarrow> net) \<Rightarrow> (nat \<Rightarrow> nanos) \<Rightarrow> arrival \<Rightarrow> bool" where
  "test_outage m nets clk a =
     (case send_request m nets a
        (fold (\<lambda>b. set_mode b FAIL_CLOSE) [0..<3] (new_pipeline [21041, 21042, 21043] 1000 1000 5 2 5000 2 clk)) of
        None \<Rightarrow> False | Some (resp, p) \<Rightarrow> sublist ''503'' resp \<and> \<not> sublist ''200'' resp)"

definition test_no_retry_after_commit :: "nat \<Rightarrow> (nat \<Rightarrow> net) \<Rightarrow> (nat \<Rightarrow> nanos) \<Rightarrow> nat \<Rightarrow> arrival \<Rightarrow> bool" where
  "test_no_retry_after_commit m nets clk b a =
     (case send_request m nets a
        (set_mode b PARTIAL_THEN_CLOSE (new_pipeline [21051, 21052, 21053] 1000 1000 5 2 5000 2 clk)) of
        None \<Rightarrow> False
      | Some (resp, p) \<Rightarrow>
          sublist ''HALF'' resp \<and> \<not> sublist ''503'' resp \<and> hit_count (backends_cfg p ! b) = 1)"

lemma closed_request:
  assumes ok: "pipeline_ok p" and closed: "\<forall>b < 3. cb_state (sh_breakers (pl_shared p) ! b) = CLOSED"
    and nets: "\<forall>b < 3. accepts (nets b)" and a: "arrives key a" "plenty 1 (ar_now a) key (pl_limiter p)"
    and w: "expected key p = (failed, ans)"
  shows "\<exists>m p'. send_request m nets a p =
      Some (case ans of None \<Rightarrow> unavailable_response | Some (b, response) \<Rightarrow> response, p') \<and>
    (\<forall>b < 3. hit_count (backends_cfg p' ! b) = hit_count (backends_cfg p ! b) +
      of_bool (b \<in> set failed \<or> map_option fst ans = Some b))"
proof -
  obtain rl where rl: "allow (ar_now a) key (pl_limiter p) = Some (True, rl)"
    using plenty_allow [of 0 "ar_now a" key "pl_limiter p" "ar_now a"] a(2) by auto
  have "steady (clock (pl_shared p)) (sh_breakers (pl_shared p) ! b)" if "b < 3" for b
    using closed that by (simp add: steady_def)
  then obtain m p' where p': "send_request m nets a p =
      Some (case ans of None \<Rightarrow> unavailable_response | Some (b, response) \<Rightarrow> response, p')"
    "backends_cfg p' = visit (failed @ (case ans of None \<Rightarrow> [] | Some (b, response) \<Rightarrow> [b])) (backends_cfg p)"
    using send_request_outcome [OF ok nets _ a(1) rl w] by blast
  have "ring_inv (main_ring 3)" using main_ring_inv [of 3] by simp
  then have "distinct (failed @ (case ans of None \<Rightarrow> [] | Some (b, response) \<Rightarrow> [b]))"
    by (intro walk_distinct [OF w [unfolded expected_def]] ring_order_covers(1))
  from visit_hits [OF this] p'(2) have "\<forall>b < 3. hit_count (backends_cfg p' ! b) = hit_count (backends_cfg p ! b) +
      of_bool (b \<in> set failed \<or> map_option fst ans = Some b)"
    using ok by (auto simp: pipeline_ok_def split: option.splits)
  with p'(1) show ?thesis by blast
qed

lemma responses:
  "sublist ''200 OK'' ok_response"
  "sublist ''503'' unavailable_response" "\<not> sublist ''200'' unavailable_response"
  "sublist ''HALF'' partial_response" "\<not> sublist ''503'' partial_response"
  by code_simp+

lemma new_pipeline_closed:
  "length ports = 3 \<Longrightarrow> \<forall>b < 3. cb_state (sh_breakers (pl_shared (new_pipeline ports rate cap ft st cd sz clk)) ! b) = CLOSED"
  by (simp add: new_pipeline_def new_breaker_def)

lemma set_mode_frame [simp]:
  "pl_shared (set_mode b mode p) = pl_shared p" "pl_limiter (set_mode b mode p) = pl_limiter p"
  by (simp_all add: set_mode_def)

lemma plenty_test: "j \<le> 1000 \<Longrightarrow> plenty j now key (pl_limiter (new_pipeline ports 1000 1000 ft st cd sz clk))"
  using plenty_new [of 1000 j 1000 now key 0 NORMAL] by simp


lemma test_normal_passes:
  assumes "\<forall>b < 3. accepts (nets b)" and "arrives key a"
  shows "\<exists>m. test_normal m nets clk a"
proof -
  let ?p = "new_pipeline [21001, 21002, 21003] 1000 1000 5 2 5000 2 clk"
  have ok: "pipeline_ok ?p" "\<forall>b < 3. cb_state (sh_breakers (pl_shared ?p) ! b) = CLOSED"
    by (simp_all add: new_pipeline_ok new_pipeline_closed)
  obtain b where b: "get_backend (main_ring 3) key = Some b" "b < 3" using main_ring_picks by blast
  have "answer (backends_cfg ?p ! b) = Some ok_response"
    using b(2) by (simp add: cfg_rules)
  from closed_request [OF ok assms plenty_test [of 1] expected_first [OF b(1) _ this]] ok(2) b(2)
  obtain m p' where "send_request m nets a ?p = Some (ok_response, p')" by auto
  then show ?thesis using responses(1) by (intro exI [of _ m]) (simp add: test_normal_def)
qed

lemma test_rate_limiting_passes:
  assumes "\<forall>b < 3. accepts (nets b)" and "arrives key a"
  shows "\<exists>m. test_rate_limiting m nets clk a"
proof -
  let ?p = "new_pipeline [21011, 21012, 21013] 5 10 5 2 5000 2 clk" and ?oks = "replicate 10 True @ replicate 10 False"
  have "answer (backends_cfg ?p ! b) = Some ok_response" if "b < 3" for b using that by (simp add: cfg_rules)
  then have h: "healthy ?p" by (simp add: healthy_def new_pipeline_ok new_pipeline_closed)
  have lim: "pl_limiter ?p = new_limiter 5 10 64" by (simp add: new_pipeline_def)
  have "bucket_run 5 10 (replicate 20 (ar_now a)) None = (?oks, Some \<lparr>tokens = 0, last_refill = ar_now a\<rparr>)"
    using burst_run_fresh [of 10 20 5 "ar_now a"] by (simp add: is_double_numeral)
  then obtain rl where "serve (replicate 20 (ar_now a, key)) (pl_limiter ?p) = Some (?oks, rl)"
    using serve_one_client [of "new_limiter 5 10 64" 20 "ar_now a" key] unfolding lim
    by (auto simp: shards_inv_new new_limiter_sel flat_new simp del: serve.simps)
  then obtain m p' where "send_requests m nets (replicate 20 a) ?p = Some (map reply ?oks, p')"
    using healthy_serve [OF assms(1) h, of key "replicate 20 a" ?oks rl] assms(2)
    by (auto simp: map_replicate_const list_all_iff simp del: send_requests.simps serve.simps)
  moreover have "sublist ''429'' test_rejection" "\<not> sublist ''200 OK'' test_rejection" "\<not> sublist ''429'' ok_response"
    by code_simp+
  ultimately show ?thesis
    using responses(1) by (intro exI [of _ m]) (simp add: test_rate_limiting_def reply_def del: send_requests.simps)
qed

lemma test_breaker_trips_passes:
  assumes pick: "get_backend (main_ring 3) key = Some b" and nets: "\<forall>b < 3. accepts (nets b)"
    and short: "\<forall>i k. clk i - clk k < 60000 * 1000000"
    and a: "list_all (arrives key) [a1, a2, a3, a4]" "sorted (map ar_now [a1, a2, a3, a4])"
  shows "\<exists>m. test_breaker_trips m nets clk b a1 a2 a3 a4"
proof -
  let ?p = "set_mode b FAIL_CLOSE (new_pipeline [21021, 21022, 21023] 1000 1000 3 2 60000 2 clk)"
  have b: "b < 3" using main_ring_picks [of key] pick by auto
  have new: "tripping b 3 60000 clk 0 ?p" using tripping_new [of _ b 3] b by simp
  have plenty: "plenty (length [a1, a2, a3] + 1) (ar_now a1) key (pl_limiter ?p)"
    by (simp add: plenty_test)
  obtain m1 p1 where one: "send_requests m1 nets [a1, a2, a3] ?p = Some (replicate 3 ok_response, p1)"
    "tripping b 3 60000 clk 3 p1" "plenty 1 (ar_now a3) key (pl_limiter p1)"
    using tripping_run [OF pick nets short new _ plenty] a by (auto simp: numeral_3_eq_3 simp del: send_requests.simps)
  obtain m2 p2 where two: "send_request m2 nets a4 p1 = Some (ok_response, p2)" "tripping b 3 60000 clk 4 p2"
    using tripping_step [OF one(2) pick nets short, of a4 0 "ar_now a3"] a one(3) by auto
  have "send_requests (max m1 m2) nets [a1, a2, a3] ?p = Some (replicate 3 ok_response, p1)"
    "send_request (max m1 m2) nets a4 p1 = Some (ok_response, p2)"
    using send_requests_more [OF one(1)] send_request_more [OF two(1)] by simp_all
  then show ?thesis
    using one(2) two(2) responses(1) unfolding test_breaker_trips_def
    by (intro exI [of _ "max m1 m2"]) (simp add: tripping_def Let_def state_def list_all_iff del: send_requests.simps)
qed

lemma test_outage_passes:
  assumes "\<forall>b < 3. accepts (nets b)" and "arrives key a"
  shows "\<exists>m. test_outage m nets clk a"
proof -
  define p where "p = fold (\<lambda>b. set_mode b FAIL_CLOSE) [0..<3] (new_pipeline [21041, 21042, 21043] 1000 1000 5 2 5000 2 clk)"
  let ?q = "new_pipeline [21041, 21042, 21043] 1000 1000 5 2 5000 2 clk"
  have p: "p = set_mode 2 FAIL_CLOSE (set_mode 1 FAIL_CLOSE (set_mode 0 FAIL_CLOSE ?q))"
    by (simp add: p_def upt_rec numeral_3_eq_3 numeral_2_eq_2)
  have ok: "pipeline_ok p" "\<forall>b < 3. cb_state (sh_breakers (pl_shared p) ! b) = CLOSED" "plenty 1 (ar_now a) key (pl_limiter p)"
    unfolding p by (simp_all add: pipeline_ok_set_mode new_pipeline_ok new_pipeline_closed plenty_test)
  have "answer (backends_cfg p ! b) = None" if "b < 3" for b
    using that unfolding p by (auto simp: cfg_rules less_Suc_eq numeral_3_eq_3)
  moreover have "set (ring_order 3 (main_ring 3) key {}) = {..<3}"
    using main_ring_order [of key] main_ring_picks [of key] by fastforce
  ultimately have "snd (expected key p) = None"
    using walk_answers [of _ "\<lambda>b. answer (backends_cfg p ! b)" "ring_order 3 (main_ring 3) key {}"] unfolding expected_def by auto
  then obtain failed where "expected key p = (failed, None)" by (metis prod.collapse)
  from closed_request [OF ok(1,2) assms ok(3) this] obtain m p' where "send_request m nets a p = Some (unavailable_response, p')" by auto
  then show ?thesis using responses(2,3) by (intro exI [of _ m]) (simp add: test_outage_def p_def)
qed

lemma test_no_retry_after_commit_passes:
  assumes "get_backend (main_ring 3) key = Some b" and "\<forall>b < 3. accepts (nets b)" and "arrives key a"
  shows "\<exists>m. test_no_retry_after_commit m nets clk b a"
proof -
  let ?p = "set_mode b PARTIAL_THEN_CLOSE (new_pipeline [21051, 21052, 21053] 1000 1000 5 2 5000 2 clk)"
  have b: "b < 3" using main_ring_picks [of key] assms(1) by auto
  have ok: "pipeline_ok ?p" "\<forall>b < 3. cb_state (sh_breakers (pl_shared ?p) ! b) = CLOSED" "plenty 1 (ar_now a) key (pl_limiter ?p)"
    using b by (simp_all add: pipeline_ok_set_mode new_pipeline_ok new_pipeline_closed plenty_test)
  have cfg: "answer (backends_cfg ?p ! b) = Some partial_response" "hit_count (backends_cfg ?p ! b) = 0"
    using b by (simp_all add: cfg_rules)
  from closed_request [OF ok(1,2) assms(2,3) ok(3) expected_first [OF assms(1) _ cfg(1)]] ok(2) b cfg(2)
  obtain m p' where "send_request m nets a ?p = Some (partial_response, p')" "hit_count (backends_cfg p' ! b) = 1" by auto
  then show ?thesis
    using responses(4,5) by (intro exI [of _ m]) (simp add: test_no_retry_after_commit_def)
qed

end
