(* ===== verification/Spec2Isabelle.thy ===== *)
theory Spec2Isabelle
  imports Proxy_Requests Proxy_Trials Proxy_Views Proxy_Limits Unit_Tests Integration_Tests
begin

text \<open>
  A verification development of Aegis, a single-threaded layer-4 reverse proxy in C++20 on Asio
  coroutines (\<^verbatim>\<open>src/\<close>).

  \<^bold>\<open>The program.\<close> A listener accepts connections, gives each a correlation id and asks the rate
  limiter; refused clients get a 429, the others a session. A session asks the consistent-hash
  ring for a backend, the backend's circuit breaker for permission and the connection pool for a
  socket, relays bytes both ways, and on a failure before the first response byte retries on
  another backend by replaying the buffered request, up to three attempts, then answers 503.
  Sessions report into the metrics registry, which a second listener serves as Prometheus text,
  and log every decision. Ring, breakers, pool, limiter and metrics are shared by all sessions.

  \<^bold>\<open>The theories.\<close>
  \<^item> \<open>Aegis_Prelude\<close>: machine types, exceptions and results, \<^verbatim>\<open>at()\<close>, decimal printing and parsing.
  \<^item> \<open>Fnv_Hash\<close>: \<^verbatim>\<open>HashRing::hash_key\<close> (FNV-1a and the avalanche finalizer) on 64-bit words, with its
    bijectivity and an evaluation on integers.
  \<^item> \<open>Ordered_Map\<close>: the part of \<^verbatim>\<open>std::map\<close> the ring uses; locale \<open>ordered_map\<close> and its interpretation.
  \<^item> \<open>Hash_Ring\<close>: \<^verbatim>\<open>src/hash_ring.{hpp,cpp}\<close>. Lookup finds the clockwise nearest admissible virtual
    node; adding and removing a backend move only the keys they must; the ring does not depend
    on its history.
  \<^item> \<open>Ring_Certificate\<close>: the ring \<^verbatim>\<open>main\<close> builds has no colliding positions, by evaluation in the kernel.
  \<^item> \<open>Circuit_Breaker\<close>: \<^verbatim>\<open>src/circuit_breaker.{hpp,cpp}\<close>. Trip condition, fail-fast, recovery, the
    single trial and how a late report breaks it; locale \<open>request_gate\<close> is what sessions rely on.
  \<^item> \<open>Connection_Pool\<close>: \<^verbatim>\<open>src/connection_pool.{hpp,cpp}\<close>. Sockets are linear, counters count; locale
    \<open>checkout_counter\<close> is what sessions rely on.
  \<^item> \<open>Double_Arith\<close>: rounding of rationals to binary64, as locale \<open>nearest_rounding\<close>.
  \<^item> \<open>Rate_Limiter\<close>: \<^verbatim>\<open>src/rate_limiter.{hpp,cpp}\<close>. The shards refine one map of buckets; bounds on
    bursts and sustained rates with the rounding of \<^verbatim>\<open>double\<close>; when reaping is unobservable.
  \<^item> \<open>Metrics\<close>: \<^verbatim>\<open>src/metrics.hpp\<close>. Counters, gauges, and the scrape text with a scraper.
  \<^item> \<open>Tracer\<close>: \<^verbatim>\<open>src/tracer.hpp\<close>. Unique ids and parseable lines.
  \<^item> \<open>Session\<close>: \<^verbatim>\<open>src/session.{hpp,cpp}\<close>, \<^verbatim>\<open>handle_client\<close> and \<^verbatim>\<open>relay\<close> cut at their suspension points.
  \<^item> \<open>Session_Safety\<close>: the invariant of a session at each suspension point, proved for every stretch
    of code between two of them under interference of other sessions.
  \<^item> \<open>Session_Rules\<close>: a proof rule for sessions as locales. \<open>stretch_relation\<close> lists the things a session
    does with the shared objects; a relation that holds across each of them holds between two
    suspension points, and with the relays (\<open>session_relation\<close>) across every step (\<open>session_invariant\<close> adds a new connection to the list).
  \<^item> \<open>Request_Spec\<close>: what a session promises, as an abstract machine (\<open>request_step\<close>) with an invariant, and the
    proof that every step of a session is a run of it.
  \<^item> \<open>Session_Views\<close>: five interpretations of it: identity and log lines, sockets, gauges, thresholds, and a
    breaker in its cooldown.
  \<^item> \<open>Session_Progress\<close>: a potential that every step of a session lowers unless it reads bytes, so that
    sessions end; and that no session is stuck.
  \<^item> \<open>Session_Trials\<close>: a recovering breaker during one session's step, with the grants others hold as a parameter.
  \<^item> \<open>Session_Ledger\<close>: what each step books in the metrics registry, stretch by stretch.
  \<^item> \<open>Http_Framing\<close>: a reader for the responses the proxy writes itself.
  \<^item> \<open>Proxy_Main\<close>: \<^verbatim>\<open>src/main.cpp\<close>. Listener, rejection, reaper, metrics endpoint, start-up, signals, and
    the interleaving of all coroutines, as a relation (\<open>proxy_step\<close>) and as a function of the next event
    (\<open>proxy_exec\<close>), which agree; \<open>deployed\<close> are the states a started process reaches.
  \<^item> \<open>Proxy_Accounts\<close>: the history of every session of the process is a run of \<open>Session_Progress\<close>, and
    the counters are the sums of what \<open>Session_Ledger\<close> books.
  \<^item> \<open>Proxy_Requests\<close>: the simulation for all sessions of the process, in every interleaving.
  \<^item> \<open>Proxy_Trials\<close>: a recovering breaker in the process: one trial at a time.
  \<^item> \<open>Proxy_Views\<close>: what \<open>Session_Views\<close> shows of one session, for all sessions together.
  \<^item> \<open>Proxy_Limits\<close>: the limiter of the process, reaped in the background, against one that never is.
  \<^item> \<open>Unit_Tests\<close>: the repository's unit tests, run on the model.
  \<^item> \<open>Fake_Backends\<close>: \<^verbatim>\<open>src/test_proxy_integration.cpp\<close>, its scripted backends and its client as the environment of a
    session, and the reference function that says whom the session tries and what the client
    receives (\<open>ring_order\<close>, \<open>walk\<close>); the session computes it.
  \<^item> \<open>Integration_Tests\<close>: the pipeline of that test and its scenarios, run on the model. The fuel of
    \<open>send_request\<close> bounds the steps of the one session it runs; its results do not depend on it once it is enough,
    and every statement gives enough.
  This theory states what spans the components, over \<open>deployed\<close> states: the 503 is never mixed into
  a response, replays are faithful, retries are bounded, no exception ends a session, sessions
  terminate, sockets and breaker grants are accounted for, sockets are never shared, an open breaker
  shields its backend, a recovering breaker admits one trial at a time, clients are held to their rate, the
  scrape tells the truth, outages are answered, and every session is a run of the abstract request machine.

  \<^bold>\<open>Modelling.\<close> A stateful operation is a function on its record; an exception is a value of a sum
  type; a mutex-protected method is one atomic step; the reading of a clock is an argument, or
  in a session the next value of the function \<open>clock\<close>. Words are kept where wrap-around shows (hashes,
  counters, ports); token counts are rationals rounded after every operation. Coroutines are
  cut at \<^verbatim>\<open>co_await\<close>: the outcomes of Asio's operations are events chosen freely, limited to what
  Asio documents (a read without error delivers one to 8192 bytes, a failed write may have sent
  a prefix, the first relay to return cancels the other). No fuel is used in the model: the ring walk and the
  retry loop are total by measures (only \<open>Integration_Tests\<close> runs a whole session, with fuel). Theorems over \<open>deployed\<close> hold for every such environment
  and every interleaving.

  \<^bold>\<open>Not modelled.\<close> Destruction of sockets and the kernel's TCP behaviour; memory exhaustion; threads (the proxy runs one; the mutexes are never contended);
  \<^verbatim>\<open>std::stod\<close>, a parameter of \<open>main_start\<close>; infinities and NaN in the limiter; the
  parallel clients of the integration test (its burst is run one request after the other; what its
  half-open stampede looks for is \<open>half_open_single_trial\<close>, and \<open>stale_success_admits_second_trial\<close> shows that the
  hypothesis there, no grant left from before the breaker opened, is needed); the Python mock backend and
  the shell scripts.
\<close>

section \<open>One request in the deployed proxy\<close>

text \<open>C1: The 503 is never mixed into a response: in every state of the deployed proxy, a session that is
  about to send the 503 has sent nothing to its client, a session that sends it or has sent it
  without a backend's response has sent a prefix of the 503 text only, and once a byte of a
  backend's response has been read the session never gets to the 503.\<close>

theorem clean_503:
  assumes "deployed envs x" and "s \<in> set (px_sessions x)"
  shows "(pc s = Sending_Status \<longrightarrow> to_client s = []) \<and>
    (response_started s \<longrightarrow> pc s \<noteq> Sending_Status \<and> pc s \<noteq> Draining) \<and>
    (\<not> response_started s \<longrightarrow> prefix (to_client s) unavailable_response)"
  using deployed_session [OF assms]
  by (cases "pc s") (auto simp: session_inv_def loop_inv_def untouched_def downstream_silent)

theorem clean_503_witness:
  "\<exists>x s. deployed down_net x \<and> s \<in> set (px_sessions x) \<and> pc s = Sending_Status \<and> to_client s = [] \<and>
     \<not> response_started s"
proof -
  obtain x s where "deployed down_net x" "s \<in> set (px_sessions x)" "pc s = Sending_Status"
    using sample_unavailable by force
  then show ?thesis using clean_503 by blast
qed

text \<open>C2: Refinement: every session of the deployed proxy, in every interleaving, is a run of the abstract
  request machine, which tries at most three backends one after the other and each once, forwards on each connection a
  growing prefix of what the client has sent, gives a backend up only before it has responded, and
  hands the client a growing prefix of the bytes the responding backend has sent, or of the 503 if none has
  responded. While the relay waits for the backend, every byte read from it has been handed on.\<close>

theorem sessions_refine_request_spec:
  assumes "deployed envs x"
  shows "(\<forall>s \<in> set (px_sessions x). request_run 3 request_init (request_of s) \<and>
      (\<forall>up. pc s = Relaying up Reading \<longrightarrow> rq_returned (request_of s) = rq_response (request_of s))) \<and>
    (\<forall>y i. proxy_step x y \<longrightarrow> i < length (px_sessions x) \<longrightarrow>
      i < length (px_sessions y) \<and> request_run 3 (request_of (px_sessions x ! i)) (request_of (px_sessions y ! i)))"
proof -
  have "to_client s = from_backend s" if "s \<in> set (px_sessions x)" "pc s = Relaying up Reading" for s up
    using deployed_session [OF assms that(1)] that(2) by (simp add: session_inv_def)
  then show ?thesis
    using deployed_requests [OF assms] proxy_step_sim(1,2) [OF assms]
    by (auto simp: request_of_def intro: order_less_le_trans)
qed

theorem sessions_refine_request_spec_witness:
  "\<exists>x s. deployed up_net x \<and> px_sessions x = [s] \<and> rq_phase (request_of s) = Attempting \<and>
     request_run 3 request_init (request_of s) \<and> rq_returned (request_of s) = rq_response (request_of s)"
proof -
  obtain x s where x: "deployed up_net x" "px_sessions x = [s]" "pc s = Relaying Reading Reading" "\<not> response_started s"
    using sample_relaying by blast
  then have "request_run 3 request_init (request_of s)" "rq_returned (request_of s) = rq_response (request_of s)"
    using sessions_refine_request_spec [OF x(1)] by simp_all
  moreover have "rq_phase (request_of s) = Attempting" using x(3,4) by (simp add: request_of_def phase_of_def)
  ultimately show ?thesis using x(1,2) by blast
qed

text \<open>C3: A retry replays the request whole: whenever a session connects to a backend or replays, the
  buffer holds every byte the client has sent, at most 16 KiB; and while it relays, what the
  backend has been sent is a prefix of what the client has sent, complete when the relay waits
  for the client.\<close>

theorem replay_faithful:
  assumes "deployed envs x" and "s \<in> set (px_sessions x)"
  shows "(pc s = Acquiring \<or> pc s = Replaying \<longrightarrow>
      data (req_buf s) = received s \<and> length (received s) \<le> kCap) \<and>
    (\<forall>up down. pc s = Relaying up down \<longrightarrow>
      prefix (to_backend s) (received s) \<and> (up = Reading \<longrightarrow> to_backend s = received s))"
proof -
  have "prefix (to_backend s) (received s)" if "upstream up s" for up
    using that by (cases up) (auto intro: prefixI [OF sym])
  then show ?thesis
    using deployed_session [OF assms]
    by (cases "pc s") (auto simp: session_inv_def busy_inv_def core_inv_def)
qed

theorem replay_faithful_witness:
  "\<exists>x s. deployed up_net x \<and> s \<in> set (px_sessions x) \<and> pc s = Relaying Reading Reading \<and>
     to_backend s = received s"
proof -
  obtain x s where "deployed up_net x" "s \<in> set (px_sessions x)" "pc s = Relaying Reading Reading"
    using sample_relaying by force
  then show ?thesis using replay_faithful by blast
qed

text \<open>C6: A request is tried on at most three backends and on each at most once, refused connections included: the
  backends whose breaker granted it, each of which the session then tries to connect to, are distinct and at most
  three; while the session connects, replays or relays it deals with the last of them; and it has had a
  socket of no other backend.\<close>

theorem retries_bounded:
  assumes "deployed envs x" and "s \<in> set (px_sessions x)"
  shows "distinct (grants s) \<and> length (grants s) \<le> 3 \<and> set (reached s) \<subseteq> set (grants s) \<and>
    (pc s = Acquiring \<or> pc s = Replaying \<or> (\<exists>up down. pc s = Relaying up down) \<longrightarrow>
      grants s \<noteq> [] \<and> last (grants s) = backend_index s)"
proof -
  note inv = deployed_session [OF assms]
  have "max_attempts s = 3" using assms by (rule deployed_max_attempts)
  then have "distinct (grants s)" "length (grants s) \<le> 3"
    using phase_facts(1,3) [OF phase_invI [OF inv]] by simp_all
  moreover have "set (reached s) \<subseteq> set (grants s)" using session_history [OF inv] by (simp add: history_inv_def)
  ultimately show ?thesis using inv by (auto simp: session_inv_def busy_inv_def)
qed

theorem retries_bounded_witness:
  "\<exists>x s. deployed up_net x \<and> s \<in> set (px_sessions x) \<and> pc s = Relaying Reading Reading \<and>
     grants s = [backend_index s] \<and> last (grants s) = backend_index s \<and> distinct (grants s)"
proof -
  obtain x s where "deployed up_net x" "s \<in> set (px_sessions x)" "grants s = [backend_index s]" "pc s = Relaying Reading Reading"
    using sample_relaying by force
  then show ?thesis using retries_bounded by blast
qed

text \<open>C7: No exception ends a session: every checked access of \<^verbatim>\<open>handle_client\<close> to the pool, the breakers
  and the metrics is in range, in every interleaving.\<close>

theorem sessions_never_die:
  assumes "deployed envs x" and "s \<in> set (px_sessions x)"
  shows "pc s \<noteq> Died e"
  using deployed_session [OF assms] by (auto simp: session_inv_def)

theorem sessions_never_die_witness:
  "\<exists>x s. deployed up_net x \<and> s \<in> set (px_sessions x) \<and> pc s \<noteq> Died Out_Of_Range"
proof -
  obtain x s where "deployed up_net x" "s \<in> set (px_sessions x)" using sample_relaying by force
  then show ?thesis using sessions_never_die by blast
qed

text \<open>C8: Sockets are not leaked: \<^verbatim>\<open>active_count\<close> of a backend is the number of sessions that hold a
  socket of it, and a session that has ended holds none.\<close>

theorem sockets_accounted:
  assumes "deployed envs x" and "i < 3"
  shows "active_count i (sh_pool (px_shared x)) =
      Inr (int (length (filter (\<lambda>s. backend_socket s \<noteq> None \<and> backend_index s = i) (px_sessions x)))) \<and>
    (\<forall>s \<in> set (px_sessions x). pc s = Finished \<longrightarrow> backend_socket s = None)"
proof -
  have "count (held_sockets ss) i = length (filter (\<lambda>s. backend_socket s \<noteq> None \<and> backend_index s = i) ss)" for ss
    by (induction ss) (auto simp: held_sockets_def holds_def split: option.splits)
  then have "active_count i (sh_pool (px_shared x)) =
      Inr (int (length (filter (\<lambda>s. backend_socket s \<noteq> None \<and> backend_index s = i) (px_sessions x))))"
    using deployed_inv [OF assms(1)] assms(2)
    by (simp add: proxy_inv_def env_ok_def shared_ok_def pc.balanced_def active_count_def pool_ok_def)
  moreover have "backend_socket s = None" if "s \<in> set (px_sessions x)" "pc s = Finished" for s
    using deployed_session [OF assms(1) that(1)] that(2) by (simp add: session_inv_def)
  ultimately show ?thesis by blast
qed

theorem sockets_accounted_witness:
  "\<exists>x i. deployed up_net x \<and> i < 3 \<and> active_count i (sh_pool (px_shared x)) = Inr 1"
proof -
  obtain x s where x: "deployed up_net x" "px_sessions x = [s]" "backend_socket s \<noteq> None" "backend_index s < 3"
    using sample_relaying by blast
  then have "active_count (backend_index s) (sh_pool (px_shared x)) = Inr 1"
    using sockets_accounted [of up_net x "backend_index s"] by simp
  with x show ?thesis by blast
qed

text \<open>C9: Every request a breaker grants is reported to that breaker exactly once, before the session
  ends and before it asks for another grant.\<close>

theorem grants_reported_once:
  assumes "deployed envs x" and "s \<in> set (px_sessions x)"
  shows "if pc s = Acquiring \<or> pc s = Replaying \<or> (\<exists>up down. pc s = Relaying up down)
    then grants s = reports s @ [backend_index s] else grants s = reports s"
  using deployed_session [OF assms]
  by (cases "pc s") (auto simp: session_inv_def loop_inv_def busy_inv_def)

theorem grants_reported_once_witness:
  "\<exists>x s. deployed up_net x \<and> s \<in> set (px_sessions x) \<and> grants s = reports s @ [backend_index s]"
proof -
  obtain x s where "deployed up_net x" "s \<in> set (px_sessions x)" "pc s = Relaying Reading Reading"
    using sample_relaying by force
  then show ?thesis using grants_reported_once [of up_net x s] by auto
qed

text \<open>C10: The proxy answers 503 for one of three reasons only: three attempts were used up, the request
  outgrew the buffer, or every backend on the ring was tried or skipped.\<close>

theorem unavailable_only_if_exhausted:
  assumes "deployed envs x" and "s \<in> set (px_sessions x)" and "pc s = Sending_Status"
  shows "attempts s = 3 \<or> capped (req_buf s) \<or> {..<3} \<subseteq> excluded s"
proof -
  have "max_attempts s = 3" using assms by (intro deployed_max_attempts)
  moreover have "loop_inv s" "exhausted (main_ring 3) s"
    using deployed_session [OF assms(1,2)] assms(3) by (simp_all add: session_inv_def)
  moreover have "{..<3} \<subseteq> excluded s" if "\<forall>(k, b) \<in> set (ring (main_ring 3)). b \<in> excluded s"
    using that main_ring_owners by fastforce
  ultimately show ?thesis by (auto simp: loop_inv_def exhausted_def)
qed

theorem unavailable_only_if_exhausted_witness:
  "\<exists>x s. deployed down_net x \<and> s \<in> set (px_sessions x) \<and> pc s = Sending_Status \<and>
     (attempts s = 3 \<or> capped (req_buf s) \<or> {..<3} \<subseteq> excluded s)"
proof -
  obtain x s where "deployed down_net x" "s \<in> set (px_sessions x)" "pc s = Sending_Status"
    using sample_unavailable by force
  then show ?thesis using unavailable_only_if_exhausted by blast
qed

text \<open>C12: Sessions end: whatever happens to the shared state in between, a session of the deployed proxy
  takes at most twenty more steps than twice the number of chunks its peers send it; and until
  it has finished it is never stuck, some outcome without new bytes resumes it.\<close>

theorem sessions_terminate:
  assumes "deployed envs x" and "s \<in> set (px_sessions x)"
  shows "(\<forall>es s'. session_run es s s' \<longrightarrow> length es \<le> 20 + 2 * length (filter reads_chunk es)) \<and>
    (pc s \<noteq> Finished \<longrightarrow> (\<exists>e c. \<not> reads_chunk e \<and> step e (px_shared x, s) = Some c))"
proof -
  have inv: "session_inv 3 (main_ring 3) s" using assms by (rule deployed_session)
  have "rank s \<le> 20" using rank_bound [OF inv] deployed_max_attempts [OF assms] by simp
  then have "length es \<le> 20 + 2 * length (filter reads_chunk es)" if "session_run es s s'" for es s'
    using session_run_bound [OF that] by linarith
  moreover have "pc s \<noteq> Died e" for e using inv by (auto simp: session_inv_def)
  ultimately show ?thesis using never_stuck [of s] deployed_awake [OF assms] by blast
qed

theorem sessions_terminate_witness:
  "\<exists>x s e c. deployed up_net x \<and> s \<in> set (px_sessions x) \<and> \<not> reads_chunk e \<and> step e (px_shared x, s) = Some c"
proof -
  obtain x s where "deployed up_net x" "s \<in> set (px_sessions x)" "pc s = Relaying Reading Reading"
    using sample_relaying by force
  then show ?thesis using sessions_terminate [of up_net x s] by fastforce
qed

text \<open>C13: The scrape tells the truth: modulo \<open>2 ^ 64\<close>, the requests counted are the sessions that have
  started, the rate-limited ones the connections handed to \<^verbatim>\<open>send_429\<close>, the fallbacks the sessions that
  are sending or have sent a 503; the successes of a backend are the sessions it served, and its successes and
  failures together are the reports its breaker got.\<close>

theorem metrics_truthful:
  assumes "deployed envs x" and "b < 3"
  shows "let m = sh_metrics (px_shared x); ss = px_sessions x in
    total_requests m = of_nat (length (filter (\<lambda>s. pc s \<noteq> Started) ss)) \<and>
    rate_limited m = of_nat (length (px_rejects x)) \<and>
    fallback_503 m = of_nat (length (filter fell_back ss)) \<and>
    backend_success m ! b = of_nat (length (filter (served_by b) ss)) \<and>
    backend_success m ! b + backend_failure m ! b = of_nat (sum_list (map (\<lambda>s. count_list (reports s) b) ss))"
  using deployed_books [OF assms(1)] assms(2)
  unfolding books_inv_def Let_def total_filter total_of_nat by blast

theorem metrics_truthful_witness:
  "\<exists>x. deployed up_net x \<and> length (px_sessions x) = 1 \<and> total_requests (sh_metrics (px_shared x)) = 1"
proof -
  obtain x s where "deployed up_net x" "px_sessions x = [s]" "pc s = Relaying Reading Reading"
    using sample_relaying by blast
  then show ?thesis using metrics_truthful [of up_net x 0] by (auto simp: Let_def)
qed

text \<open>C34: The pool only drains: whatever the requests, every free list of the running proxy is a prefix
  of the list the warm-up left; no used socket ever returns to it.\<close>

theorem pool_only_drains:
  assumes "deployed envs x" and "i < 3"
  shows "prefix (free_sockets (sh_pool (px_shared x)) ! i)
    (free_sockets (fst (warm_up envs (new_pool main_backends))) ! i)"
  using deployed_inv [OF assms(1)] assms(2) warmed_frame [of envs]
  by (simp add: proxy_inv_def env_ok_def drained_from_def pool_ok_def)

theorem pool_only_drains_witness:
  "\<exists>x i. deployed up_net x \<and> i < 3 \<and> prefix (free_sockets (sh_pool (px_shared x)) ! i)
     (free_sockets (fst (warm_up up_net (new_pool main_backends))) ! i)"
proof -
  obtain x s where "deployed up_net x" "px_sessions x = [s]" "backend_index s < 3"
    using sample_relaying by blast
  then show ?thesis using pool_only_drains by blast
qed



text \<open>C36: One failed accept ends the service: after \<^verbatim>\<open>async_accept\<close> or \<^verbatim>\<open>set_option\<close> has thrown once, no
  request is ever accepted again, although the process goes on.\<close>

theorem listener_death_is_final:
  assumes "ar_accept a = Inl e \<or> ar_no_delay a = Inl e" and "listen_once a x = Some x'"
    and "proxy_reachable x' y"
  shows "px_ids y = px_ids x \<and> length (px_sessions y) = length (px_sessions x)"
proof -
  have "x' = x\<lparr>px_listening := False\<rparr>"
    using assms(1,2) by (auto simp: listen_once_def split: sum.splits)
  then show ?thesis using silent_listener [OF assms(3)] by simp
qed

theorem listener_death_is_final_witness:
  "\<exists>x'. listen_once \<lparr>ar_accept = Inl (System_Error ''Too many open files''), ar_no_delay = Inr (),
       ar_now_ms = 0, ar_remote = None, ar_now = 0\<rparr> (run up_net sample_proxy) = Some x' \<and>
     px_ids x' = px_ids (run up_net sample_proxy)"
proof -
  let ?a = "\<lparr>ar_accept = Inl (System_Error ''Too many open files''), ar_no_delay = Inr (),
       ar_now_ms = 0, ar_remote = None, ar_now = 0\<rparr>"
  obtain x' where x': "listen_once ?a (run up_net sample_proxy) = Some x'" by (simp add: listen_once_def)
  have "ar_accept ?a = Inl (System_Error ''Too many open files'') \<or>
      ar_no_delay ?a = Inl (System_Error ''Too many open files'')" by simp
  from listener_death_is_final [OF this x' proxy_reachable.start] x' show ?thesis by blast
qed

text \<open>C11: An outage is answered: with no idle sockets and every connect refused, a new request reaches the
  503 after at most \<open>max_attempts\<close> refused connects, whatever the state of the breakers.\<close>

theorem outage_gives_503:
  assumes "shared_ok n r sh" and "pc.balanced (sh_pool sh) H" and "no_idle n sh" and "0 \<le> k"
    and "\<forall>i. refuses (envs i)"
  shows "\<exists>c m sh' s'. step Start (sh, new_session key cid k) = Some c \<and> int m \<le> k \<and>
    connects (map envs [0..<m]) c = Some (sh', s') \<and> pc s' = Sending_Status"
proof -
  have "good n r (sh_pool sh) H (sh, new_session key cid k)"
    using assms(1,2) by (simp add: good_def env_ok_def drained_from_def)
  then show ?thesis using outage_start assms(3-5) by blast
qed

theorem outage_gives_503_witness:
  "\<exists>c m sh' s'. step Start (px_shared (run down_net sample_proxy), new_session ''10.0.0.1'' ''req-0-0'' 3) = Some c \<and>
     int m \<le> 3 \<and> connects (map (down_net 0) [0..<m]) c = Some (sh', s') \<and> pc s' = Sending_Status"
proof -
  obtain x cid where x: "deployed down_net x" "px_shared x = px_shared (run down_net sample_proxy)"
    "px_sessions x = [new_session ''10.0.0.1'' cid 3]"
    using sample_accepted by blast
  have "shared_ok 3 (main_ring 3) (px_shared x)" "pc.balanced (sh_pool (px_shared x)) {#}"
    using deployed_inv [OF x(1)] x(3) by (simp_all add: proxy_inv_def env_ok_def held_sockets_def)
  moreover have "no_idle 3 (px_shared x)" using warmed_down by (simp add: no_idle_def x(2) sample_shared)
  moreover have "\<forall>i. refuses (down_net 0 i)" by (simp add: refuses_def down_net_def)
  ultimately show ?thesis using outage_gives_503 [of 3 "main_ring 3" "px_shared x" "{#}" 3] x(2) by simp
qed

text \<open>C35: A client that goes away blames the backend: when the client closes its connection before the
  backend has sent a byte, the cancelled relay counts as a failure of the backend at its
  circuit breaker.\<close>

theorem client_abort_blames_backend:
  assumes "deployed envs x" and "s \<in> set (px_sessions x)"
    and "pc s = Relaying Reading Reading" and "\<not> response_started s"
  shows "\<exists>c fl sh' s'. step (Client_Leg Read_Failed) (px_shared x, s) = Some c \<and>
    step (Backend_Leg Read_Failed) c = Some (resume fl) \<and> (fl = Continue (sh', s') \<or> fl = Break (sh', s')) \<and>
    sh_breakers sh' = (sh_breakers (px_shared x))[backend_index s :=
      record_failure (clock (px_shared x) (ticks (px_shared x))) (sh_breakers (px_shared x) ! backend_index s)]"
proof -
  let ?t = "s\<lparr>pc := Relaying Returned Returned\<rparr>"
  obtain i where i: "i < length (px_sessions x)" "px_sessions x ! i = s"
    using assms(2) by (auto simp: in_set_conv_nth)
  obtain H where "\<And>t. held_sockets ((px_sessions x)[i := t]) = H + holds t"
    using held_sockets_split [OF i(1)] by blast
  then have "held_sockets (px_sessions x) = H + holds s" using i(2) by (metis list_update_id)
  then have "good 3 (main_ring 3) (warmed envs) H (px_shared x, ?t)"
    using deployed_inv [OF assms(1)] by (simp add: good_def proxy_inv_def)
  moreover have "session_inv_at 3 (main_ring 3) (Relaying Returned Returned) ?t"
    using deployed_session [OF assms(1,2)] assms(3) by (simp add: session_inv_def)
  ultimately obtain sh' s' where fl:
    "after_relays (px_shared x, ?t) = Continue (sh', s') \<or> after_relays (px_shared x, ?t) = Break (sh', s')"
    "sh_breakers sh' = (sh_breakers (px_shared x))[backend_index s :=
      record_failure (clock (px_shared x) (ticks (px_shared x))) (sh_breakers (px_shared x) ! backend_index s)]"
    using after_relays_failure [of 3 "main_ring 3" "warmed envs" H "px_shared x" ?t] assms(4) by auto
  have same: "s\<lparr>response_started := False\<rparr> = s" using assms(4) by (cases s) simp
  have legs: "step (Client_Leg Read_Failed) (px_shared x, s) = Some (px_shared x, s\<lparr>pc := Relaying Returned Reading\<rparr>)"
    "step (Backend_Leg Read_Failed) (px_shared x, s\<lparr>pc := Relaying Returned Reading\<rparr>) =
      Some (resume (after_relays (px_shared x, ?t)))"
    using assms(3,4) by (simp_all add: after_leg_def same)
  show ?thesis using legs fl by blast
qed

theorem client_abort_blames_backend_witness:
  "\<exists>x s c fl sh' s'. deployed up_net x \<and> s \<in> set (px_sessions x) \<and>
     step (Client_Leg Read_Failed) (px_shared x, s) = Some c \<and>
     step (Backend_Leg Read_Failed) c = Some (resume fl) \<and> (fl = Continue (sh', s') \<or> fl = Break (sh', s'))"
proof -
  obtain x s where "deployed up_net x" "s \<in> set (px_sessions x)" "pc s = Relaying Reading Reading" "\<not> response_started s"
    using sample_relaying by force
  then show ?thesis using client_abort_blames_backend by blast
qed

text \<open>C18: The gauges of a scrape: for each backend the breaker gauge is the state of the breaker, except that
  a breaker that has just gone from open to half-open is still shown as open; the active gauge is
  never below the connections in use; and the idle gauge is the length of the free list, or still
  0 while the free list is as the warm-up left it.\<close>

theorem gauges_truthful:
  assumes "deployed envs x" and "b < 3"
  shows "let m = sh_metrics (px_shared x); br = sh_breakers (px_shared x) ! b; p = sh_pool (px_shared x) in
    (breaker_state m ! b = breaker_code (state br) \<or> state br = HALF_OPEN \<and> breaker_state m ! b = breaker_code OPEN) \<and>
    active_counts p ! b \<le> pool_active m ! b \<and>
    (pool_idle m ! b = int (length (free_sockets p ! b)) \<or>
     pool_idle m ! b = 0 \<and> free_sockets p ! b = free_sockets (fst (warm_up envs (new_pool main_backends))) ! b)"
  using deployed_gauges [OF assms(1)] assms(2) by (simp add: gauges_ok_def Let_def)

theorem gauges_truthful_witness:
  "\<exists>x b. deployed up_net x \<and> b < 3 \<and> active_counts (sh_pool (px_shared x)) ! b \<le> pool_active (sh_metrics (px_shared x)) ! b"
proof -
  obtain x s where "deployed up_net x" "px_sessions x = [s]" "backend_index s < 3" using sample_relaying by blast
  then show ?thesis using gauges_truthful [of up_net x "backend_index s"] by (auto simp: Let_def)
qed

text \<open>C15: An open breaker shields its backend in every interleaving. From any state with the invariant of the
  process (every deployed state has it), as long as the clock readings taken by all
  sessions stay within the cooldown of an open breaker, no session is granted a request to its
  backend, and the breaker stays open with the opening time it had.\<close>

theorem open_breaker_shields_backend:
  assumes "proxy_inv n r p x" and "proxy_reachable x y" and "cb_state (sh_breakers (px_shared x) ! b) = OPEN"
    and "\<forall>k. ticks (px_shared x) \<le> k \<and> k < ticks (px_shared y) \<longrightarrow>
      clock (px_shared x) k - opened_at (sh_breakers (px_shared x) ! b) < cooldown_nanos (sh_breakers (px_shared x) ! b)"
  shows "sum_list (map (\<lambda>s. count_list (grants s) b) (px_sessions y)) =
      sum_list (map (\<lambda>s. count_list (grants s) b) (px_sessions x)) \<and>
    cb_state (sh_breakers (px_shared y) ! b) = OPEN \<and>
    opened_at (sh_breakers (px_shared y) ! b) = opened_at (sh_breakers (px_shared x) ! b)"
proof -
  have "cooling b (px_shared x) (ticks (px_shared y))" using assms(3,4) by (simp add: cooling_def)
  then show ?thesis
    using process_shields_reachable [OF assms(2,1), of b]
    by (simp add: process_shields_def stays_open_def grants_of_def)
qed

theorem open_breaker_shields_backend_witness:
  "\<exists>y. proxy_reachable tripped_sample y \<and> length (px_ids y) = length (px_ids tripped_sample) + 1 \<and>
     cb_state (sh_breakers (px_shared y) ! 0) = OPEN \<and>
     sum_list (map (\<lambda>s. count_list (grants s) 0) (px_sessions y)) =
       sum_list (map (\<lambda>s. count_list (grants s) 0) (px_sessions tripped_sample))"
proof -
  have "shards_inv (px_limiter tripped_sample)" using tripped_sample_inv by (simp add: proxy_inv_def)
  then obtain y where y: "listen_once sample_arrival tripped_sample = Some y" using listen_once_total by blast
  then have "length (px_ids y) = length (px_ids tripped_sample) + 1"
    by (auto simp: listen_once_def sample_arrival_def split_def Let_def split: option.splits if_splits)
  moreover have reach: "proxy_reachable tripped_sample y"
    using y proxy_step.accept [OF tripped_sample_open(5)] proxy_reachable.intros by blast
  ultimately show ?thesis
    using open_breaker_shields_backend [OF tripped_sample_inv reach tripped_sample_open(1)]
    by (auto simp: tripped_sample_open)
qed

text \<open>C16: One trial at a time: when a breaker has opened with no session holding a grant of it, then until it
  closes again at most one session at a time holds one, whatever the interleaving; the breaker's flag
  says whether one does, and while it is open none does.\<close>

theorem half_open_single_trial:
  assumes "proxy_inv n r p x" and "b < n" and "cb_state (sh_breakers (px_shared x) ! b) = OPEN"
    and "trials b (px_sessions x) = 0" and "recovering b x y"
  shows "trials b (px_sessions y) = of_bool (half_open_trial_in_flight (sh_breakers (px_shared y) ! b)) \<and>
    (cb_state (sh_breakers (px_shared y) ! b) = OPEN \<longrightarrow> trials b (px_sessions y) = 0)"
proof -
  have "breaker_inv (sh_breakers (px_shared x) ! b)"
    using assms(1,2) by (simp add: proxy_inv_def env_ok_def shared_ok_def list_all_length)
  then have "trial_ok b x" using assms(3,4) by (simp add: trial_ok_def trial_inv_def breaker_inv_def)
  from recovering_trials [OF assms(5,1,2) this] show ?thesis
    by (auto simp: trial_ok_def trial_inv_def breaker_inv_def of_bool_def split: if_splits)
qed

theorem half_open_single_trial_witness:
  "\<exists>b x y. b < 3 \<and> cb_state (sh_breakers (px_shared x) ! b) = OPEN \<and> recovering b x y \<and>
     cb_state (sh_breakers (px_shared y) ! b) = HALF_OPEN \<and> trials b (px_sessions y) = 1"
proof -
  obtain b x y where x: "b < 3" "proxy_inv 3 (main_ring 3) (warmed up_net) x" "trials b (px_sessions x) = 0"
    "cb_state (sh_breakers (px_shared x) ! b) = OPEN" "recovering b x y"
    "cb_state (sh_breakers (px_shared y) ! b) = HALF_OPEN" "half_open_trial_in_flight (sh_breakers (px_shared y) ! b)"
    using cooled_trial by blast
  then have "trials b (px_sessions y) = 1" using half_open_single_trial [OF x(2,1,4,3,5)] by simp
  with x show ?thesis by blast
qed

text \<open>C17: A connection to a backend is never shared: if the warmed sockets differ and the kernel hands out no
  descriptor that is still in use, two sessions never hold the same socket and no socket is held by a session and idle
  in the pool, in every interleaving from start-up on.\<close>

theorem sockets_exclusive:
  assumes "main_start stod open_acceptor clk args env_rps env_burst = Running lp mp x0"
    and "exclusive (run envs x0)" and "exec_all es (run envs x0) = Some y" and "fresh_sockets es (run envs x0)"
  shows "(\<forall>i j a b. i < length (px_sessions y) \<longrightarrow> j < length (px_sessions y) \<longrightarrow> i \<noteq> j \<longrightarrow>
      backend_socket (px_sessions y ! i) = Some a \<longrightarrow> backend_socket (px_sessions y ! j) = Some b \<longrightarrow>
      sock_id a \<noteq> sock_id b) \<and>
    (\<forall>s \<in> set (px_sessions y). \<forall>a. backend_socket s = Some a \<longrightarrow> sock_id a \<notin># idle_ids (sh_pool (px_shared y)))"
proof -
  have "proxy_inv 3 (main_ring 3) (warmed envs) (run envs x0)"
    using deployed_inv [OF deployed_start [OF assms(1)]] .
  then have "exclusive y" using exclusive_exec_all assms(2-4) by blast
  then show ?thesis using exclusive_sessions exclusive_idle by blast
qed

theorem sockets_exclusive_witness:
  "\<exists>y s a. exec_all [Accepts sample_arrival, Session_Runs 0 Start] (run up_net sample_proxy) = Some y \<and>
     px_sessions y = [s] \<and> backend_socket s = Some a \<and> sock_id a \<notin># idle_ids (sh_pool (px_shared y))"
proof -
  let ?es = "[Accepts sample_arrival, Session_Runs 0 Start]"
  obtain y s a where y: "exec_all ?es (run up_net sample_proxy) = Some y" "px_sessions y = [s]" "backend_socket s = Some a"
    using sample_relaying by blast
  have "fresh_sockets ?es (run up_net sample_proxy)" by (simp split: option.split del: proxy_exec.simps)
  from sockets_exclusive [OF sample_start(1) exclusive_sample y(1) this] y show ?thesis by simp
qed

text \<open>C14: The rate limit holds for the process: with a clock that does not run backwards and buckets that fill
  up within the five minutes of \<^verbatim>\<open>reap_loop\<close>, the sessions ever opened for a client are at most the burst
  capacity plus the tokens credited between its connections plus one rounding error per
  connection, although its bucket may have been reaped any number of times in between.\<close>

theorem sessions_rate_limited:
  assumes "main_start stod open_acceptor clk args env_rps env_burst = Running lp mp x0"
    and "refills_in_time (px_limiter x0)" and "1 \<le> capacity (px_limiter x0)" and "capacity (px_limiter x0) \<le> 2 ^ 53"
    and "exec_all es (run envs x0) = Some y" and "sorted (readings_of es)"
    and "times_of key (requests_of es) = t # ts"
  shows "of_nat (sessions_of key y) \<le>
    capacity (px_limiter x0) + credits (refill_rate_per_sec (px_limiter x0)) t ts +
    of_nat (length ts + 1) * (capacity (px_limiter x0) / 2 ^ 53)"
proof -
  have "is_double (capacity (px_limiter x0))" "0 \<le> refill_rate_per_sec (px_limiter x0)"
    using assms(2) by (simp_all add: refills_in_time_def)
  moreover have "sorted (t # ts)" using sorted_times [OF assms(6), of key] assms(7) by simp
  ultimately show ?thesis
    using sessions_of_bucket [OF assms(1,2,5,6), of key] admitted_fresh assms(3,4,7) by simp
qed

theorem sessions_rate_limited_witness:
  "\<exists>y. exec_all [Accepts sample_arrival, Session_Runs 0 Start] (run up_net sample_proxy) = Some y \<and>
     of_nat (sessions_of ''10.0.0.1'' y) \<le> (20 :: rat) + 20 / 2 ^ 53"
proof -
  let ?es = "[Accepts sample_arrival, Session_Runs 0 Start]"
  obtain y where y: "exec_all ?es (run up_net sample_proxy) = Some y" using sample_relaying by blast
  have "sorted (readings_of ?es)" "times_of ''10.0.0.1'' (requests_of ?es) = 0 # []"
    by (simp_all add: readings_of_def requests_of_def times_of_def arrival_request_def sample_arrival_def)
  from sessions_rate_limited [OF sample_start(1) sample_refills _ _ y this] y show ?thesis
    by (simp add: sample_limiter)
qed

text \<open>C19: The state of the process is well-formed in every interleaving: pool, breakers and registry have one cell
  for each of the three backends, the counters of every breaker are within its thresholds, a trial
  is marked in flight in the half-open state only, every session with a socket holds one of an existing
  backend, and the limiter has a shard for every client, so that accepting a connection is always
  defined.\<close>

theorem process_well_formed:
  assumes "deployed envs x"
  shows "length (free_sockets (sh_pool (px_shared x))) = 3 \<and> length (active_counts (sh_pool (px_shared x))) = 3 \<and>
    length (sh_breakers (px_shared x)) = 3 \<and> metrics_ok 3 (sh_metrics (px_shared x)) \<and>
    (\<forall>br \<in> set (sh_breakers (px_shared x)).
       consecutive_failures br \<in> {0..5} \<and> (cb_state br = CLOSED \<longrightarrow> consecutive_failures br < 5) \<and>
       consecutive_successes br \<in> {0, 1} \<and> (half_open_trial_in_flight br \<longrightarrow> cb_state br = HALF_OPEN)) \<and>
    (\<forall>s \<in> set (px_sessions x). backend_socket s \<noteq> None \<longrightarrow> backend_index s < 3) \<and>
    (\<forall>a. listen_once a x \<noteq> None)"
proof -
  have inv: "shared_ok 3 (main_ring 3) (px_shared x)" "shards_inv (px_limiter x)"
    using deployed_inv [OF assms] by (simp_all add: proxy_inv_def env_ok_def)
  have "backend_index s < 3" if "s \<in> set (px_sessions x)" "backend_socket s \<noteq> None" for s
    using deployed_session [OF assms that(1)] that(2)
    by (cases "pc s") (auto simp: session_inv_def loop_inv_def busy_inv_def)
  then show ?thesis
    using inv deployed_breakers [OF assms] listen_once_total
    by (auto simp: shared_ok_def pool_ok_def breaker_bounds_def)
qed

theorem process_well_formed_witness:
  "\<exists>x. deployed up_net x \<and> length (px_sessions x) = 1 \<and> listen_once sample_arrival x \<noteq> None"
proof -
  obtain x s where "deployed up_net x" "px_sessions x = [s]" using sample_relaying by blast
  then show ?thesis using process_well_formed [of up_net x] by (intro exI [of _ x]) simp
qed

section \<open>The process\<close>

text \<open>C38: The responses the proxy writes itself are framed: the heads of the 503, the 429 and a scrape
  are the four lines they should be, the announced length is that of the body, and the body of a
  scrape is the rendered registry.\<close>

theorem responses_framed:
  "http_head unavailable_response =
     (head_lines ''503 Service Unavailable'' ''text/plain'' (''All backends unavailable'' @ nl),
      ''All backends unavailable'' @ nl) \<and>
   http_head response_429 = (head_lines ''429 Too Many Requests'' ''text/plain'' rate_limit_body, rate_limit_body) \<and>
   http_head (response_metrics m) =
     (head_lines ''200 OK'' ''text/plain; version=0.0.4'' (render_prometheus m), render_prometheus m)"
proof (intro conjI)
  have "to_string 503 = ''503''" by (simp add: to_string_big digit_char_eval)
  then show "http_head unavailable_response =
     (head_lines ''503 Service Unavailable'' ''text/plain'' (''All backends unavailable'' @ nl),
      ''All backends unavailable'' @ nl)"
    unfolding unavailable_response_def by (subst http_head_status) simp_all
  show "http_head response_429 = (head_lines ''429 Too Many Requests'' ''text/plain'' rate_limit_body, rate_limit_body)"
    using http_head_response [of "''429 Too Many Requests''" "''text/plain''" rate_limit_body]
    by (simp add: response_429_def)
  show "http_head (response_metrics m) =
     (head_lines ''200 OK'' ''text/plain; version=0.0.4'' (render_prometheus m), render_prometheus m)"
    using http_head_response [of "''200 OK''" "''text/plain; version=0.0.4''" "render_prometheus m"]
    by (simp add: response_metrics_def Let_def)
qed



end
